(* ===== verification/Prelude.thy ===== *)
theory Prelude
  imports Main "HOL-Library.Word" "HOL-Library.Product_Lexorder" "HOL-Library.Signed_Division"
begin

text \<open>
  What every component of the model shares.

  \<^item> Outcomes.  A C++ function of the library returns, meets undefined behaviour (a wild or
    dangling pointer, an access outside an array, a signed overflow) or ends the process
    (\<open>abort()\<close>, a failed \<open>assert\<close>, an exception nobody catches).  The model returns
    \<open>Inr\<close> of the result, \<open>Inl UB\<close> or \<open>Inl Abort\<close>; \<open>bindO\<close> sequences such steps.
  \<^item> Integers.  Signed C++ integers are exact \<open>int\<close>s whose range is checked where they are
    computed (a signed overflow is undefined, it does not wrap); \<open>size_t\<close>, pointers, flag
    sets and the fields of socket addresses are words of their width.
  \<^item> \<open>std::set\<close>: a strictly ascending list with the operations the code calls, and the
    interface \<open>std_set\<close> that states what the clients rely on.
  \<^item> Transition systems: reachability and the invariant rule, as the interface
    \<open>machine\<close>.
  \<^item> Decimal rendering, as the \<open>printf\<close> family produces it.
\<close>

named_theorems outcome_simps \<open>unfolding of the outcome combinators\<close>

section \<open>Outcomes\<close>

datatype fault = UB | Abort

type_synonym 'a outcome = "fault + 'a"

fun bindO :: "'a outcome \<Rightarrow> ('a \<Rightarrow> 'b outcome) \<Rightarrow> 'b outcome" where
  "bindO (Inl f) g = Inl f"
| "bindO (Inr x) g = g x"

definition guardO :: "bool \<Rightarrow> unit outcome" where
  "guardO b = (if b then Inr () else Inl UB)"

definition assertO :: "bool \<Rightarrow> unit outcome" where
  "assertO b = (if b then Inr () else Inl Abort)"

definition deref :: "('k \<rightharpoonup> 'v) \<Rightarrow> 'k \<Rightarrow> 'v outcome" where
  "deref h a = (case h a of None \<Rightarrow> Inl UB | Some v \<Rightarrow> Inr v)"

definition nthO :: "'a list \<Rightarrow> nat \<Rightarrow> 'a outcome" where
  "nthO xs i = (if i < length xs then Inr (xs ! i) else Inl UB)"

lemma bindO_Inr_conv [outcome_simps]:
  "bindO m f = Inr y \<longleftrightarrow> (\<exists>x. m = Inr x \<and> f x = Inr y)"
  by (cases m) auto

lemma bindO_Inl_conv [outcome_simps]:
  "bindO m f = Inl e \<longleftrightarrow> m = Inl e \<or> (\<exists>x. m = Inr x \<and> f x = Inl e)"
  by (cases m) auto

lemma bindO_assoc: "bindO (bindO m f) g = bindO m (\<lambda>x. bindO (f x) g)"
  by (cases m) auto

lemma bindO_Inr [simp]: "bindO m Inr = m"
  by (cases m) auto

lemma guardO_simps [simp]: "guardO True = Inr ()" "guardO False = Inl UB"
  by (simp_all add: guardO_def)

lemma guardO_conv [outcome_simps]:
  "guardO b = Inr u \<longleftrightarrow> b" "guardO b = Inl e \<longleftrightarrow> \<not> b \<and> e = UB"
  by (auto simp: guardO_def)

lemma assertO_simps [simp]: "assertO True = Inr ()" "assertO False = Inl Abort"
  by (simp_all add: assertO_def)

lemma assertO_conv [outcome_simps]:
  "assertO b = Inr u \<longleftrightarrow> b" "assertO b = Inl e \<longleftrightarrow> \<not> b \<and> e = Abort"
  by (auto simp: assertO_def)

lemma deref_Some [simp]: "h a = Some v \<Longrightarrow> deref h a = Inr v"
  by (simp add: deref_def)

lemma deref_conv [outcome_simps]:
  "deref h a = Inr v \<longleftrightarrow> h a = Some v" "deref h a = Inl e \<longleftrightarrow> h a = None \<and> e = UB"
  by (auto simp: deref_def split: option.splits)

lemma nthO_in [simp]: "i < length xs \<Longrightarrow> nthO xs i = Inr (xs ! i)"
  by (simp add: nthO_def)

lemma nthO_conv [outcome_simps]:
  "nthO xs i = Inr v \<longleftrightarrow> i < length xs \<and> xs ! i = v"
  "nthO xs i = Inl e \<longleftrightarrow> length xs \<le> i \<and> e = UB"
  by (auto simp: nthO_def)

text \<open>
  \<open>upheld m P\<close>: the step never meets undefined behaviour, and if it returns, its result
  satisfies \<open>P\<close>.
\<close>

definition upheld :: "'a outcome \<Rightarrow> ('a \<Rightarrow> bool) \<Rightarrow> bool" where
  "upheld m P = (case m of Inl f \<Rightarrow> f = Abort | Inr x \<Rightarrow> P x)"

lemma upheld_simps [simp]:
  "upheld (Inr x) P = P x" "upheld (Inl f) P = (f = Abort)"
  by (simp_all add: upheld_def)

lemma upheld_bind:
  assumes "upheld m Q" and "\<And>x. m = Inr x \<Longrightarrow> Q x \<Longrightarrow> upheld (f x) P"
  shows "upheld (bindO m f) P"
  using assms by (cases m) auto

lemma upheld_mono: "upheld m P \<Longrightarrow> (\<And>x. m = Inr x \<Longrightarrow> P x \<Longrightarrow> Q x) \<Longrightarrow> upheld m Q"
  by (cases m) auto

lemma upheld_no_UB: "upheld m P \<Longrightarrow> m \<noteq> Inl UB"
  by (cases m) auto

lemma find_append: "find P (xs @ ys) = (case find P xs of None \<Rightarrow> find P ys | Some x \<Rightarrow> Some x)"
  by (induction xs) auto

section \<open>Signed integers\<close>

definition in_i32 :: "int \<Rightarrow> bool" where
  "in_i32 x \<longleftrightarrow> - (2 ^ 31) \<le> x \<and> x < 2 ^ 31"

definition in_i64 :: "int \<Rightarrow> bool" where
  "in_i64 x \<longleftrightarrow> - (2 ^ 63) \<le> x \<and> x < 2 ^ 63"

definition chk32 :: "int \<Rightarrow> int outcome" where
  "chk32 x = (if in_i32 x then Inr x else Inl UB)"

definition chk64 :: "int \<Rightarrow> int outcome" where
  "chk64 x = (if in_i64 x then Inr x else Inl UB)"

lemma chk32_in [simp]: "in_i32 x \<Longrightarrow> chk32 x = Inr x"
  by (simp add: chk32_def)

lemma chk64_in [simp]: "in_i64 x \<Longrightarrow> chk64 x = Inr x"
  by (simp add: chk64_def)

lemma chk32_conv [outcome_simps]: "chk32 x = Inr y \<longleftrightarrow> in_i32 x \<and> x = y"
  by (auto simp: chk32_def)

lemma chk64_conv [outcome_simps]: "chk64 x = Inr y \<longleftrightarrow> in_i64 x \<and> x = y"
  by (auto simp: chk64_def)

text \<open>The implicit conversion of a \<open>size_t\<close> to \<open>int\<close>: the low 32 bits, read as signed.\<close>

definition int_of_size :: "nat \<Rightarrow> int" where
  "int_of_size n = signed_take_bit 31 (int n)"

lemma int_of_size_small: "n < 2 ^ 31 \<Longrightarrow> int_of_size n = int n"
  unfolding int_of_size_def by (rule signed_take_bit_int_eq_self) auto

section \<open>Decimal rendering\<close>

definition digit :: "nat \<Rightarrow> char" where
  "digit n = char_of (48 + n)"

fun dec_nat :: "nat \<Rightarrow> string" where
  "dec_nat n = (if n < 10 then [digit n] else dec_nat (n div 10) @ [digit (n mod 10)])"

declare dec_nat.simps [simp del]

definition dec_int :: "int \<Rightarrow> string" where
  "dec_int i = (if i < 0 then CHR ''-'' # dec_nat (nat (- i)) else dec_nat (nat i))"

definition zero_pad :: "nat \<Rightarrow> string \<Rightarrow> string" where
  "zero_pad w s = replicate (w - length s) (CHR ''0'') @ s"

definition digit_val :: "char \<Rightarrow> nat" where
  "digit_val c = of_char c - 48"

definition undec :: "string \<Rightarrow> nat" where
  "undec s = foldl (\<lambda>n c. 10 * n + digit_val c) 0 s"

lemma digit_val_digit [simp]: "n < 10 \<Longrightarrow> digit_val (digit n) = n"
  by (simp add: digit_val_def digit_def)

lemma digit_inj [simp]: "m < 10 \<Longrightarrow> n < 10 \<Longrightarrow> digit m = digit n \<longleftrightarrow> m = n"
  by (metis digit_val_digit)

lemma digit_eval [simp]:
  "digit 0 = CHR ''0''" "digit 1 = CHR ''1''" "digit (Suc 0) = CHR ''1''" "digit 2 = CHR ''2''"
  "digit 3 = CHR ''3''" "digit 4 = CHR ''4''" "digit 5 = CHR ''5''" "digit 6 = CHR ''6''"
  "digit 7 = CHR ''7''" "digit 8 = CHR ''8''" "digit 9 = CHR ''9''"
  by code_simp+

lemma dec_nat_small: "n < 10 \<Longrightarrow> dec_nat n = [digit n]"
  by (subst dec_nat.simps) simp

lemma dec_nat_ge: "10 \<le> n \<Longrightarrow> dec_nat n = dec_nat (n div 10) @ [digit (n mod 10)]"
  by (subst dec_nat.simps) simp

lemma dec_nat_nonempty [simp]: "dec_nat n \<noteq> []"
  by (subst dec_nat.simps) simp

lemma undec_snoc: "undec (s @ [c]) = 10 * undec s + digit_val c"
  by (simp add: undec_def)

lemma undec_dec_nat [simp]: "undec (dec_nat n) = n"
proof (induction n rule: dec_nat.induct)
  case (1 n)
  show ?case
  proof (cases "n < 10")
    case True
    then show ?thesis by (simp add: dec_nat_small undec_def)
  next
    case False
    with "1" show ?thesis by (simp add: dec_nat_ge undec_snoc)
  qed
qed

lemma dec_nat_inj [simp]: "dec_nat m = dec_nat n \<longleftrightarrow> m = n"
  by (metis undec_dec_nat)

lemma dec_nat_digits: "c \<in> set (dec_nat n) \<Longrightarrow> \<exists>d<10. c = digit d"
proof (induction n rule: dec_nat.induct)
  case (1 n)
  show ?case
  proof (cases "n < 10")
    case True
    with "1.prems" show ?thesis by (auto simp: dec_nat_small)
  next
    case False
    have "\<exists>d<10. digit (n mod 10) = digit d"
      by (rule exI [of _ "n mod 10"]) simp
    with False 1 show ?thesis by (auto simp: dec_nat_ge)
  qed
qed

lemma length_dec_nat: "0 < k \<Longrightarrow> n < 10 ^ k \<Longrightarrow> length (dec_nat n) \<le> k"
proof (induction k arbitrary: n)
  case 0
  then show ?case by simp
next
  case (Suc k)
  show ?case
  proof (cases "n < 10")
    case True
    then show ?thesis by (simp add: dec_nat_small)
  next
    case False
    with Suc.prems have "0 < k" by (cases k) auto
    moreover from Suc.prems have "n div 10 < 10 ^ k" by auto
    ultimately have "length (dec_nat (n div 10)) \<le> k" by (rule Suc.IH)
    with False show ?thesis by (simp add: dec_nat_ge)
  qed
qed

lemma undec_zero_pad [simp]: "undec (zero_pad w s) = undec s"
proof -
  have z: "foldl (\<lambda>n c. 10 * n + digit_val c) 0 (replicate k (CHR ''0'')) = 0" for k
    by (induction k) (simp_all add: digit_val_def)
  show ?thesis by (simp add: zero_pad_def undec_def z)
qed

lemma digit_neq: "d < 10 \<Longrightarrow> (of_char c :: nat) < 48 \<or> (57::nat) < of_char c \<Longrightarrow> digit d \<noteq> c"
  by (auto simp: digit_def)

lemma dec_nat_no_char:
  "(of_char c :: nat) < 48 \<or> (57::nat) < of_char c \<Longrightarrow> c \<notin> set (dec_nat n)"
  using dec_nat_digits digit_neq by blast

lemma length_zero_pad [simp]: "length (zero_pad w s) = max w (length s)"
  by (simp add: zero_pad_def)

section \<open>The ordered set of the C++ library\<close>

text \<open>
  \<open>std::set\<close> keeps its elements in ascending order without duplicates.  The interface:
  what the code's components use of a set, with the laws they rely on.  \<open>below k s\<close>
  is the range \<open>[begin, lower_bound k)\<close>, \<open>beyond k s\<close> the set once that range is erased.
\<close>

locale std_set =
  fixes ins :: "'a::linorder \<Rightarrow> 's \<Rightarrow> 's"
    and del :: "'a \<Rightarrow> 's \<Rightarrow> 's"
    and below :: "'a \<Rightarrow> 's \<Rightarrow> 'a list"
    and beyond :: "'a \<Rightarrow> 's \<Rightarrow> 's"
    and elems :: "'s \<Rightarrow> 'a list"
    and invar :: "'s \<Rightarrow> bool"
  assumes elems_asc: "invar s \<Longrightarrow> sorted_wrt (<) (elems s)"
    and set_ins: "invar s \<Longrightarrow> set (elems (ins x s)) = insert x (set (elems s))"
    and set_del: "invar s \<Longrightarrow> set (elems (del x s)) = set (elems s) - {x}"
    and below_from: "invar s \<Longrightarrow> elems s = below k s @ elems (beyond k s)"
    and below_less: "invar s \<Longrightarrow> x \<in> set (below k s) \<Longrightarrow> x < k"
    and from_ge: "invar s \<Longrightarrow> x \<in> set (elems (beyond k s)) \<Longrightarrow> k \<le> x"
    and invar_ins: "invar s \<Longrightarrow> invar (ins x s)"
    and invar_del: "invar s \<Longrightarrow> invar (del x s)"
    and invar_from: "invar s \<Longrightarrow> invar (beyond k s)"
begin

lemma elems_distinct: "invar s \<Longrightarrow> distinct (elems s)"
  using elems_asc strict_sorted_iff by blast

lemma begin_least: "invar s \<Longrightarrow> elems s = x # xs \<Longrightarrow> y \<in> set (elems s) \<Longrightarrow> x \<le> y"
  using elems_asc [of s] by (auto simp: less_imp_le)

lemma set_below: "invar s \<Longrightarrow> set (below k s) = {x \<in> set (elems s). x < k}"
proof -
  assume i: "invar s"
  have "set (elems s) = set (below k s) \<union> set (elems (beyond k s))"
    using arg_cong [OF below_from [OF i, of k], of set] by simp
  then show ?thesis
    using below_less [OF i, of _ k] from_ge [OF i, of _ k] by (auto simp: not_le [symmetric])
qed

lemma set_from: "invar s \<Longrightarrow> set (elems (beyond k s)) = {x \<in> set (elems s). k \<le> x}"
proof -
  assume i: "invar s"
  have "set (elems s) = set (below k s) \<union> set (elems (beyond k s))"
    using arg_cong [OF below_from [OF i, of k], of set] by simp
  then show ?thesis
    using below_less [OF i, of _ k] from_ge [OF i, of _ k] by (auto simp: not_le [symmetric])
qed

lemma below_asc: "invar s \<Longrightarrow> sorted_wrt (<) (below k s)"
  using elems_asc [of s] below_from [of s k] by (metis sorted_wrt_append)

lemma ins_begin:
  assumes "invar s"
  shows "hd (elems (ins x s)) = (if elems s = [] then x else min x (hd (elems s)))"
proof -
  obtain y ys where e: "elems (ins x s) = y # ys"
    using set_ins [OF assms, of x] by (cases "elems (ins x s)") auto
  have least: "\<And>z. z \<in> insert x (set (elems s)) \<Longrightarrow> y \<le> z"
    using begin_least [OF invar_ins [OF assms] e] set_ins [OF assms] by simp
  have y: "y \<in> insert x (set (elems s))"
    using set_ins [OF assms, of x] e by force
  show ?thesis
  proof (cases "elems s")
    case Nil
    with y e show ?thesis by simp
  next
    case (Cons z zs)
    have "z \<le> w" if "w \<in> set (elems s)" for w
      using begin_least [OF assms Cons that] .
    with y have "min x z \<le> y"
      by (auto simp: min_le_iff_disj)
    moreover from least [of x] least [of z] Cons have "y \<le> min x z"
      by simp
    ultimately have "y = min x z" by (rule antisym [rotated])
    with e Cons show ?thesis by simp
  qed
qed

end

text \<open>The model of \<open>std::set\<close>: the elements in iteration order.\<close>

fun oset_insert :: "'a::linorder \<Rightarrow> 'a list \<Rightarrow> 'a list" where
  "oset_insert x [] = [x]"
| "oset_insert x (y # ys) =
     (if x < y then x # y # ys else if y < x then y # oset_insert x ys else y # ys)"

definition oset_erase :: "'a \<Rightarrow> 'a list \<Rightarrow> 'a list" where
  "oset_erase x xs = filter (\<lambda>y. y \<noteq> x) xs"

definition oset_below :: "'a::linorder \<Rightarrow> 'a list \<Rightarrow> 'a list" where
  "oset_below k xs = takeWhile (\<lambda>x. x < k) xs"

definition oset_from :: "'a::linorder \<Rightarrow> 'a list \<Rightarrow> 'a list" where
  "oset_from k xs = dropWhile (\<lambda>x. x < k) xs"

abbreviation asc :: "'a::linorder list \<Rightarrow> bool" where
  "asc \<equiv> sorted_wrt (<)"

lemma set_oset_insert [simp]: "set (oset_insert x xs) = insert x (set xs)"
  by (induction xs) auto

lemma asc_oset_insert: "asc xs \<Longrightarrow> asc (oset_insert x xs)"
  by (induction xs) auto

lemma set_oset_erase [simp]: "set (oset_erase x xs) = set xs - {x}"
  by (auto simp: oset_erase_def)

lemma asc_oset_erase: "asc xs \<Longrightarrow> asc (oset_erase x xs)"
  unfolding oset_erase_def by (rule sorted_wrt_filter)

lemma oset_from_ge: "asc xs \<Longrightarrow> x \<in> set (oset_from k xs) \<Longrightarrow> k \<le> x"
  by (induction xs) (auto simp: oset_from_def split: if_splits)

interpretation oset: std_set oset_insert oset_erase oset_below oset_from "\<lambda>xs. xs" asc
proof (unfold_locales, goal_cases)
  case (4 s k)
  then show ?case by (simp add: oset_below_def oset_from_def)
next
  case (5 s x k)
  then show ?case by (auto simp: oset_below_def dest: set_takeWhileD)
next
  case (9 s k)
  then show ?case by (metis oset_from_def sorted_wrt_append takeWhile_dropWhile_id)
qed (auto simp: asc_oset_insert asc_oset_erase oset_from_ge)

section \<open>Transition systems\<close>

inductive reach :: "('s \<Rightarrow> bool) \<Rightarrow> ('s \<Rightarrow> 's \<Rightarrow> bool) \<Rightarrow> 's \<Rightarrow> bool"
  for init :: "'s \<Rightarrow> bool" and step :: "'s \<Rightarrow> 's \<Rightarrow> bool" where
  reach_init: "init s \<Longrightarrow> reach init step s"
| reach_step: "reach init step s \<Longrightarrow> step s t \<Longrightarrow> reach init step t"

locale machine =
  fixes init :: "'s \<Rightarrow> bool"
    and step :: "'s \<Rightarrow> 's \<Rightarrow> bool"
    and inv :: "'s \<Rightarrow> bool"
  assumes inv_init: "init s \<Longrightarrow> inv s"
    and inv_step: "inv s \<Longrightarrow> step s t \<Longrightarrow> inv t"
begin

lemma inv_reach: "reach init step s \<Longrightarrow> inv s"
  by (induction rule: reach.induct) (auto intro: inv_init inv_step)

lemma inv_steps: "step\<^sup>*\<^sup>* s t \<Longrightarrow> inv s \<Longrightarrow> inv t"
  by (induction rule: rtranclp_induct) (auto intro: inv_step)

end

text \<open>
  A machine that implements an abstract one: \<open>abs\<close> maps its states to abstract states, and
  every step is simulated by abstract steps.
\<close>

locale refinement = machine init step inv
  for init :: "'s \<Rightarrow> bool" and step :: "'s \<Rightarrow> 's \<Rightarrow> bool" and inv :: "'s \<Rightarrow> bool" +
  fixes ainit :: "'a \<Rightarrow> bool"
    and astep :: "'a \<Rightarrow> 'a \<Rightarrow> bool"
    and abs_state :: "'s \<Rightarrow> 'a"
  assumes abs_init: "init s \<Longrightarrow> ainit (abs_state s)"
    and abs_step: "inv s \<Longrightarrow> step s t \<Longrightarrow> astep\<^sup>*\<^sup>* (abs_state s) (abs_state t)"
begin

lemma abs_steps: "step\<^sup>*\<^sup>* s t \<Longrightarrow> inv s \<Longrightarrow> astep\<^sup>*\<^sup>* (abs_state s) (abs_state t)"
proof (induction rule: rtranclp_induct)
  case (step t u)
  then have "inv t" using inv_steps by blast
  with step abs_step [of t u] show ?case by (meson rtranclp_trans)
qed simp

lemma reach_astar: "reach ainit astep a \<Longrightarrow> astep\<^sup>*\<^sup>* a b \<Longrightarrow> reach ainit astep b"
  by (rotate_tac, induction rule: rtranclp_induct) (auto intro: reach_step)

lemma abs_reach: "reach init step s \<Longrightarrow> reach ainit astep (abs_state s)"
proof (induction rule: reach.induct)
  case (reach_init s)
  then show ?case by (intro reach.reach_init abs_init)
next
  case (reach_step s t)
  then show ?case using abs_step inv_reach reach_astar by blast
qed

end

end
