(* ===== verification/Timestamps.thy ===== *)
theory Timestamps
  imports Prelude
begin

text \<open>
  \<open>Timestamp.h\<close>, \<open>Timestamp.cc\<close>: a count of microseconds since the epoch in an
  \<open>int64_t\<close>, its order, its rendering, \<open>now()\<close> and \<open>addTime\<close>.

  The system clock is a parameter: \<open>Timestamp_now\<close> takes the \<open>timeval\<close> that
  \<open>gettimeofday\<close> filled in.  \<open>double\<close> is modelled by value: a finite double is
  \<open>m * 2 ^ e\<close>; the product with the constant 1000000 is rounded to 53 bits, ties to even,
  as IEEE 754 arithmetic does (the product of a double with an integer never underflows, and
  a product that overflows is out of the range of \<open>int64_t\<close> either way, so the exponent
  needs no bounds here).
\<close>

named_theorems time_simps \<open>unfolding of the time operations\<close>

section \<open>The time stamp and its order\<close>

datatype timestamp = Timestamp (microSecondsSinceEpoch: int)

definition operator_less :: "timestamp \<Rightarrow> timestamp \<Rightarrow> bool" where
  "operator_less lhs rhs \<longleftrightarrow> microSecondsSinceEpoch lhs < microSecondsSinceEpoch rhs"

definition operator_eq :: "timestamp \<Rightarrow> timestamp \<Rightarrow> bool" where
  "operator_eq lhs rhs \<longleftrightarrow> microSecondsSinceEpoch lhs = microSecondsSinceEpoch rhs"

text \<open>The two operators are the order and the equality of the type.\<close>

instantiation timestamp :: linorder
begin

definition less_timestamp :: "timestamp \<Rightarrow> timestamp \<Rightarrow> bool" where
  "less_timestamp = operator_less"

definition less_eq_timestamp :: "timestamp \<Rightarrow> timestamp \<Rightarrow> bool" where
  "less_eq_timestamp lhs rhs \<longleftrightarrow> operator_less lhs rhs \<or> operator_eq lhs rhs"

instance
  by standard
    (auto simp: less_timestamp_def less_eq_timestamp_def operator_less_def operator_eq_def timestamp.expand)

end

lemma timestamp_less [simp]: "Timestamp a < Timestamp b \<longleftrightarrow> a < b"
  by (simp add: less_timestamp_def operator_less_def)

lemma timestamp_less_eq [simp]: "Timestamp a \<le> Timestamp b \<longleftrightarrow> a \<le> b"
  by (auto simp: less_eq_timestamp_def operator_less_def operator_eq_def)

lemma timestamp_le_iff: "s \<le> t \<longleftrightarrow> microSecondsSinceEpoch s \<le> microSecondsSinceEpoch t"
  by (cases s; cases t) simp

lemma operator_eq_iff: "operator_eq lhs rhs \<longleftrightarrow> lhs = rhs"
  by (cases lhs; cases rhs) (simp add: operator_eq_def)

definition kMicroSecondsPerSecond :: int where
  "kMicroSecondsPerSecond = 1000 * 1000"

definition valid :: "timestamp \<Rightarrow> bool" where
  "valid t \<longleftrightarrow> microSecondsSinceEpoch t > 0"

definition invalid :: timestamp where
  "invalid = Timestamp 0"

text \<open>\<open>gettimeofday\<close> fills in seconds and microseconds.\<close>

definition Timestamp_now :: "int \<times> int \<Rightarrow> timestamp outcome" where
  "Timestamp_now tv =
     bindO (chk64 (fst tv * kMicroSecondsPerSecond)) (\<lambda>us.
     bindO (chk64 (us + snd tv)) (\<lambda>us'. Inr (Timestamp us')))"

text \<open>\<open>%0<w>d\<close>: the sign counts towards the width.\<close>

definition fmt_0d :: "nat \<Rightarrow> int \<Rightarrow> string" where
  "fmt_0d w i =
     (if i < 0 then CHR ''-'' # zero_pad (w - 1) (dec_nat (nat (- i)))
      else zero_pad w (dec_nat (nat i)))"

text \<open>\<open>snprintf\<close> keeps at most \<open>n - 1\<close> characters.\<close>

definition snprintf :: "nat \<Rightarrow> string \<Rightarrow> string" where
  "snprintf n s = take (n - 1) s"

definition toString :: "timestamp \<Rightarrow> string" where
  "toString t =
     (let seconds = microSecondsSinceEpoch t sdiv kMicroSecondsPerSecond;
          microseconds = microSecondsSinceEpoch t smod kMicroSecondsPerSecond
      in snprintf (32 - 1) (dec_int seconds @ ''.'' @ fmt_0d 6 microseconds))"

section \<open>Doubles\<close>

datatype double = Fin int int | Inf bool | NaN

function bit_length :: "int \<Rightarrow> nat" where
  "bit_length n = (if n \<le> 0 then 0 else Suc (bit_length (n div 2)))"
  by pat_completeness auto
termination
  by (relation "measure nat") auto

declare bit_length.simps [simp del]

definition round_even :: "int \<Rightarrow> nat \<Rightarrow> int" where
  "round_even n s =
     (let q = n div 2 ^ s; r = n mod 2 ^ s
      in if 2 * r > 2 ^ s \<or> (2 * r = 2 ^ s \<and> odd q) then q + 1 else q)"

definition round53 :: "int \<Rightarrow> int \<Rightarrow> double" where
  "round53 m e =
     (let s = bit_length \<bar>m\<bar> - 53
      in Fin (sgn m * round_even \<bar>m\<bar> s) (e + int s))"

fun mul_1e6 :: "double \<Rightarrow> double" where
  "mul_1e6 (Fin m e) = round53 (m * kMicroSecondsPerSecond) e"
| "mul_1e6 (Inf b) = Inf b"
| "mul_1e6 NaN = NaN"

fun gt_zero :: "double \<Rightarrow> bool" where
  "gt_zero (Fin m e) = (m > 0)"
| "gt_zero (Inf positive) = positive"
| "gt_zero NaN = False"

text \<open>\<open>static_cast<int64_t>\<close> truncates towards zero; out of range it is undefined.\<close>

fun to_int64 :: "double \<Rightarrow> int outcome" where
  "to_int64 (Fin m e) =
     chk64 (if e \<ge> 0 then m * 2 ^ nat e else m sdiv (2 ^ nat (- e)))"
| "to_int64 _ = Inl UB"

definition delta_us :: "double \<Rightarrow> int outcome" where
  "delta_us seconds = to_int64 (mul_1e6 seconds)"

definition addTime :: "timestamp \<Rightarrow> double \<Rightarrow> timestamp outcome" where
  "addTime timestamp seconds =
     bindO (delta_us seconds) (\<lambda>delta.
     bindO (chk64 (microSecondsSinceEpoch timestamp + delta)) (\<lambda>us. Inr (Timestamp us)))"

lemmas addTime_simps [time_simps] = addTime_def delta_us_def

section \<open>Properties\<close>

lemma bit_length_le: "n < 2 ^ k \<Longrightarrow> bit_length n \<le> k"
proof (induction k arbitrary: n)
  case 0
  then show ?case by (simp add: bit_length.simps [of n])
next
  case (Suc k)
  then have "bit_length (n div 2) \<le> k" by (intro Suc.IH) auto
  then show ?case by (simp add: bit_length.simps [of n])
qed

lemma round53_exact: "\<bar>m\<bar> < 2 ^ 53 \<Longrightarrow> round53 m e = Fin m e"
  using bit_length_le [of "\<bar>m\<bar>" 53]
  by (simp add: round53_def round_even_def sgn_mult_abs)

lemma Timestamp_now_ok:
  assumes "0 \<le> s" "s < 2 ^ 40" "0 \<le> u" "u < 1000000"
  shows "Timestamp_now (s, u) = Inr (Timestamp (s * 1000000 + u))"
  using assms by (simp add: Timestamp_now_def kMicroSecondsPerSecond_def in_i64_def)

text \<open>
  Adding a whole number of seconds is exact: for every \<open>k\<close> within a hundred years,
  \<open>addTime(t, k)\<close> is \<open>t\<close> plus \<open>k\<close> million microseconds, with no rounding and no overflow.
\<close>

theorem addTime_whole_seconds:
  assumes "\<bar>k\<bar> \<le> 3153600000" and "0 \<le> t" "t < 2 ^ 60"
  shows "addTime (Timestamp t) (Fin k 0) = Inr (Timestamp (t + k * 1000000))"
proof -
  have "\<bar>k * 1000000\<bar> < 2 ^ 53" using assms(1) by simp
  moreover have "in_i64 (k * 1000000)" "in_i64 (t + k * 1000000)"
    using assms unfolding in_i64_def by auto
  ultimately show ?thesis
    by (simp add: time_simps kMicroSecondsPerSecond_def round53_exact)
qed

theorem addTime_whole_seconds_witness:
  "addTime (Timestamp 1700000000000000) (Fin 10 0) = Inr (Timestamp 1700000010000000)"
  using addTime_whole_seconds [of 10 1700000000000000] by simp

text \<open>The two fields of the rendering.\<close>

definition parse_time :: "string \<Rightarrow> int" where
  "parse_time s =
     int (undec (takeWhile (\<lambda>c. c \<noteq> CHR ''.'') s)) * 1000000
     + int (undec (drop 1 (dropWhile (\<lambda>c. c \<noteq> CHR ''.'') s)))"

lemma toString_eq:
  assumes "0 \<le> t" "t < 2 ^ 63"
  shows "toString (Timestamp t)
    = dec_nat (nat (t div 1000000)) @ ''.'' @ zero_pad 6 (dec_nat (nat (t mod 1000000)))"
proof -
  have "length (dec_nat (nat (t div 1000000))) \<le> 13"
    by (rule length_dec_nat) (use assms in auto)
  moreover have "length (dec_nat (nat (t mod 1000000))) \<le> 6"
    by (rule length_dec_nat) (use assms in auto)
  moreover have "\<not> t div 1000000 < 0" "\<not> t mod 1000000 < 0"
    using assms by (simp_all add: pos_imp_zdiv_neg_iff)
  ultimately show ?thesis using assms
    by (cases "t = 0")
      (simp_all add: toString_def snprintf_def dec_int_def fmt_0d_def kMicroSecondsPerSecond_def
        signed_divide_int_def signed_modulo_int_def dec_nat_small zero_pad_def Let_def)
qed

text \<open>
  C32.  \<open>toString\<close> loses nothing: the 32-byte buffer always suffices, and reading the seconds
  and the six digits of microseconds back gives the time stamp.
\<close>

theorem toString_roundtrip:
  assumes "0 \<le> t" "t < 2 ^ 63"
  shows "parse_time (toString (Timestamp t)) = t \<and> length (toString (Timestamp t)) \<le> 30"
proof -
  have dot: "CHR ''.'' \<notin> set (dec_nat n)" for n
    by (rule dec_nat_no_char) simp
  then have tw: "takeWhile (\<lambda>c. c \<noteq> CHR ''.'') (dec_nat n @ ''.'' @ r) = dec_nat n"
    and dw: "dropWhile (\<lambda>c. c \<noteq> CHR ''.'') (dec_nat n @ ''.'' @ r) = ''.'' @ r" for n r
    by (auto simp: takeWhile_append dropWhile_append)
  have "parse_time (toString (Timestamp t)) = t"
    unfolding toString_eq [OF assms] parse_time_def tw dw
    using assms pos_imp_zdiv_nonneg_iff [of 1000000 t] by simp
  moreover have "length (toString (Timestamp t)) \<le> 30"
    by (simp add: toString_def snprintf_def Let_def)
  ultimately show ?thesis by blast
qed

theorem toString_roundtrip_witness:
  "parse_time (toString (Timestamp 1700000000000042)) = 1700000000000042"
  using toString_roundtrip [of 1700000000000042] by simp

end
