(* ===== verification/TimerQueue.thy ===== *)
theory TimerQueue
  imports Timestamps
begin

text \<open>
  \<open>Timer.h\<close>, \<open>Timer.cc\<close>, \<open>TimerId.h\<close>, \<open>TimerQueue.h\<close>, \<open>TimerQueue.cc\<close>.

  Timers live on a heap from addresses to \<open>Timer\<close> objects; \<open>new\<close> and \<open>delete\<close> change it,
  and a use of an address that holds no timer is undefined behaviour.  The state of the queue
  has the fields of the class, plus what its operations touch outside it: the heap, the
  counter \<open>Timer::s_numCreated_\<close>, the value last written with \<open>timerfd_settime\<close> and the
  count of expirations not yet read, the readings of the system clock (\<open>clock\<close>, one per
  call of \<open>gettimeofday\<close>, the next one at \<open>tick\<close>) and those functors of the event loop's
  queue that \<open>addTimer\<close> and \<open>cancel\<close> put there when called from another thread.

  A timer callback is user code: a parameter \<open>exec\<close> of \<open>handleRead\<close>.  What the library
  may assume of it (\<open>user_code\<close>) is that it uses the queue through \<open>addTimer\<close> and
  \<open>cancel\<close> only.  The address that \<open>new Timer\<close> returns is an argument of \<open>addTimer\<close>.
\<close>

section \<open>Data\<close>

type_synonym addr = "64 word"

record 'cb timer =
  callback :: 'cb
  expiration :: timestamp
  interval :: double
  repeat :: bool
  sequence :: int

datatype timer_id = TimerId addr int

datatype tq_functor = AddTimerInLoop addr | CancelInLoop timer_id

record 'cb tq =
  callingExpiredTimers :: bool
  timers :: "(timestamp \<times> addr) list"
  activeTimers :: "(addr \<times> int) list"
  cancelingTimers :: "(addr \<times> int) list"
  heap :: "addr \<rightharpoonup> 'cb timer"
  numCreated :: int
  timerfd :: "(int \<times> int) option"
  expirations :: nat
  clock :: "nat \<Rightarrow> int \<times> int"
  tick :: nat
  functors :: "tq_functor list"

section \<open>Timer\<close>

definition new_timer :: "'cb \<Rightarrow> timestamp \<Rightarrow> double \<Rightarrow> int \<Rightarrow> 'cb timer" where
  "new_timer cb when ivl created =
     \<lparr>callback = cb, expiration = when, interval = ivl, repeat = gt_zero ivl,
      sequence = signed_take_bit 63 (created + 1)\<rparr>"

definition restart :: "timestamp \<Rightarrow> 'cb timer \<Rightarrow> 'cb timer outcome" where
  "restart now t =
     (if repeat t then bindO (addTime now (interval t)) (\<lambda>e. Inr (t\<lparr>expiration := e\<rparr>))
      else Inr (t\<lparr>expiration := invalid\<rparr>))"

section \<open>The timer descriptor\<close>

definition clock_now :: "'cb tq \<Rightarrow> (timestamp \<times> 'cb tq) outcome" where
  "clock_now s = bindO (Timestamp_now (clock s (tick s))) (\<lambda>t. Inr (t, s\<lparr>tick := Suc (tick s)\<rparr>))"

definition howMuchTimeFromNow :: "timestamp \<Rightarrow> timestamp \<Rightarrow> (int \<times> int) outcome" where
  "howMuchTimeFromNow when now =
     bindO (chk64 (microSecondsSinceEpoch when - microSecondsSinceEpoch now)) (\<lambda>d.
       let microseconds = (if d < 100 then 100 else d)
       in Inr (microseconds sdiv kMicroSecondsPerSecond,
               (microseconds smod kMicroSecondsPerSecond) * 1000))"

definition resetTimerfd :: "timestamp \<Rightarrow> 'cb tq \<Rightarrow> 'cb tq outcome" where
  "resetTimerfd expir s =
     bindO (clock_now s) (\<lambda>(now, s1).
     bindO (howMuchTimeFromNow expir now) (\<lambda>ts.
       Inr (s1\<lparr>timerfd := Some ts, expirations := 0\<rparr>)))"

definition readTimerfd :: "'cb tq \<Rightarrow> 'cb tq" where
  "readTimerfd s = s\<lparr>expirations := 0\<rparr>"

section \<open>The queue\<close>

definition tq_init :: "(nat \<Rightarrow> int \<times> int) \<Rightarrow> int \<Rightarrow> 'cb tq" where
  "tq_init clk created =
     \<lparr>callingExpiredTimers = False, timers = [], activeTimers = [], cancelingTimers = [],
      heap = Map.empty, numCreated = created, timerfd = None, expirations = 0,
      clock = clk, tick = 0, functors = []\<rparr>"

definition tq_insert :: "addr \<Rightarrow> 'cb tq \<Rightarrow> (bool \<times> 'cb tq) outcome" where
  "tq_insert a s =
     bindO (deref (heap s) a) (\<lambda>t.
       let when = expiration t;
           earliestChanged = (case timers s of [] \<Rightarrow> True | e # _ \<Rightarrow> when < fst e)
       in Inr (earliestChanged,
               s\<lparr>timers := oset_insert (when, a) (timers s),
                 activeTimers := oset_insert (a, sequence t) (activeTimers s)\<rparr>))"

fun erase_active :: "(timestamp \<times> addr) list \<Rightarrow> 'cb tq \<Rightarrow> 'cb tq outcome" where
  "erase_active [] s = Inr s"
| "erase_active (e # es) s =
     bindO (deref (heap s) (snd e)) (\<lambda>t.
       erase_active es
         (s\<lparr>activeTimers := oset_erase (snd e, sequence t) (activeTimers s)\<rparr>))"

definition getExpired ::
    "timestamp \<Rightarrow> 'cb tq \<Rightarrow> ((timestamp \<times> addr) list \<times> 'cb tq) outcome" where
  "getExpired now s =
     (let sentry = (now, - 1);
          expired = oset_below sentry (timers s)
      in bindO (erase_active expired (s\<lparr>timers := oset_from sentry (timers s)\<rparr>)) (\<lambda>s1.
           Inr (expired, s1)))"

fun reset_each :: "(timestamp \<times> addr) list \<Rightarrow> timestamp \<Rightarrow> 'cb tq \<Rightarrow> 'cb tq outcome" where
  "reset_each [] now s = Inr s"
| "reset_each (e # es) now s =
     bindO (deref (heap s) (snd e)) (\<lambda>t.
       if repeat t \<and> (snd e, sequence t) \<notin> set (cancelingTimers s)
       then bindO (restart now t) (\<lambda>t'.
            bindO (tq_insert (snd e) (s\<lparr>heap := (heap s)(snd e \<mapsto> t')\<rparr>)) (\<lambda>(_, s1).
              reset_each es now s1))
       else reset_each es now (s\<lparr>heap := (heap s)(snd e := None)\<rparr>))"

definition reset :: "(timestamp \<times> addr) list \<Rightarrow> timestamp \<Rightarrow> 'cb tq \<Rightarrow> 'cb tq outcome" where
  "reset expired now s =
     bindO (reset_each expired now s) (\<lambda>s1.
     bindO (case timers s1 of [] \<Rightarrow> Inr (Timestamp 0)
            | e # _ \<Rightarrow> bindO (deref (heap s1) (snd e)) (\<lambda>t. Inr (expiration t))) (\<lambda>nextExpire.
       if valid nextExpire then resetTimerfd nextExpire s1 else Inr s1))"

definition addTimerInLoop :: "addr \<Rightarrow> 'cb tq \<Rightarrow> 'cb tq outcome" where
  "addTimerInLoop a s =
     bindO (tq_insert a s) (\<lambda>(earliestChanged, s1).
       if earliestChanged
       then bindO (deref (heap s1) a) (\<lambda>t. resetTimerfd (expiration t) s1)
       else Inr s1)"

definition cancelInLoop :: "timer_id \<Rightarrow> 'cb tq \<Rightarrow> 'cb tq outcome" where
  "cancelInLoop tid s =
     (case tid of TimerId a q \<Rightarrow>
        if (a, q) \<in> set (activeTimers s)
        then bindO (deref (heap s) a) (\<lambda>t.
               Inr (s\<lparr>timers := oset_erase (expiration t, a) (timers s),
                      heap := (heap s)(a := None),
                      activeTimers := oset_erase (a, q) (activeTimers s)\<rparr>))
        else if callingExpiredTimers s
        then Inr (s\<lparr>cancelingTimers := oset_insert (a, q) (cancelingTimers s)\<rparr>)
        else Inr s)"

text \<open>
  \<open>addTimer\<close> and \<open>cancel\<close> hand their work to \<open>EventLoop::runInLoop\<close>: in the loop's own
  thread it runs at once, from another thread it is queued.
\<close>

fun run_functor :: "tq_functor \<Rightarrow> 'cb tq \<Rightarrow> 'cb tq outcome" where
  "run_functor (AddTimerInLoop a) s = addTimerInLoop a s"
| "run_functor (CancelInLoop tid) s = cancelInLoop tid s"

definition runInLoop :: "bool \<Rightarrow> tq_functor \<Rightarrow> 'cb tq \<Rightarrow> 'cb tq outcome" where
  "runInLoop in_loop f s =
     (if in_loop then run_functor f s else Inr (s\<lparr>functors := functors s @ [f]\<rparr>))"

text \<open>
  \<open>addTimer\<close> first hands the new timer over to the loop and then, for its result, reads the
  sequence number out of the object.  From another thread the loop may run in between.
\<close>

definition addTimer_hand ::
    "bool \<Rightarrow> addr \<Rightarrow> 'cb \<Rightarrow> timestamp \<Rightarrow> double \<Rightarrow> 'cb tq \<Rightarrow> 'cb tq outcome" where
  "addTimer_hand in_loop a cb when ivl s =
     (let t = new_timer cb when ivl (numCreated s);
          s1 = s\<lparr>heap := (heap s)(a \<mapsto> t), numCreated := sequence t\<rparr>
      in runInLoop in_loop (AddTimerInLoop a) s1)"

definition addTimer_result :: "addr \<Rightarrow> 'cb tq \<Rightarrow> timer_id outcome" where
  "addTimer_result a s = bindO (deref (heap s) a) (\<lambda>t. Inr (TimerId a (sequence t)))"

definition addTimer ::
    "bool \<Rightarrow> addr \<Rightarrow> 'cb \<Rightarrow> timestamp \<Rightarrow> double \<Rightarrow> 'cb tq \<Rightarrow> (timer_id \<times> 'cb tq) outcome" where
  "addTimer in_loop a cb when ivl s =
     bindO (addTimer_hand in_loop a cb when ivl s) (\<lambda>s1.
     bindO (addTimer_result a s1) (\<lambda>tid. Inr (tid, s1)))"

definition cancel :: "bool \<Rightarrow> timer_id \<Rightarrow> 'cb tq \<Rightarrow> 'cb tq outcome" where
  "cancel in_loop tid s = runInLoop in_loop (CancelInLoop tid) s"

text \<open>
  The loop of \<open>handleRead\<close> over the expired timers; the result carries the addresses of the
  timers whose callbacks ran, in order.
\<close>

fun run_expired ::
    "('cb \<Rightarrow> 'cb tq \<Rightarrow> 'cb tq outcome) \<Rightarrow> (timestamp \<times> addr) list \<Rightarrow> 'cb tq
       \<Rightarrow> (addr list \<times> 'cb tq) outcome" where
  "run_expired exec [] s = Inr ([], s)"
| "run_expired exec (e # es) s =
     bindO (deref (heap s) (snd e)) (\<lambda>t.
     bindO (exec (callback t) s) (\<lambda>s1.
     bindO (run_expired exec es s1) (\<lambda>(fired, s2). Inr (snd e # fired, s2))))"

definition handleRead ::
    "('cb \<Rightarrow> 'cb tq \<Rightarrow> 'cb tq outcome) \<Rightarrow> 'cb tq \<Rightarrow> (addr list \<times> 'cb tq) outcome" where
  "handleRead exec s =
     bindO (clock_now s) (\<lambda>(now, s1).
     bindO (getExpired now (readTimerfd s1)) (\<lambda>(expired, s2).
     bindO (run_expired exec expired (s2\<lparr>callingExpiredTimers := True\<rparr>)) (\<lambda>(fired, s3).
     bindO (reset expired now (s3\<lparr>callingExpiredTimers := False\<rparr>)) (\<lambda>s4.
       Inr (fired, s4)))))"

text \<open>\<open>~TimerQueue\<close> deletes the timers that are still queued.\<close>

fun delete_all :: "(timestamp \<times> addr) list \<Rightarrow> 'cb tq \<Rightarrow> 'cb tq outcome" where
  "delete_all [] s = Inr s"
| "delete_all (e # es) s =
     bindO (deref (heap s) (snd e)) (\<lambda>_.
       delete_all es (s\<lparr>heap := (heap s)(snd e := None)\<rparr>))"

definition tq_destroy :: "'cb tq \<Rightarrow> 'cb tq outcome" where
  "tq_destroy s = delete_all (timers s) s"

section \<open>The invariant\<close>

text \<open>
  \<open>tq_inv E s\<close>: the two sets of the queue describe the same timers, keyed by the expiration
  that the timer object holds; the objects on the heap are exactly the queued timers, the
  timers whose insertion is still pending in the event loop and the timers \<open>E\<close> that an
  ongoing \<open>handleRead\<close> has taken out of the queue; the three groups are disjoint.
\<close>

definition scheduled :: "'cb tq \<Rightarrow> addr set" where
  "scheduled s = snd ` set (timers s)"

fun pending_adds :: "tq_functor list \<Rightarrow> addr list" where
  "pending_adds [] = []"
| "pending_adds (AddTimerInLoop a # fs) = a # pending_adds fs"
| "pending_adds (CancelInLoop tid # fs) = pending_adds fs"

definition ok_request :: "timestamp \<Rightarrow> double \<Rightarrow> bool" where
  "ok_request when ivl \<longleftrightarrow>
     - (2 ^ 62) \<le> microSecondsSinceEpoch when \<and> microSecondsSinceEpoch when < 2 ^ 63 \<and>
     (gt_zero ivl \<longrightarrow> (case delta_us ivl of Inl _ \<Rightarrow> False | Inr d \<Rightarrow> 0 \<le> d \<and> d < 2 ^ 62))"

definition timer_ok :: "'cb timer \<Rightarrow> bool" where
  "timer_ok t \<longleftrightarrow> ok_request (expiration t) (interval t) \<and> repeat t = gt_zero (interval t)"

definition sane_time :: "int \<times> int \<Rightarrow> bool" where
  "sane_time tv \<longleftrightarrow> 0 \<le> fst tv \<and> fst tv < 2 ^ 40 \<and> 0 \<le> snd tv \<and> snd tv < 1000000"

definition tq_inv :: "addr set \<Rightarrow> 'cb tq \<Rightarrow> bool" where
  "tq_inv E s \<longleftrightarrow>
     asc (timers s) \<and> asc (activeTimers s) \<and> asc (cancelingTimers s) \<and>
     (\<forall>w a. (w, a) \<in> set (timers s) \<longrightarrow> (\<exists>t. heap s a = Some t \<and> expiration t = w)) \<and>
     (\<forall>a q. (a, q) \<in> set (activeTimers s) \<longleftrightarrow>
        (\<exists>t. heap s a = Some t \<and> sequence t = q \<and> (expiration t, a) \<in> set (timers s))) \<and>
     distinct (pending_adds (functors s)) \<and>
     dom (heap s) = scheduled s \<union> set (pending_adds (functors s)) \<union> E \<and>
     scheduled s \<inter> set (pending_adds (functors s)) = {} \<and>
     E \<inter> (scheduled s \<union> set (pending_adds (functors s))) = {} \<and>
     (\<forall>a t. heap s a = Some t \<longrightarrow> a \<noteq> - 1 \<and> timer_ok t) \<and>
     (\<forall>n. sane_time (clock s n))"

text \<open>What a callback may do with the queue.\<close>

inductive api_step :: "'cb tq \<Rightarrow> 'cb tq \<Rightarrow> bool" where
  api_add: "heap s a = None \<Longrightarrow> a \<noteq> - 1 \<Longrightarrow> ok_request when ivl \<Longrightarrow>
     addTimer in_loop a cb when ivl s = Inr (tid, s') \<Longrightarrow> api_step s s'"
| api_cancel: "cancel in_loop tid s = Inr s' \<Longrightarrow> api_step s s'"

definition user_code :: "('cb \<Rightarrow> 'cb tq \<Rightarrow> 'cb tq outcome) \<Rightarrow> bool" where
  "user_code exec \<longleftrightarrow>
     (\<forall>E cb s. tq_inv E s \<longrightarrow> upheld (exec cb s) (\<lambda>s'. api_step\<^sup>*\<^sup>* s s'))"

section \<open>Each operation keeps the invariant\<close>

lemma pending_adds_append [simp]:
  "pending_adds (fs @ gs) = pending_adds fs @ pending_adds gs"
  by (induction fs rule: pending_adds.induct) auto

lemma scheduled_irrelevant [simp]:
  "scheduled (s\<lparr>tick := n\<rparr>) = scheduled s" "scheduled (s\<lparr>timerfd := f\<rparr>) = scheduled s"
  "scheduled (s\<lparr>expirations := k\<rparr>) = scheduled s" "scheduled (s\<lparr>heap := h\<rparr>) = scheduled s"
  "scheduled (s\<lparr>callingExpiredTimers := b\<rparr>) = scheduled s"
  "scheduled (s\<lparr>functors := fs\<rparr>) = scheduled s" "scheduled (s\<lparr>numCreated := c\<rparr>) = scheduled s"
  by (simp_all add: scheduled_def)

lemma tq_inv_irrelevant [simp]:
  "tq_inv E (s\<lparr>tick := n\<rparr>) = tq_inv E s" "tq_inv E (s\<lparr>timerfd := f\<rparr>) = tq_inv E s"
  "tq_inv E (s\<lparr>expirations := k\<rparr>) = tq_inv E s"
  "tq_inv E (s\<lparr>callingExpiredTimers := b\<rparr>) = tq_inv E s"
  by (simp_all add: tq_inv_def)

lemma sane_now:
  assumes "sane_time tv"
  shows "Timestamp_now tv = Inr (Timestamp (fst tv * 1000000 + snd tv))"
    and "0 \<le> fst tv * 1000000 + snd tv" and "fst tv * 1000000 + snd tv < 2 ^ 60"
  using assms Timestamp_now_ok [of "fst tv" "snd tv"] by (auto simp: sane_time_def)

definition time_at :: "'cb tq \<Rightarrow> timestamp" where
  "time_at s = Timestamp (fst (clock s (tick s)) * 1000000 + snd (clock s (tick s)))"

lemma clock_now_eq:
  "\<forall>n. sane_time (clock s n) \<Longrightarrow> clock_now s = Inr (time_at s, s\<lparr>tick := Suc (tick s)\<rparr>)"
  using sane_now(1) [of "clock s (tick s)"] by (simp add: clock_now_def time_at_def)

lemma time_at_bounds:
  assumes "\<forall>n. sane_time (clock s n)"
  shows "0 \<le> microSecondsSinceEpoch (time_at s)" "microSecondsSinceEpoch (time_at s) < 2 ^ 60"
  using assms sane_now(2,3) [of "clock s (tick s)"] by (simp_all add: time_at_def)

lemma tq_inv_clock: "tq_inv E s \<Longrightarrow> \<forall>n. sane_time (clock s n)"
  by (simp add: tq_inv_def)

lemma howMuchTimeFromNow_defined:
  assumes "- (2 ^ 62) \<le> microSecondsSinceEpoch w" "microSecondsSinceEpoch w < 2 ^ 63"
    and "0 \<le> microSecondsSinceEpoch n" "microSecondsSinceEpoch n < 2 ^ 60"
  shows "\<exists>ts. howMuchTimeFromNow w n = Inr ts"
  using assms by (simp add: howMuchTimeFromNow_def in_i64_def Let_def)

lemma resetTimerfd_defined:
  assumes "\<forall>n. sane_time (clock s n)"
    and "- (2 ^ 62) \<le> microSecondsSinceEpoch w" "microSecondsSinceEpoch w < 2 ^ 63"
  obtains ts where "howMuchTimeFromNow w (time_at s) = Inr ts"
    and "resetTimerfd w s = Inr (s\<lparr>tick := Suc (tick s), timerfd := Some ts, expirations := 0\<rparr>)"
  using howMuchTimeFromNow_defined [OF assms(2,3) time_at_bounds [OF assms(1)]]
  by (auto simp: resetTimerfd_def clock_now_eq [OF assms(1)])

lemma resetTimerfd_inv:
  assumes "tq_inv E s"
    and "- (2 ^ 62) \<le> microSecondsSinceEpoch w" "microSecondsSinceEpoch w < 2 ^ 63"
  shows "\<exists>s'. resetTimerfd w s = Inr s' \<and> tq_inv E s'"
proof -
  obtain ts where
    "resetTimerfd w s = Inr (s\<lparr>tick := Suc (tick s), timerfd := Some ts, expirations := 0\<rparr>)"
    using resetTimerfd_defined [OF tq_inv_clock [OF assms(1)] assms(2,3)] .
  then show ?thesis using assms(1) by simp
qed

lemma tq_invD:
  assumes "tq_inv E s"
  shows "asc (timers s)" "asc (activeTimers s)" "asc (cancelingTimers s)"
    and "(w, a) \<in> set (timers s) \<Longrightarrow> \<exists>t. heap s a = Some t \<and> expiration t = w"
    and "(a, q) \<in> set (activeTimers s) \<longleftrightarrow>
      (\<exists>t. heap s a = Some t \<and> sequence t = q \<and> (expiration t, a) \<in> set (timers s))"
    and "distinct (pending_adds (functors s))"
    and "dom (heap s) = scheduled s \<union> set (pending_adds (functors s)) \<union> E"
    and "scheduled s \<inter> set (pending_adds (functors s)) = {}"
    and "E \<inter> (scheduled s \<union> set (pending_adds (functors s))) = {}"
    and "heap s a = Some t \<Longrightarrow> a \<noteq> - 1 \<and> timer_ok t"
  using assms unfolding tq_inv_def by blast+

lemma timers_heap:
  "tq_inv E s \<Longrightarrow> heap s a = Some t \<Longrightarrow> (w, a) \<in> set (timers s) \<Longrightarrow> expiration t = w"
  using tq_invD(4) by fastforce

lemma timers_key_unique:
  assumes "tq_inv E s" and "(w, a) \<in> set (timers s)" and "(w', a) \<in> set (timers s)"
  shows "w = w'"
  using tq_invD(4) [OF assms(1,2)] tq_invD(4) [OF assms(1,3)] by auto

lemma scheduled_iff: "a \<in> scheduled s \<longleftrightarrow> (\<exists>w. (w, a) \<in> set (timers s))"
  by (force simp: scheduled_def)

lemma tq_insert_inv:
  assumes inv: "tq_inv (insert a E) s" and a: "a \<notin> E"
  shows "\<exists>t b s'. heap s a = Some t \<and> tq_insert a s = Inr (b, s') \<and> tq_inv E s' \<and>
    (b \<longleftrightarrow> timers s = [] \<or> expiration t < fst (hd (timers s))) \<and>
    s' = s\<lparr>timers := oset_insert (expiration t, a) (timers s),
           activeTimers := oset_insert (a, sequence t) (activeTimers s)\<rparr>"
proof -
  note D = tq_invD [OF inv]
  from D(7) obtain t where t: "heap s a = Some t" by blast
  from D(9) have fresh: "a \<notin> scheduled s" "a \<notin> set (pending_adds (functors s))" by auto
  let ?s = "s\<lparr>timers := oset_insert (expiration t, a) (timers s),
              activeTimers := oset_insert (a, sequence t) (activeTimers s)\<rparr>"
  have sch: "scheduled ?s = insert a (scheduled s)" by (simp add: scheduled_def)
  have "(x, q) \<in> set (activeTimers ?s) \<longleftrightarrow>
      (\<exists>t'. heap s x = Some t' \<and> sequence t' = q \<and> (expiration t', x) \<in> set (timers ?s))" for x q
    using D(5) [of x q] t fresh(1) by (cases "x = a") (auto simp: scheduled_iff)
  moreover have "\<exists>t'. heap s x = Some t' \<and> expiration t' = w" if "(w, x) \<in> set (timers ?s)" for w x
    using that D(4) [of w x] t by auto
  moreover have "asc (timers ?s)" "asc (activeTimers ?s)"
    using D(1,2) by (simp_all add: asc_oset_insert)
  moreover have "dom (heap s) = scheduled ?s \<union> set (pending_adds (functors s)) \<union> E"
    using D(7) unfolding sch by blast
  moreover have "scheduled ?s \<inter> set (pending_adds (functors s)) = {}"
    "E \<inter> (scheduled ?s \<union> set (pending_adds (functors s))) = {}"
    using D(8,9) fresh a unfolding sch by auto
  ultimately have "tq_inv E ?s"
    using inv unfolding tq_inv_def by simp
  then show ?thesis using t by (auto simp: tq_insert_def Let_def split: list.splits)
qed

lemma addTimerInLoop_inv:
  assumes inv: "tq_inv (insert a E) s" and a: "a \<notin> E"
  shows "\<exists>s'. addTimerInLoop a s = Inr s' \<and> tq_inv E s'"
proof -
  from tq_insert_inv [OF inv a] obtain t b s' where t: "heap s a = Some t"
    and i: "tq_insert a s = Inr (b, s')" and inv': "tq_inv E s'"
    and h: "heap s' a = Some t" by auto
  have ok: "- (2 ^ 62) \<le> microSecondsSinceEpoch (expiration t)"
    "microSecondsSinceEpoch (expiration t) < 2 ^ 63"
    using tq_invD(10) [OF inv t] by (auto simp: timer_ok_def ok_request_def)
  show ?thesis
    using resetTimerfd_inv [OF inv' ok] i inv' h by (simp add: addTimerInLoop_def)
qed

lemma cancelInLoop_inv:
  assumes inv: "tq_inv E s"
  shows "\<exists>s'. cancelInLoop tid s = Inr s' \<and> tq_inv E s'"
proof (cases tid)
  case (TimerId a q)
  note D = tq_invD [OF inv]
  show ?thesis
  proof (cases "(a, q) \<in> set (activeTimers s)")
    case True
    with D(5) obtain t where t: "heap s a = Some t" "sequence t = q"
      "(expiration t, a) \<in> set (timers s)" by blast
    let ?s = "s\<lparr>timers := oset_erase (expiration t, a) (timers s), heap := (heap s)(a := None),
                activeTimers := oset_erase (a, q) (activeTimers s)\<rparr>"
    have only: "(w, a) \<in> set (timers s) \<longleftrightarrow> w = expiration t" for w
      using timers_heap [OF inv t(1)] t(3) by blast
    then have sch: "scheduled ?s = scheduled s - {a}"
      by (auto simp: scheduled_iff)
    have "a \<in> scheduled s" using t(3) by (auto simp: scheduled_iff)
    with D(7-9) have "dom (heap ?s) = scheduled ?s \<union> set (pending_adds (functors s)) \<union> E"
      "scheduled ?s \<inter> set (pending_adds (functors s)) = {}"
      "E \<inter> (scheduled ?s \<union> set (pending_adds (functors s))) = {}"
      unfolding sch by auto
    moreover have "(x, p) \<in> set (activeTimers ?s) \<longleftrightarrow>
        (\<exists>t'. heap ?s x = Some t' \<and> sequence t' = p \<and> (expiration t', x) \<in> set (timers ?s))" for x p
      using D(5) [of x p] t(1,2) by auto
    moreover have "\<exists>t'. heap ?s x = Some t' \<and> expiration t' = w" if "(w, x) \<in> set (timers ?s)" for w x
      using that D(4) [of w x] only [of w] by auto
    moreover have "asc (timers ?s)" "asc (activeTimers ?s)"
      using D(1,2) by (simp_all add: asc_oset_erase)
    ultimately have "tq_inv E ?s"
      using inv unfolding tq_inv_def by simp
    with True t TimerId show ?thesis by (simp add: cancelInLoop_def)
  next
    case False
    have "tq_inv E (s\<lparr>cancelingTimers := oset_insert (a, q) (cancelingTimers s)\<rparr>)"
      using inv by (simp add: tq_inv_def asc_oset_insert scheduled_def)
    with False TimerId inv show ?thesis by (simp add: cancelInLoop_def)
  qed
qed

lemma new_timer_ok: "ok_request when ivl \<Longrightarrow> timer_ok (new_timer cb when ivl c)"
  by (simp add: timer_ok_def new_timer_def)

lemma create_inv:
  assumes inv: "tq_inv E s" and free: "heap s a = None" "a \<noteq> - 1" and t: "timer_ok t"
  shows "tq_inv (insert a E) (s\<lparr>heap := (heap s)(a \<mapsto> t), numCreated := c\<rparr>)"
proof -
  note D = tq_invD [OF inv]
  let ?s = "s\<lparr>heap := (heap s)(a \<mapsto> t), numCreated := c\<rparr>"
  from free D(7) have fresh: "a \<notin> scheduled s" "a \<notin> set (pending_adds (functors s))" "a \<notin> E"
    by auto
  have "\<exists>t'. heap ?s x = Some t' \<and> expiration t' = w" if "(w, x) \<in> set (timers s)" for w x
    using that D(4) [OF that] fresh(1) by (auto simp: scheduled_iff)
  moreover have "(x, p) \<in> set (activeTimers s) \<longleftrightarrow>
      (\<exists>t'. heap ?s x = Some t' \<and> sequence t' = p \<and> (expiration t', x) \<in> set (timers s))" for x p
    using D(5) [of x p] fresh(1) free(1) by (cases "x = a") (auto simp: scheduled_iff)
  moreover have "dom (heap ?s) = scheduled s \<union> set (pending_adds (functors s)) \<union> insert a E"
    using D(7) by auto
  moreover have "insert a E \<inter> (scheduled s \<union> set (pending_adds (functors s))) = {}"
    using D(9) fresh by auto
  ultimately show ?thesis
    using inv free(2) t unfolding tq_inv_def by simp
qed

lemma queue_add_inv:
  assumes "tq_inv (insert a E) s" and "a \<notin> E"
  shows "tq_inv E (s\<lparr>functors := functors s @ [AddTimerInLoop a]\<rparr>)"
  using assms unfolding tq_inv_def by auto

lemma queue_cancel_inv:
  "tq_inv E s \<Longrightarrow> tq_inv E (s\<lparr>functors := functors s @ [CancelInLoop tid]\<rparr>)"
  unfolding tq_inv_def by simp

lemma resetTimerfd_heap: "resetTimerfd w s = Inr s' \<Longrightarrow> heap s' = heap s"
  by (auto simp: resetTimerfd_def clock_now_def outcome_simps)

lemma addTimerInLoop_heap: "addTimerInLoop a s = Inr s' \<Longrightarrow> heap s' = heap s"
  by (auto simp: addTimerInLoop_def tq_insert_def outcome_simps Let_def split: if_splits dest!: resetTimerfd_heap)

lemma addTimer_hand_heap:
  "addTimer_hand in_loop a cb when ivl s = Inr s' \<Longrightarrow> heap s' = (heap s)(a \<mapsto> new_timer cb when ivl (numCreated s))"
  by (cases in_loop) (auto simp: addTimer_hand_def runInLoop_def Let_def dest!: addTimerInLoop_heap)

lemma addTimer_eq:
  "addTimer in_loop a cb when ivl s = bindO (addTimer_hand in_loop a cb when ivl s)
     (\<lambda>s1. Inr (TimerId a (sequence (new_timer cb when ivl (numCreated s))), s1))"
  by (cases "addTimer_hand in_loop a cb when ivl s")
    (simp_all add: addTimer_def addTimer_result_def addTimer_hand_heap)

lemma addTimer_hand_inv:
  assumes inv: "tq_inv E s" and free: "heap s a = None" "a \<noteq> - 1" and ok: "ok_request when ivl"
  shows "\<exists>s'. addTimer_hand in_loop a cb when ivl s = Inr s' \<and> tq_inv E s'"
proof -
  let ?t = "new_timer cb when ivl (numCreated s)"
  let ?s = "s\<lparr>heap := (heap s)(a \<mapsto> ?t), numCreated := sequence ?t\<rparr>"
  have c: "tq_inv (insert a E) ?s"
    by (rule create_inv [OF inv free new_timer_ok [OF ok]])
  have a: "a \<notin> E" using tq_invD(7) [OF inv] free(1) by blast
  show ?thesis
    using addTimerInLoop_inv [OF c a] queue_add_inv [OF c a]
    by (auto simp: addTimer_hand_def runInLoop_def Let_def)
qed

lemma addTimer_inv:
  assumes "tq_inv E s" and "heap s a = None" "a \<noteq> - 1" and "ok_request when ivl"
  shows "\<exists>tid s'. addTimer in_loop a cb when ivl s = Inr (tid, s') \<and> tq_inv E s'"
  using addTimer_hand_inv [OF assms, of in_loop cb] by (auto simp: addTimer_eq)

lemma cancel_inv:
  "tq_inv E s \<Longrightarrow> \<exists>s'. cancel in_loop tid s = Inr s' \<and> tq_inv E s'"
  using cancelInLoop_inv queue_cancel_inv by (auto simp: cancel_def runInLoop_def)

lemma api_step_inv: "api_step s s' \<Longrightarrow> tq_inv E s \<Longrightarrow> tq_inv E s'"
proof (induction rule: api_step.induct)
  case (api_add s a w ivl in_loop cb tid s')
  then show ?case using addTimer_inv [of E s a w ivl in_loop cb] by auto
next
  case (api_cancel in_loop tid s s')
  then show ?case using cancel_inv [of E s in_loop tid] by auto
qed

text \<open>
  What user code cannot change while \<open>handleRead\<close> holds the timers \<open>E\<close>: their objects, the
  flag, the clock; and the set of cancellations only grows.
\<close>

definition frame :: "addr set \<Rightarrow> 'cb tq \<Rightarrow> 'cb tq \<Rightarrow> bool" where
  "frame E s s' \<longleftrightarrow>
     (\<forall>a \<in> E. heap s' a = heap s a) \<and> callingExpiredTimers s' = callingExpiredTimers s \<and>
     set (cancelingTimers s) \<subseteq> set (cancelingTimers s') \<and> clock s' = clock s"

lemma frame_refl [simp]: "frame E s s"
  by (simp add: frame_def)

lemma frame_trans: "frame E s s' \<Longrightarrow> frame E s' s'' \<Longrightarrow> frame E s s''"
  unfolding frame_def by auto

lemma resetTimerfd_frame: "resetTimerfd w s = Inr s' \<Longrightarrow> frame E s s'"
  by (auto simp: resetTimerfd_def clock_now_def frame_def outcome_simps)

lemma tq_insert_frame: "tq_insert a s = Inr (b, s') \<Longrightarrow> frame E s s'"
  by (auto simp: tq_insert_def frame_def outcome_simps Let_def)

lemma addTimerInLoop_frame: "addTimerInLoop a s = Inr s' \<Longrightarrow> frame E s s'"
  by (auto simp: addTimerInLoop_def outcome_simps split: if_splits
      intro: frame_trans dest: tq_insert_frame [of _ _ _ _ E] resetTimerfd_frame [of _ _ _ E])

lemma cancelInLoop_frame:
  assumes inv: "tq_inv E s" and c: "cancelInLoop tid s = Inr s'"
  shows "frame E s s'"
proof -
  obtain a q where tid: "tid = TimerId a q" by (cases tid)
  have "a \<notin> E" if "(a, q) \<in> set (activeTimers s)"
  proof -
    have "a \<in> scheduled s" using that tq_invD(5) [OF inv] by (auto simp: scheduled_iff)
    then show ?thesis using tq_invD(9) [OF inv] by blast
  qed
  with c show ?thesis
    by (auto simp: tid cancelInLoop_def frame_def outcome_simps split: if_splits)
qed

lemma api_step_frame:
  assumes "api_step s s'" and inv: "tq_inv E s"
  shows "frame E s s'"
  using assms(1)
proof cases
  case (api_add a w ivl in_loop cb tid)
  let ?t = "new_timer cb w ivl (numCreated s)"
  let ?s = "s\<lparr>heap := (heap s)(a \<mapsto> ?t), numCreated := sequence ?t\<rparr>"
  have "a \<notin> E" using tq_invD(7) [OF inv] api_add(1) by blast
  then have "frame E s ?s" by (auto simp: frame_def)
  moreover have "frame E ?s s'"
    using api_add(4) addTimerInLoop_frame [of a ?s _ E]
    by (cases in_loop) (auto simp: addTimer_eq addTimer_hand_def runInLoop_def Let_def outcome_simps frame_def)
  ultimately show ?thesis by (rule frame_trans)
next
  case (api_cancel in_loop tid)
  then show ?thesis using cancelInLoop_frame [OF inv]
    by (cases in_loop) (auto simp: cancel_def runInLoop_def frame_def)
qed

lemma api_run_inv:
  assumes "api_step\<^sup>*\<^sup>* s s'" and "tq_inv E s"
  shows "tq_inv E s' \<and> frame E s s'"
  using assms(1)
proof (induction rule: rtranclp_induct)
  case base
  then show ?case using assms(2) by simp
next
  case (step t u)
  then show ?case using api_step_inv api_step_frame frame_trans by blast
qed

section \<open>Expired timers\<close>

lemma sentry_less: "a \<noteq> - 1 \<Longrightarrow> (w, a) < (n :: timestamp, - 1 :: addr) \<longleftrightarrow> w \<le> n"
proof -
  assume "a \<noteq> - 1"
  then have "a < - 1" by (simp add: word_order.not_eq_extremum)
  then show ?thesis by (auto simp: le_less)
qed

lemma below_sentry:
  assumes inv: "tq_inv E s"
  shows "oset_below (n, - 1) (timers s) = filter (\<lambda>e. fst e \<le> n) (timers s)"
    and "oset_from (n, - 1) (timers s) = filter (\<lambda>e. n < fst e) (timers s)"
proof -
  let ?below = "oset_below (n, - 1) (timers s)" and ?from = "oset_from (n, - 1) (timers s)"
  note asc = tq_invD(1) [OF inv]
  have s: "timers s = ?below @ ?from" by (rule oset.below_from [OF asc])
  have key: "(w, a) < (n, - 1) \<longleftrightarrow> w \<le> n" if "(w, a) \<in> set (timers s)" for w a
    using sentry_less tq_invD(4) [OF inv that] tq_invD(10) [OF inv] by blast
  have b: "fst e \<le> n" if "e \<in> set ?below" for e
    using that key [of "fst e" "snd e"] oset.set_below [OF asc, of "(n, - 1)"] by auto
  have f: "n < fst e" if "e \<in> set ?from" for e
    using that key [of "fst e" "snd e"] oset.set_from [OF asc, of "(n, - 1)"]
    by (force simp: not_le [symmetric])
  have "filter (\<lambda>e. fst e \<le> n) ?below = ?below" "filter (\<lambda>e. fst e \<le> n) ?from = []"
    using b f by (force simp: filter_empty_conv filter_id_conv)+
  then show "?below = filter (\<lambda>e. fst e \<le> n) (timers s)"
    by (metis append_Nil2 filter_append s)
  have "filter (\<lambda>e. n < fst e) ?below = []" "filter (\<lambda>e. n < fst e) ?from = ?from"
    using b f by (force simp: filter_empty_conv filter_id_conv)+
  then show "?from = filter (\<lambda>e. n < fst e) (timers s)"
    by (metis append_Nil filter_append s)
qed

lemma erase_active_eq:
  assumes "\<forall>e \<in> set es. heap s (snd e) \<noteq> None"
  shows "erase_active es s =
    Inr (s\<lparr>activeTimers := filter (\<lambda>(a, q). \<forall>e \<in> set es. snd e = a \<longrightarrow>
      sequence (the (heap s a)) \<noteq> q) (activeTimers s)\<rparr>)"
  using assms
proof (induction es arbitrary: s)
  case Nil
  then show ?case by (simp add: case_prod_unfold)
next
  case (Cons e es)
  then obtain t where t: "heap s (snd e) = Some t" by auto
  have "(\<lambda>x. x \<noteq> (snd e, sequence t) \<and> (\<forall>e \<in> set es. snd e = fst x \<longrightarrow> sequence (the (heap s (fst x))) \<noteq> snd x))
     = (\<lambda>x. \<forall>e \<in> set (e # es). snd e = fst x \<longrightarrow> sequence (the (heap s (fst x))) \<noteq> snd x)"
    using t by (auto simp: prod_eq_iff)
  then show ?case
    using t Cons.prems Cons.IH [of "s\<lparr>activeTimers := oset_erase (snd e, sequence t) (activeTimers s)\<rparr>"]
    by (simp add: oset_erase_def case_prod_unfold conj_commute)
qed

definition expired_at :: "timestamp \<Rightarrow> 'cb tq \<Rightarrow> (timestamp \<times> addr) list" where
  "expired_at n s = filter (\<lambda>e. fst e \<le> n) (timers s)"

definition after_expiry :: "timestamp \<Rightarrow> 'cb tq \<Rightarrow> 'cb tq" where
  "after_expiry n s =
     s\<lparr>timers := filter (\<lambda>e. n < fst e) (timers s),
       activeTimers := filter (\<lambda>p. fst p \<notin> snd ` set (expired_at n s)) (activeTimers s)\<rparr>"

lemma getExpired_eq:
  assumes inv: "tq_inv E s"
  shows "getExpired n s = Inr (expired_at n s, after_expiry n s)"
proof -
  have h: "\<forall>e \<in> set (expired_at n s). heap s (snd e) \<noteq> None"
    using tq_invD(4) [OF inv] by (fastforce simp: expired_at_def)
  have "filter (\<lambda>(a, q). \<forall>e \<in> set (expired_at n s). snd e = a \<longrightarrow>
        sequence (the (heap s a)) \<noteq> q) (activeTimers s)
      = filter (\<lambda>p. fst p \<notin> snd ` set (expired_at n s)) (activeTimers s)"
    using tq_invD(5) [OF inv] by (intro filter_cong) force+
  then show ?thesis
    using h erase_active_eq [of "expired_at n s" "s\<lparr>timers := filter (\<lambda>e. n < fst e) (timers s)\<rparr>"]
    by (simp add: getExpired_def below_sentry [OF inv] expired_at_def [symmetric]
        after_expiry_def Let_def)
qed

lemma after_expiry_inv:
  assumes inv: "tq_inv E s"
  shows "tq_inv (E \<union> snd ` set (expired_at n s)) (after_expiry n s)"
    and "E \<inter> snd ` set (expired_at n s) = {}"
proof -
  note D = tq_invD [OF inv]
  let ?X = "snd ` set (expired_at n s)" and ?s = "after_expiry n s"
  have t: "timers ?s = filter (\<lambda>e. n < fst e) (timers s)"
    and act: "activeTimers ?s = filter (\<lambda>p. fst p \<notin> ?X) (activeTimers s)"
    and [simp]: "heap ?s = heap s" "functors ?s = functors s" "clock ?s = clock s"
      "cancelingTimers ?s = cancelingTimers s"
    by (simp_all add: after_expiry_def)
  have X: "a \<in> ?X \<longleftrightarrow> (\<exists>w \<le> n. (w, a) \<in> set (timers s))" for a
    by (force simp: expired_at_def)
  note one = timers_key_unique [OF inv]
  have nX: "a \<notin> ?X \<longleftrightarrow> n < w" if "(w, a) \<in> set (timers s)" for w a
  proof -
    have "a \<in> ?X \<longleftrightarrow> w \<le> n" unfolding X using that one by blast
    then show ?thesis by (simp add: not_le)
  qed
  have sch: "scheduled ?s = scheduled s - ?X"
  proof (rule set_eqI)
    fix a
    have "a \<in> scheduled ?s \<longleftrightarrow> (\<exists>w. (w, a) \<in> set (timers s) \<and> n < w)"
      by (auto simp: scheduled_iff t)
    also have "\<dots> \<longleftrightarrow> (\<exists>w. (w, a) \<in> set (timers s) \<and> a \<notin> ?X)" using nX by blast
    finally show "a \<in> scheduled ?s \<longleftrightarrow> a \<in> scheduled s - ?X" by (simp add: scheduled_iff)
  qed
  have sub: "?X \<subseteq> scheduled s" by (auto simp: expired_at_def scheduled_iff)
  show "E \<inter> ?X = {}" using sub D(9) by auto
  have "(a, q) \<in> set (activeTimers ?s) \<longleftrightarrow>
      (\<exists>t'. heap s a = Some t' \<and> sequence t' = q \<and> (expiration t', a) \<in> set (timers ?s))" for a q
  proof -
    have "(a, q) \<in> set (activeTimers ?s) \<longleftrightarrow> (a, q) \<in> set (activeTimers s) \<and> a \<notin> ?X"
      by (simp add: act)
    also have "\<dots> \<longleftrightarrow> (\<exists>t'. heap s a = Some t' \<and> sequence t' = q \<and>
        (expiration t', a) \<in> set (timers s) \<and> n < expiration t')"
      unfolding D(5) using nX by blast
    finally show ?thesis by (simp add: t)
  qed
  moreover have "asc (timers ?s)" "asc (activeTimers ?s)"
    using D(1,2) by (simp_all add: t act sorted_wrt_filter)
  moreover have "dom (heap s) = scheduled ?s \<union> set (pending_adds (functors s)) \<union> (E \<union> ?X)"
    "scheduled ?s \<inter> set (pending_adds (functors s)) = {}"
    "(E \<union> ?X) \<inter> (scheduled ?s \<union> set (pending_adds (functors s))) = {}"
    using D(7-9) sub unfolding sch by auto
  moreover have "\<exists>t'. heap s x = Some t' \<and> expiration t' = w" if "(w, x) \<in> set (timers ?s)" for w x
    using that D(4) [of w x] by (simp add: t)
  ultimately show "tq_inv (E \<union> ?X) ?s"
    using inv unfolding tq_inv_def by simp
qed

section \<open>Running and resetting the expired timers\<close>

lemma run_expired_inv:
  assumes "tq_inv E s" and "snd ` set es \<subseteq> E" and "user_code exec"
  shows "upheld (run_expired exec es s)
    (\<lambda>(fired, s'). fired = map snd es \<and> tq_inv E s' \<and> frame E s s')"
  using assms(1,2)
proof (induction es arbitrary: s)
  case Nil
  then show ?case by simp
next
  case (Cons e es)
  from Cons.prems(2) tq_invD(7) [OF Cons.prems(1)]
  obtain t where t: "heap s (snd e) = Some t" by fastforce
  have ex: "upheld (exec (callback t) s) (\<lambda>s1. tq_inv E s1 \<and> frame E s s1)"
    using assms(3) Cons.prems(1) unfolding user_code_def
    by (blast intro: upheld_mono dest: api_run_inv)
  have "upheld (bindO (run_expired exec es s1) (\<lambda>(fired, s2). Inr (snd e # fired, s2)))
      (\<lambda>(fired, s'). fired = map snd (e # es) \<and> tq_inv E s' \<and> frame E s s')"
    if s1: "tq_inv E s1 \<and> frame E s s1" for s1
  proof (rule upheld_bind)
    show "upheld (run_expired exec es s1)
        (\<lambda>(fired, s'). fired = map snd es \<and> tq_inv E s' \<and> frame E s1 s')"
      using s1 Cons.prems(2) by (intro Cons.IH) auto
  qed (use s1 frame_trans in fastforce)
  with ex show ?case using t by (auto intro: upheld_bind)
qed

definition period :: "'cb timer \<Rightarrow> int" where
  "period t = (case delta_us (interval t) of Inr d \<Rightarrow> d | Inl _ \<Rightarrow> 0)"

definition rescheduled :: "timestamp \<Rightarrow> 'cb timer \<Rightarrow> 'cb timer" where
  "rescheduled n t = t\<lparr>expiration := Timestamp (microSecondsSinceEpoch n + period t)\<rparr>"

lemma restart_repeat:
  assumes t: "timer_ok t" "repeat t"
    and n: "0 \<le> microSecondsSinceEpoch n" "microSecondsSinceEpoch n < 2 ^ 60"
  shows "restart n t = Inr (rescheduled n t)" and "timer_ok (rescheduled n t)"
proof -
  from t obtain d where d: "delta_us (interval t) = Inr d" "0 \<le> d" "d < 2 ^ 62"
    by (auto simp: timer_ok_def ok_request_def split: sum.splits)
  then have r: "in_i64 (microSecondsSinceEpoch n + d)" using n by (simp add: in_i64_def)
  with d(1) t(2) show "restart n t = Inr (rescheduled n t)"
    by (simp add: restart_def addTime_def rescheduled_def period_def)
  show "timer_ok (rescheduled n t)"
    using d n t by (auto simp: timer_ok_def ok_request_def rescheduled_def period_def)
qed

text \<open>What \<open>reset\<close> makes of a timer taken out of the queue.\<close>

definition kept :: "(addr \<times> int) set \<Rightarrow> addr \<Rightarrow> 'cb timer \<Rightarrow> bool" where
  "kept canc a t \<longleftrightarrow> repeat t \<and> (a, sequence t) \<notin> canc"

definition after_reset ::
    "timestamp \<Rightarrow> (addr \<times> int) set \<Rightarrow> addr \<Rightarrow> 'cb timer option \<Rightarrow> 'cb timer option" where
  "after_reset n canc a ot =
     (case ot of None \<Rightarrow> None
      | Some t \<Rightarrow> if kept canc a t then Some (rescheduled n t) else None)"

lemma loose_update_inv:
  assumes inv: "tq_inv (insert a E) s" and t: "timer_ok t"
  shows "tq_inv (insert a E) (s\<lparr>heap := (heap s)(a \<mapsto> t)\<rparr>)"
proof -
  note D = tq_invD [OF inv]
  let ?s = "s\<lparr>heap := (heap s)(a \<mapsto> t)\<rparr>"
  have a: "a \<notin> scheduled s" "a \<in> dom (heap s)" "a \<noteq> - 1" using D(7,9,10) by auto
  have "\<exists>t'. heap ?s x = Some t' \<and> expiration t' = w" if "(w, x) \<in> set (timers s)" for w x
    using that D(4) [OF that] a(1) by (auto simp: scheduled_iff)
  moreover have "(x, p) \<in> set (activeTimers s) \<longleftrightarrow>
      (\<exists>t'. heap ?s x = Some t' \<and> sequence t' = p \<and> (expiration t', x) \<in> set (timers s))" for x p
    using D(5) [of x p] a(1) by (cases "x = a") (auto simp: scheduled_iff)
  moreover have "dom (heap ?s) = dom (heap s)" using a(2) by auto
  ultimately show ?thesis
    using inv a(3) t unfolding tq_inv_def by simp
qed

lemma loose_delete_inv:
  assumes inv: "tq_inv (insert a E) s" and a: "a \<notin> E"
  shows "tq_inv E (s\<lparr>heap := (heap s)(a := None)\<rparr>)"
proof -
  note D = tq_invD [OF inv]
  let ?s = "s\<lparr>heap := (heap s)(a := None)\<rparr>"
  have a': "a \<notin> scheduled s" "a \<notin> set (pending_adds (functors s))" using D(9) by auto
  have "\<exists>t'. heap ?s x = Some t' \<and> expiration t' = w" if "(w, x) \<in> set (timers s)" for w x
    using that D(4) [OF that] a'(1) by (auto simp: scheduled_iff)
  moreover have "(x, p) \<in> set (activeTimers s) \<longleftrightarrow>
      (\<exists>t'. heap ?s x = Some t' \<and> sequence t' = p \<and> (expiration t', x) \<in> set (timers s))" for x p
    using D(5) [of x p] a'(1) by (cases "x = a") (auto simp: scheduled_iff)
  moreover have "dom (heap ?s) = scheduled s \<union> set (pending_adds (functors s)) \<union> E"
    using D(7) a a' by auto
  ultimately show ?thesis
    using inv unfolding tq_inv_def by simp
qed

lemma reset_each_inv:
  assumes "tq_inv (snd ` set es) s" and "distinct (map snd es)"
    and n: "0 \<le> microSecondsSinceEpoch n" "microSecondsSinceEpoch n < 2 ^ 60"
  shows "\<exists>s'. reset_each es n s = Inr s' \<and> tq_inv {} s' \<and>
    heap s' = (\<lambda>x. if x \<in> snd ` set es then after_reset n (set (cancelingTimers s)) x (heap s x)
                   else heap s x) \<and>
    functors s' = functors s \<and> cancelingTimers s' = cancelingTimers s \<and>
    callingExpiredTimers s' = callingExpiredTimers s"
  using assms(1,2)
proof (induction es arbitrary: s)
  case Nil
  then show ?case by simp
next
  case (Cons e es)
  let ?a = "snd e" and ?E = "snd ` set es"
  have inv: "tq_inv (insert ?a ?E) s" and a: "?a \<notin> ?E" using Cons.prems by auto
  from tq_invD(7) [OF inv] obtain t where t: "heap s ?a = Some t" by blast
  have ok: "timer_ok t" using tq_invD(10) [OF inv t] by simp
  show ?case
  proof (cases "kept (set (cancelingTimers s)) ?a t")
    case True
    then have rep: "repeat t" by (simp add: kept_def)
    let ?s1 = "s\<lparr>heap := (heap s)(?a \<mapsto> rescheduled n t)\<rparr>"
    obtain b s2 where s2: "tq_insert ?a ?s1 = Inr (b, s2)" "tq_inv ?E s2"
      "heap s2 = heap ?s1" "functors s2 = functors s" "cancelingTimers s2 = cancelingTimers s"
      "callingExpiredTimers s2 = callingExpiredTimers s"
      using tq_insert_inv [OF loose_update_inv [OF inv restart_repeat(2) [OF ok rep n]] a] by auto
    have "reset_each (e # es) n s = reset_each es n s2"
      using True t s2(1) restart_repeat(1) [OF ok rep n] by (simp add: kept_def)
    then show ?thesis
      using Cons.IH [OF s2(2)] Cons.prems(2) True t s2 a by (auto simp: after_reset_def fun_eq_iff)
  next
    case False
    let ?s1 = "s\<lparr>heap := (heap s)(?a := None)\<rparr>"
    have "reset_each (e # es) n s = reset_each es n ?s1"
      using False t by (auto simp: kept_def)
    then show ?thesis
      using Cons.IH [OF loose_delete_inv [OF inv a]] Cons.prems(2) False t a
      by (auto simp: after_reset_def fun_eq_iff)
  qed
qed

text \<open>
  The timer descriptor is armed for the earliest timer: with the time from the last reading of
  the clock, which \<open>resetTimerfd\<close> itself has taken, to its expiration.
\<close>

definition armed_for_first :: "'cb tq \<Rightarrow> bool" where
  "armed_for_first s \<longleftrightarrow>
     (case timers s of [] \<Rightarrow> True
      | e # _ \<Rightarrow> valid (fst e) \<longrightarrow>
          0 < tick s \<and> expirations s = 0 \<and> (\<exists>ts. timerfd s = Some ts \<and>
             howMuchTimeFromNow (fst e) (time_at (s\<lparr>tick := tick s - 1\<rparr>)) = Inr ts))"

lemma resetTimerfd_arms:
  assumes inv: "tq_inv E s" and e: "timers s = e # es"
  shows "\<exists>s'. resetTimerfd (fst e) s = Inr s' \<and> tq_inv E s' \<and> armed_for_first s' \<and>
    timers s' = timers s \<and> heap s' = heap s \<and> functors s' = functors s \<and>
    cancelingTimers s' = cancelingTimers s \<and> callingExpiredTimers s' = callingExpiredTimers s"
proof -
  from e tq_invD(4) [OF inv, of "fst e" "snd e"] obtain t
    where "heap s (snd e) = Some t" "expiration t = fst e" by auto
  with tq_invD(10) [OF inv]
  have b: "- (2 ^ 62) \<le> microSecondsSinceEpoch (fst e)" "microSecondsSinceEpoch (fst e) < 2 ^ 63"
    unfolding timer_ok_def ok_request_def by metis+
  obtain ts where ts: "howMuchTimeFromNow (fst e) (time_at s) = Inr ts"
    and r: "resetTimerfd (fst e) s = Inr (s\<lparr>tick := Suc (tick s), timerfd := Some ts, expirations := 0\<rparr>)"
    using resetTimerfd_defined [OF tq_inv_clock [OF inv] b] .
  show ?thesis
    using inv e ts unfolding r armed_for_first_def
    by (auto simp: time_at_def)
qed

lemma reset_inv:
  assumes inv: "tq_inv (snd ` set es) s" and d: "distinct (map snd es)"
    and n: "0 \<le> microSecondsSinceEpoch n" "microSecondsSinceEpoch n < 2 ^ 60"
  shows "\<exists>s'. reset es n s = Inr s' \<and> tq_inv {} s' \<and> armed_for_first s' \<and>
    heap s' = (\<lambda>x. if x \<in> snd ` set es then after_reset n (set (cancelingTimers s)) x (heap s x)
                   else heap s x) \<and>
    functors s' = functors s \<and> cancelingTimers s' = cancelingTimers s \<and>
    callingExpiredTimers s' = callingExpiredTimers s"
proof -
  from reset_each_inv [OF inv d n] obtain s1 where s1: "reset_each es n s = Inr s1" "tq_inv {} s1"
    "heap s1 = (\<lambda>x. if x \<in> snd ` set es then after_reset n (set (cancelingTimers s)) x (heap s x)
                   else heap s x)"
    "functors s1 = functors s" "cancelingTimers s1 = cancelingTimers s"
    "callingExpiredTimers s1 = callingExpiredTimers s" by blast
  show ?thesis
  proof (cases "timers s1")
    case Nil
    then have "reset es n s = Inr s1" "armed_for_first s1"
      using s1(1) by (simp_all add: reset_def valid_def armed_for_first_def)
    with s1 show ?thesis by blast
  next
    case (Cons e es')
    then obtain t where t: "heap s1 (snd e) = Some t" "expiration t = fst e"
      using tq_invD(4) [OF s1(2), of "fst e" "snd e"] by auto
    have eq: "reset es n s = (if valid (fst e) then resetTimerfd (fst e) s1 else Inr s1)"
      using Cons t s1(1) by (simp add: reset_def)
    show ?thesis
    proof (cases "valid (fst e)")
      case True
      with resetTimerfd_arms [OF s1(2) Cons] eq s1(3-6) show ?thesis by auto
    next
      case False
      with Cons have "armed_for_first s1" by (simp add: armed_for_first_def)
      with False eq s1 show ?thesis by auto
    qed
  qed
qed

lemma expired_distinct:
  assumes inv: "tq_inv E s"
  shows "distinct (map snd (expired_at n s))"
proof -
  have "distinct (timers s)" using oset.elems_distinct tq_invD(1) [OF inv] by blast
  moreover have "inj_on snd (set (timers s))"
  proof (rule inj_onI)
    fix x y
    assume xy: "x \<in> set (timers s)" "y \<in> set (timers s)" "snd x = snd y"
    have "(fst x, snd x) \<in> set (timers s)" using xy(1) by simp
    moreover have "(fst y, snd x) \<in> set (timers s)" using xy(2) unfolding xy(3) by simp
    ultimately have "fst x = fst y" by (rule timers_key_unique [OF inv])
    with xy(3) show "x = y" by (simp add: prod_eq_iff)
  qed
  ultimately have "distinct (map snd (timers s))" by (simp add: distinct_map)
  then show ?thesis by (simp add: expired_at_def distinct_map_filter)
qed

text \<open>The whole of \<open>handleRead\<close>, from which its properties follow.\<close>

lemma handleRead_full:
  assumes inv: "tq_inv {} s" and user: "user_code exec"
  shows "upheld (handleRead exec s) (\<lambda>(fired, s').
     fired = map snd (expired_at (time_at s) s) \<and> tq_inv {} s' \<and> armed_for_first s' \<and>
     \<not> callingExpiredTimers s' \<and> set (cancelingTimers s) \<subseteq> set (cancelingTimers s') \<and>
     (\<forall>a \<in> set fired. a \<notin> set (pending_adds (functors s')) \<and>
        heap s' a = after_reset (time_at s) (set (cancelingTimers s')) a (heap s a)))"
    (is "upheld _ ?P")
proof -
  let ?n = "time_at s" and ?X = "expired_at (time_at s) s"
  let ?s1 = "readTimerfd (s\<lparr>tick := Suc (tick s)\<rparr>)"
  let ?s2 = "(after_expiry ?n ?s1)\<lparr>callingExpiredTimers := True\<rparr>"
  note clk = tq_inv_clock [OF inv]
  have inv1: "tq_inv {} ?s1" using inv by (simp add: readTimerfd_def)
  have X: "expired_at ?n ?s1 = ?X" by (simp add: expired_at_def readTimerfd_def)
  have inv2: "tq_inv (snd ` set ?X) ?s2" using after_expiry_inv(1) [OF inv1, of ?n] X by simp
  have heap2: "heap ?s2 = heap s" "cancelingTimers ?s2 = cancelingTimers s"
    by (simp_all add: after_expiry_def readTimerfd_def)
  have "handleRead exec s =
      bindO (run_expired exec ?X ?s2) (\<lambda>(fired, s3).
      bindO (reset ?X ?n (s3\<lparr>callingExpiredTimers := False\<rparr>)) (\<lambda>s4. Inr (fired, s4)))"
    using getExpired_eq [OF inv1, of ?n] X by (simp add: handleRead_def clock_now_eq [OF clk])
  also have "upheld \<dots> ?P"
  proof (rule upheld_bind [OF run_expired_inv [OF inv2 order_refl user]], clarify)
    fix s3
    assume inv3: "tq_inv (snd ` set ?X) s3" and fr: "frame (snd ` set ?X) ?s2 s3"
    have inv3': "tq_inv (snd ` set ?X) (s3\<lparr>callingExpiredTimers := False\<rparr>)" using inv3 by simp
    obtain s4 where "reset ?X ?n (s3\<lparr>callingExpiredTimers := False\<rparr>) = Inr s4"
      "tq_inv {} s4" "armed_for_first s4" "functors s4 = functors s3"
      "cancelingTimers s4 = cancelingTimers s3" "\<not> callingExpiredTimers s4"
      "\<forall>x. heap s4 x = (if x \<in> snd ` set ?X
        then after_reset ?n (set (cancelingTimers s3)) x (heap s3 x) else heap s3 x)"
      using reset_inv [OF inv3' expired_distinct [OF inv] time_at_bounds [OF clk]] by auto
    moreover have "\<forall>a \<in> snd ` set ?X. heap s3 a = heap s a"
      "set (cancelingTimers s) \<subseteq> set (cancelingTimers s3)"
      using fr heap2 by (simp_all add: frame_def)
    moreover have "\<forall>a \<in> snd ` set ?X. a \<notin> set (pending_adds (functors s3))"
      using tq_invD(9) [OF inv3] by blast
    ultimately show "upheld (bindO (reset ?X ?n (s3\<lparr>callingExpiredTimers := False\<rparr>))
        (\<lambda>s4. Inr (map snd ?X, s4))) ?P"
      by auto
  qed
  finally show ?thesis .
qed

section \<open>The queue as a transition system\<close>

text \<open>
  The queue starts empty; a step is a request from any thread, a queued functor that the loop
  runs, or the loop handling the timer descriptor.
\<close>

definition tq_start :: "'cb tq \<Rightarrow> bool" where
  "tq_start s \<longleftrightarrow> (\<exists>clk c. s = tq_init clk c \<and> (\<forall>n. sane_time (clk n)))"

inductive tq_step :: "'cb tq \<Rightarrow> 'cb tq \<Rightarrow> bool" where
  ts_request: "api_step s s' \<Longrightarrow> tq_step s s'"
| ts_functor: "functors s = f # fs \<Longrightarrow> run_functor f (s\<lparr>functors := fs\<rparr>) = Inr s' \<Longrightarrow>
     tq_step s s'"
| ts_fire: "user_code exec \<Longrightarrow> handleRead exec s = Inr (fired, s') \<Longrightarrow> tq_step s s'"

lemma run_functor_inv:
  assumes inv: "tq_inv {} s" and f: "functors s = f # fs"
  shows "\<exists>s'. run_functor f (s\<lparr>functors := fs\<rparr>) = Inr s' \<and> tq_inv {} s'"
proof (cases f)
  case (AddTimerInLoop a)
  then have "tq_inv (insert a {}) (s\<lparr>functors := fs\<rparr>)"
    using inv f unfolding tq_inv_def by auto
  from addTimerInLoop_inv [OF this] AddTimerInLoop show ?thesis by simp
next
  case (CancelInLoop tid)
  then have "tq_inv {} (s\<lparr>functors := fs\<rparr>)"
    using inv f unfolding tq_inv_def by auto
  from cancelInLoop_inv [OF this] CancelInLoop show ?thesis by simp
qed

interpretation tqm: machine tq_start tq_step "tq_inv {}"
proof
  show "tq_start s \<Longrightarrow> tq_inv {} s" for s :: "'a tq"
    by (auto simp: tq_start_def tq_inv_def tq_init_def scheduled_def)
next
  fix s t :: "'a tq"
  assume inv: "tq_inv {} s" and "tq_step s t"
  from \<open>tq_step s t\<close> show "tq_inv {} t"
  proof cases
    case ts_request
    then show ?thesis using api_step_inv inv by blast
  next
    case (ts_functor f fs)
    then show ?thesis using run_functor_inv [OF inv] by auto
  next
    case (ts_fire exec fired)
    then show ?thesis using handleRead_full [OF inv] by fastforce
  qed
qed

section \<open>The hand-over of a timer from another thread\<close>

lemma addTimer_remote:
  "addTimer_hand False a cb w ivl s =
     Inr (s\<lparr>heap := (heap s)(a \<mapsto> new_timer cb w ivl (numCreated s)),
        numCreated := sequence (new_timer cb w ivl (numCreated s)),
        functors := functors s @ [AddTimerInLoop a]\<rparr>)"
  by (simp add: addTimer_hand_def runInLoop_def Let_def)

text \<open>When the loop runs the queued insertion, the timer is queued under its expiration.\<close>

lemma insertion_queues:
  assumes inv: "tq_inv {} s" and f: "functors s = AddTimerInLoop a # fs" and t: "heap s a = Some t"
  shows "\<exists>s'. run_functor (AddTimerInLoop a) (s\<lparr>functors := fs\<rparr>) = Inr s' \<and> tq_inv {} s' \<and>
    heap s' = heap s \<and> (expiration t, a) \<in> set (timers s')"
proof -
  obtain s' where s': "run_functor (AddTimerInLoop a) (s\<lparr>functors := fs\<rparr>) = Inr s'" "tq_inv {} s'"
    using run_functor_inv [OF inv f] by blast
  have h: "heap s' = heap s" using addTimerInLoop_heap [of a "s\<lparr>functors := fs\<rparr>" s'] s'(1) by simp
  have "functors s' = fs"
    using s'(1) by (auto simp: addTimerInLoop_def tq_insert_def resetTimerfd_def clock_now_def
        outcome_simps Let_def split: if_splits)
  moreover have "a \<notin> set (pending_adds fs)" using tq_invD(6) [OF inv] f by simp
  ultimately have "a \<in> scheduled s'" using tq_invD(7) [OF s'(2)] t h by auto
  then obtain w where w: "(w, a) \<in> set (timers s')" by (auto simp: scheduled_iff)
  then have "expiration t = w" using timers_heap [OF s'(2), of a t w] h t by simp
  with s' h w show ?thesis by blast
qed

lemma overtaken_addTimer:
  fixes s :: "'a tq"
  assumes inv: "tq_inv {} s" and user: "user_code exec" and none: "functors s = []"
    and free: "heap s a = None" "a \<noteq> - 1" and ok: "ok_request w ivl" and once: "\<not> gt_zero ivl"
  shows "\<exists>s1 s2. addTimer_hand False a cb w ivl s = Inr s1 \<and> functors s1 = [AddTimerInLoop a] \<and>
    run_functor (AddTimerInLoop a) (s1\<lparr>functors := []\<rparr>) = Inr s2 \<and>
    (w \<le> time_at s2 \<longrightarrow>
      upheld (handleRead exec s2) (\<lambda>(fired, s3). a \<in> set fired \<and> addTimer_result a s3 = Inl UB))"
proof -
  let ?t = "new_timer cb w ivl (numCreated s)"
  obtain s1 where s1: "addTimer_hand False a cb w ivl s = Inr s1" "tq_inv {} s1"
    using addTimer_hand_inv [OF inv free ok] by blast
  have t: "heap s1 a = Some ?t" "functors s1 = [AddTimerInLoop a]"
    using s1(1) none by (auto simp: addTimer_remote)
  obtain s2 where s2: "run_functor (AddTimerInLoop a) (s1\<lparr>functors := []\<rparr>) = Inr s2" "tq_inv {} s2"
    "heap s2 a = Some ?t" "(w, a) \<in> set (timers s2)"
    using insertion_queues [OF s1(2) t(2,1)] t(1) by (auto simp: new_timer_def)
  have "upheld (handleRead exec s2) (\<lambda>(fired, s3). a \<in> set fired \<and> addTimer_result a s3 = Inl UB)"
    if due: "w \<le> time_at s2"
  proof (rule upheld_mono [OF handleRead_full [OF s2(2) user]], clarify)
    fix s3 :: "'a tq"
    assume h: "\<forall>a \<in> set (map snd (expired_at (time_at s2) s2)). a \<notin> set (pending_adds (functors s3)) \<and>
      heap s3 a = after_reset (time_at s2) (set (cancelingTimers s3)) a (heap s2 a)"
    have fired: "a \<in> set (map snd (expired_at (time_at s2) s2))"
      using s2(4) due by (force simp: expired_at_def)
    from bspec [OF h fired] s2(3) once have "heap s3 a = None"
      by (simp add: after_reset_def kept_def new_timer_def)
    with fired show "a \<in> set (map snd (expired_at (time_at s2) s2)) \<and> addTimer_result a s3 = Inl UB"
      by (simp add: addTimer_result_def deref_def)
  qed
  with s1(1) t(2) s2(1) show ?thesis by blast
qed

section \<open>Properties of the timer queue\<close>

text \<open>A queue with one periodic and one one-shot timer due, for the witnesses.\<close>

definition idle :: "nat \<Rightarrow> nat tq \<Rightarrow> nat tq outcome" where
  "idle cb s = Inr s"

lemma user_code_idle: "user_code idle"
  by (simp add: user_code_def idle_def)

definition demo_queue :: "nat tq" where
  "demo_queue = (tq_init (\<lambda>n. (1000, 0)) 2)
     \<lparr>timers := [(Timestamp 999999999, 16), (Timestamp 1000000000, 32), (Timestamp 1000000001, 48)],
      activeTimers := [(16, 1), (32, 2), (48, 3)],
      heap := [16 \<mapsto> new_timer 7 (Timestamp 999999999) (Fin 2 0) 0,
               32 \<mapsto> new_timer 8 (Timestamp 1000000000) (Fin 0 0) 1,
               48 \<mapsto> new_timer 9 (Timestamp 1000000001) (Fin 0 0) 2]\<rparr>"

lemma delta_two: "delta_us (Fin 2 0) = Inr 2000000"
  by (simp add: delta_us_def round53_exact kMicroSecondsPerSecond_def in_i64_def)

lemma demo_queue_inv: "tq_inv {} demo_queue"
  by (auto simp: tq_inv_def demo_queue_def tq_init_def scheduled_def new_timer_def timer_ok_def
      ok_request_def sane_time_def delta_two split: if_splits)

text \<open>
  C4.  In every reachable state of the queue the sets \<open>timers_\<close> and \<open>activeTimers_\<close> describe
  the same timers, every entry is keyed by the expiration its timer object holds, and the
  timer objects on the heap are exactly those queued or waiting to be queued: none is lost
  and none is referred to after it was deleted.
\<close>

theorem timer_queue_invariant:
  assumes "reach tq_start tq_step s"
  shows "tq_inv {} s"
  using assms by (rule tqm.inv_reach)

theorem timer_queue_invariant_witness:
  "\<exists>s. tq_inv {} (s :: nat tq) \<and> scheduled s = {16}"
proof -
  let ?s0 = "tq_init (\<lambda>n. (1000, 0)) 0 :: nat tq"
  have start: "tq_start ?s0" by (auto simp: tq_start_def sane_time_def)
  obtain tid s' where s': "addTimer True 16 7 (Timestamp 5) (Fin 2 0) ?s0 = Inr (tid, s')"
    "scheduled s' = {16}"
    by (simp add: addTimer_eq addTimer_hand_def tq_init_def runInLoop_def addTimerInLoop_def tq_insert_def
        new_timer_def resetTimerfd_def clock_now_def Timestamp_now_def howMuchTimeFromNow_def
        kMicroSecondsPerSecond_def in_i64_def Let_def scheduled_def)
  have "tq_step ?s0 s'"
    by (rule ts_request, rule api_add [OF _ _ _ s'(1)])
      (simp_all add: tq_init_def ok_request_def delta_two)
  then have "reach tq_start tq_step s'"
    by (rule reach_step [OF reach_init [of tq_start, OF start]])
  from timer_queue_invariant [OF this] s'(2) show ?thesis by blast
qed



text \<open>
  C14.  \<open>handleRead\<close> runs the callback of every timer that is due at the time it reads, each
  once, in order of expiration, and of no other timer.  A timer due in the same round runs
  even if an earlier callback of the round cancels it.
\<close>

theorem handleRead_fires_due_timers:
  assumes "tq_inv {} s" and "user_code exec"
  shows "upheld (handleRead exec s) (\<lambda>(fired, s').
    fired = map snd (filter (\<lambda>e. fst e \<le> time_at s) (timers s)) \<and> distinct fired)"
  using handleRead_full [OF assms] expired_distinct [OF assms(1)]
  by (auto elim!: upheld_mono simp: expired_at_def)

theorem handleRead_fires_due_timers_witness:
  "upheld (handleRead idle demo_queue) (\<lambda>(fired, s'). fired = [16, 32])"
  using handleRead_fires_due_timers [OF demo_queue_inv user_code_idle]
  by (rule upheld_mono)
    (auto simp: demo_queue_def tq_init_def time_at_def)

text \<open>
  C15.  After \<open>handleRead\<close> a timer that fired is queued again at \<open>now + interval\<close> if it
  repeats and was not cancelled, and is deleted otherwise.
\<close>

theorem handleRead_reschedules_or_deletes:
  assumes "tq_inv {} s" and "user_code exec"
  shows "upheld (handleRead exec s) (\<lambda>(fired, s'). \<forall>a t. a \<in> set fired \<and> heap s a = Some t \<longrightarrow>
    (if repeat t \<and> (a, sequence t) \<notin> set (cancelingTimers s')
     then heap s' a = Some (rescheduled (time_at s) t)
          \<and> (Timestamp (microSecondsSinceEpoch (time_at s) + period t), a) \<in> set (timers s')
     else heap s' a = None \<and> a \<notin> scheduled s'))"
proof (rule upheld_mono [OF handleRead_full [OF assms]], clarify)
  fix s' a t
  assume inv': "tq_inv {} s'"
    and fired: "a \<in> set (map snd (expired_at (time_at s) s))" and t: "heap s a = Some t"
    and h: "\<forall>a \<in> set (map snd (expired_at (time_at s) s)).
      a \<notin> set (pending_adds (functors s')) \<and>
      heap s' a = after_reset (time_at s) (set (cancelingTimers s')) a (heap s a)"
  from h fired t have a: "a \<notin> set (pending_adds (functors s'))"
    and heap': "heap s' a = after_reset (time_at s) (set (cancelingTimers s')) a (Some t)" by auto
  have "(expiration t', a) \<in> set (timers s')" if "heap s' a = Some t'" for t'
  proof -
    have "a \<in> scheduled s'" using that a tq_invD(7) [OF inv'] by auto
    then show ?thesis using timers_heap [OF inv' that] by (auto simp: scheduled_iff)
  qed
  moreover have "a \<notin> scheduled s'" if "heap s' a = None"
    using that tq_invD(7) [OF inv'] by auto
  ultimately show "if repeat t \<and> (a, sequence t) \<notin> set (cancelingTimers s')
     then heap s' a = Some (rescheduled (time_at s) t)
          \<and> (Timestamp (microSecondsSinceEpoch (time_at s) + period t), a) \<in> set (timers s')
     else heap s' a = None \<and> a \<notin> scheduled s'"
    using heap' by (auto simp: after_reset_def kept_def rescheduled_def)
qed

theorem handleRead_reschedules_or_deletes_witness:
  "upheld (handleRead idle demo_queue) (\<lambda>(fired, s'). 32 \<in> set fired \<longrightarrow> heap s' 32 = None)"
  by (rule upheld_mono [OF handleRead_reschedules_or_deletes [OF demo_queue_inv user_code_idle]])
    (auto simp: demo_queue_def tq_init_def new_timer_def)

text \<open>
  C16.  The queue does not stall: after \<open>handleRead\<close>, whatever the callbacks did, the timer
  descriptor is armed for the earliest timer that is left, with the time from the reading of
  the clock that \<open>resetTimerfd\<close> takes at the end of the round.  The exception is an earliest timer
  whose expiration is not a valid time (zero or negative): for it the code does not arm the
  descriptor.
\<close>

theorem handleRead_rearms:
  assumes "tq_inv {} s" and "user_code exec"
  shows "upheld (handleRead exec s) (\<lambda>(fired, s'). armed_for_first s' \<and> \<not> callingExpiredTimers s')"
  by (rule upheld_mono [OF handleRead_full [OF assms]]) auto

theorem handleRead_rearms_witness:
  "upheld (handleRead idle demo_queue) (\<lambda>(fired, s'). armed_for_first s')"
  by (rule upheld_mono [OF handleRead_rearms [OF demo_queue_inv user_code_idle]]) auto

text \<open>
  \<open>getExpired\<close> splits the queue exactly at \<open>now\<close>: it returns the timers with expiration
  at or before \<open>now\<close> in ascending order and leaves the later ones, and \<open>activeTimers_\<close> loses
  exactly the returned timers.
\<close>

theorem getExpired_splits:
  assumes "tq_inv {} s"
  shows "\<exists>expired s'. getExpired n s = Inr (expired, s') \<and>
    timers s = expired @ timers s' \<and>
    (\<forall>e. e \<in> set expired \<longleftrightarrow> e \<in> set (timers s) \<and> fst e \<le> n) \<and>
    activeTimers s' = filter (\<lambda>p. fst p \<notin> snd ` set expired) (activeTimers s) \<and> heap s' = heap s"
proof -
  have "timers s = expired_at n s @ timers (after_expiry n s)"
    using oset.below_from [OF tq_invD(1) [OF assms], of "(n, - 1)"]
    by (simp add: below_sentry [OF assms] expired_at_def after_expiry_def)
  then show ?thesis
    using getExpired_eq [OF assms, of n] by (auto simp: expired_at_def after_expiry_def)
qed

theorem getExpired_splits_witness:
  "\<exists>expired s'. getExpired (Timestamp 1000000000) demo_queue = Inr (expired, s') \<and>
     timers demo_queue = expired @ timers s'"
  using getExpired_splits [OF demo_queue_inv, of "Timestamp 1000000000"] by blast

text \<open>
  Cancelling a timer that is queued deletes it and takes it out of both sets, and touches
  no other timer.
\<close>

theorem cancelInLoop_removes:
  assumes inv: "tq_inv E s" and act: "(a, q) \<in> set (activeTimers s)"
  shows "\<exists>s'. cancelInLoop (TimerId a q) s = Inr s' \<and> tq_inv E s' \<and>
    heap s' = (heap s)(a := None) \<and> scheduled s' = scheduled s - {a} \<and>
    (\<forall>w b. b \<noteq> a \<longrightarrow> (w, b) \<in> set (timers s') \<longleftrightarrow> (w, b) \<in> set (timers s)) \<and>
    cancelingTimers s' = cancelingTimers s"
proof -
  from act obtain t where t: "heap s a = Some t" by (auto simp: tq_invD(5) [OF inv])
  have only: "(w, a) \<in> set (timers s) \<Longrightarrow> w = expiration t" for w
    using timers_heap [OF inv t] by simp
  have "tq_inv E s'" if "cancelInLoop (TimerId a q) s = Inr s'" for s'
    using cancelInLoop_inv [OF inv, of "TimerId a q"] that by auto
  then show ?thesis
    using act t only by (auto simp: cancelInLoop_def scheduled_iff)
qed

theorem cancelInLoop_removes_witness:
  "\<exists>s'. cancelInLoop (TimerId 16 1) demo_queue = Inr s' \<and> scheduled s' = {32, 48}"
proof -
  have "(16, 1) \<in> set (activeTimers demo_queue)" by (simp add: demo_queue_def)
  from cancelInLoop_removes [OF demo_queue_inv this]
  obtain s' where s': "cancelInLoop (TimerId 16 1) demo_queue = Inr s'"
    "scheduled s' = scheduled demo_queue - {16}" by blast
  have "scheduled demo_queue = {16, 32, 48}" by (simp add: scheduled_def demo_queue_def)
  with s' show ?thesis by auto
qed

text \<open>
  Adding a timer from the loop's thread queues it under its expiration, leaves the other
  timers as they are and, when it has become the earliest one, arms the timer descriptor for
  it; an older alarm is left alone otherwise.
\<close>

lemma addTimer_in_loop:
  assumes inv: "tq_inv E s" and free: "heap s a = None" "a \<noteq> - 1" and ok: "ok_request when ivl"
  shows "\<exists>q s'. addTimer True a cb when ivl s = Inr (TimerId a q, s') \<and> tq_inv E s' \<and>
    set (timers s') = insert (when, a) (set (timers s)) \<and> (a, q) \<in> set (activeTimers s') \<and>
    heap s' a = Some (new_timer cb when ivl (numCreated s)) \<and>
    q = sequence (new_timer cb when ivl (numCreated s)) \<and>
    (if timers s = [] \<or> when < fst (hd (timers s))
     then Inr (the (timerfd s')) = howMuchTimeFromNow when (time_at s) \<and> timerfd s' \<noteq> None
     else timerfd s' = timerfd s)"
proof -
  let ?t = "new_timer cb when ivl (numCreated s)"
  let ?s1 = "s\<lparr>heap := (heap s)(a \<mapsto> ?t), numCreated := sequence ?t\<rparr>"
  have inv1: "tq_inv (insert a E) ?s1"
    by (rule create_inv [OF inv free new_timer_ok [OF ok]])
  have a: "a \<notin> E" using tq_invD(7) [OF inv] free(1) by blast
  have e: "expiration ?t = when" by (simp add: new_timer_def)
  obtain b s2 where i: "tq_insert a ?s1 = Inr (b, s2)"
    and b: "b \<longleftrightarrow> timers s = [] \<or> when < fst (hd (timers s))" and inv2: "tq_inv E s2"
    and s2: "s2 = ?s1\<lparr>timers := oset_insert (when, a) (timers s),
      activeTimers := oset_insert (a, sequence ?t) (activeTimers s)\<rparr>"
    using tq_insert_inv [OF inv1 a] e by auto
  have tm: "time_at s2 = time_at s" by (simp add: s2 time_at_def)
  have w: "- (2 ^ 62) \<le> microSecondsSinceEpoch when" "microSecondsSinceEpoch when < 2 ^ 63"
    using ok by (auto simp: ok_request_def)
  obtain ts where ts: "howMuchTimeFromNow when (time_at s2) = Inr ts"
    and r: "resetTimerfd when s2 = Inr (s2\<lparr>tick := Suc (tick s2), timerfd := Some ts, expirations := 0\<rparr>)"
    using resetTimerfd_defined [OF tq_inv_clock [OF inv2] w] .
  let ?s' = "if b then s2\<lparr>tick := Suc (tick s2), timerfd := Some ts, expirations := 0\<rparr> else s2"
  have h: "heap s2 a = Some ?t" by (simp add: s2)
  have "addTimer True a cb when ivl s = Inr (TimerId a (sequence ?t), ?s')"
    using i r h e by (simp add: addTimer_eq addTimer_hand_def runInLoop_def addTimerInLoop_def Let_def)
  moreover have "tq_inv E ?s'" using inv2 by simp
  moreover have "set (timers ?s') = insert (when, a) (set (timers s))"
    "(a, sequence ?t) \<in> set (activeTimers ?s')" "heap ?s' a = Some ?t" by (simp_all add: s2)
  moreover have "if timers s = [] \<or> when < fst (hd (timers s))
     then Inr (the (timerfd ?s')) = howMuchTimeFromNow when (time_at s) \<and> timerfd ?s' \<noteq> None
     else timerfd ?s' = timerfd s"
    using b ts tm by (simp add: s2)
  ultimately show ?thesis by blast
qed

text \<open>
  The value given to \<open>timerfd_settime\<close> is always one the kernel accepts and never the
  zero value that would disarm the timer: the seconds are not negative, the nanoseconds are
  below a second, together at least 100 microseconds, and exact for a later deadline.
\<close>

theorem howMuchTimeFromNow_accepted:
  assumes "howMuchTimeFromNow when n = Inr (sec, nsec)"
  shows "0 \<le> sec \<and> 0 \<le> nsec \<and> nsec < 1000000000 \<and>
    1000000 * sec + nsec div 1000
      = max 100 (microSecondsSinceEpoch when - microSecondsSinceEpoch n)"
proof -
  obtain d where d: "d = max 100 (microSecondsSinceEpoch when - microSecondsSinceEpoch n)"
    and eq: "sec = d sdiv 1000000" "nsec = (d smod 1000000) * 1000"
    using assms
    by (auto simp: howMuchTimeFromNow_def Let_def kMicroSecondsPerSecond_def max_def outcome_simps
        split: if_splits)
  have "100 \<le> d" by (simp add: d)
  then have "sec = d div 1000000" "nsec = (d mod 1000000) * 1000"
    by (simp_all add: eq signed_divide_int_def signed_modulo_int_def minus_div_mult_eq_mod)
  then show ?thesis
    using \<open>100 \<le> d\<close> unfolding d [symmetric] by (auto simp: pos_imp_zdiv_nonneg_iff)
qed

theorem howMuchTimeFromNow_accepted_witness:
  "howMuchTimeFromNow (Timestamp 2500000) (Timestamp 0) = Inr (2, 500000000) \<and>
   (0 :: int) \<le> 500000000"
proof -
  have e: "howMuchTimeFromNow (Timestamp 2500000) (Timestamp 0) = Inr (2, 500000000)" by code_simp
  from howMuchTimeFromNow_accepted [OF e] e show ?thesis by simp
qed

text \<open>
  \<open>cancelingTimers_\<close> is never emptied: no step of the queue removes an entry from it, so
  every cancellation made while callbacks run stays in memory for the life of the queue.
\<close>

theorem cancelingTimers_never_shrinks:
  assumes "reach tq_start tq_step s" and "tq_step s s'"
  shows "set (cancelingTimers s) \<subseteq> set (cancelingTimers s')"
  using assms(2)
proof cases
  case ts_request
  with tqm.inv_reach [OF assms(1)] show ?thesis
    using api_step_frame by (auto simp: frame_def)
next
  case (ts_functor f fs)
  with tqm.inv_reach [OF assms(1)] show ?thesis
    by (cases f)
      (auto simp: addTimerInLoop_def cancelInLoop_def tq_insert_def resetTimerfd_def clock_now_def
        outcome_simps Let_def split: if_splits timer_id.splits)
next
  case (ts_fire exec fired)
  with handleRead_full [OF tqm.inv_reach [OF assms(1)] ts_fire(1)] show ?thesis by simp
qed

theorem cancelingTimers_never_shrinks_witness:
  "set (cancelingTimers (tq_init (\<lambda>n. (1000, 0)) 0 :: nat tq))
     \<subseteq> set (cancelingTimers (tq_init (\<lambda>n. (1000, 0)) 0 :: nat tq))"
proof -
  let ?s = "tq_init (\<lambda>n. (1000, 0)) 0 :: nat tq"
  have "tq_start ?s" by (auto simp: tq_start_def sane_time_def)
  moreover have "cancel True (TimerId 16 1) ?s = Inr ?s"
    by (simp add: cancel_def runInLoop_def cancelInLoop_def tq_init_def)
  ultimately show ?thesis
    using cancelingTimers_never_shrinks [of ?s ?s] reach_init [of tq_start ?s]
    by (blast intro: ts_request api_cancel)
qed

text \<open>
  A cancellation can be lost: while the insertion of a timer requested by another thread
  still waits in the event loop's queue, cancelling its \<open>TimerId\<close> in the loop's thread changes
  nothing, and the timer is queued and runs all the same.
\<close>

theorem cancel_before_insertion_lost:
  assumes inv: "tq_inv {} s" and fs: "functors s = AddTimerInLoop a # fs"
    and idle: "\<not> callingExpiredTimers s"
  shows "cancelInLoop (TimerId a q) s = Inr s \<and>
    (\<exists>s'. run_functor (AddTimerInLoop a) (s\<lparr>functors := fs\<rparr>) = Inr s' \<and> a \<in> scheduled s')"
proof
  have "a \<notin> scheduled s" using tq_invD(8) [OF inv] fs by auto
  then have "(a, q) \<notin> set (activeTimers s)"
    using tq_invD(5) [OF inv, of a q] by (auto simp: scheduled_iff)
  then show "cancelInLoop (TimerId a q) s = Inr s"
    using idle by (simp add: cancelInLoop_def)
  obtain s' where s': "run_functor (AddTimerInLoop a) (s\<lparr>functors := fs\<rparr>) = Inr s'" "tq_inv {} s'"
    using run_functor_inv [OF inv fs] by auto
  have "heap s' = heap s" "functors s' = fs"
    using s'(1) by (auto simp: addTimerInLoop_def tq_insert_def resetTimerfd_def clock_now_def
        outcome_simps Let_def split: if_splits)
  moreover have "a \<in> dom (heap s)" "a \<notin> set (pending_adds fs)"
    using tq_invD(6,7) [OF inv] fs by auto
  ultimately have "a \<in> scheduled s'" using tq_invD(7) [OF s'(2)] by auto
  with s'(1) show "\<exists>s'. run_functor (AddTimerInLoop a) (s\<lparr>functors := fs\<rparr>) = Inr s' \<and> a \<in> scheduled s'"
    by blast
qed

theorem cancel_before_insertion_lost_witness:
  "\<exists>s. functors (s :: nat tq) = [AddTimerInLoop 64] \<and> cancelInLoop (TimerId 64 3) s = Inr s"
proof -
  obtain q s where s: "addTimer False 64 5 (Timestamp 7) (Fin 2 0) demo_queue = Inr (TimerId 64 q, s)"
    "functors s = [AddTimerInLoop 64]" "\<not> callingExpiredTimers s"
    by (simp add: addTimer_eq addTimer_hand_def runInLoop_def demo_queue_def tq_init_def Let_def)
  have "heap demo_queue 64 = None" "ok_request (Timestamp 7) (Fin 2 0)"
    by (simp_all add: demo_queue_def ok_request_def delta_two)
  from addTimer_inv [OF demo_queue_inv this(1) _ this(2), of False 5] s(1)
  have "tq_inv {} s" by auto
  from cancel_before_insertion_lost [OF this s(2,3)] s(2) show ?thesis by blast
qed

end
