(* ===== verification/LoopTimers.thy ===== *)
theory LoopTimers
  imports TimerQueue
begin

text \<open>
  The timer interface of \<open>EventLoop.cc\<close>: \<open>runAt\<close>, \<open>runAfter\<close>, \<open>runEvery\<close> and \<open>cancel\<close> on the loop's
  timer queue.  \<open>in_loop\<close> says whether the caller is the loop's own thread, and \<open>a\<close> is the
  address that \<open>new Timer\<close> returns.
\<close>

section \<open>Operations\<close>

definition runAt ::
    "bool \<Rightarrow> addr \<Rightarrow> timestamp \<Rightarrow> 'cb \<Rightarrow> 'cb tq \<Rightarrow> (timer_id \<times> 'cb tq) outcome" where
  "runAt in_loop a time cb s = addTimer in_loop a cb time (Fin 0 0) s"

definition runAfter ::
    "bool \<Rightarrow> addr \<Rightarrow> double \<Rightarrow> 'cb \<Rightarrow> 'cb tq \<Rightarrow> (timer_id \<times> 'cb tq) outcome" where
  "runAfter in_loop a delay cb s =
     bindO (clock_now s) (\<lambda>(now, s1).
     bindO (addTime now delay) (\<lambda>time. runAt in_loop a time cb s1))"

definition runEvery ::
    "bool \<Rightarrow> addr \<Rightarrow> double \<Rightarrow> 'cb \<Rightarrow> 'cb tq \<Rightarrow> (timer_id \<times> 'cb tq) outcome" where
  "runEvery in_loop a ivl cb s =
     bindO (clock_now s) (\<lambda>(now, s1).
     bindO (addTime now ivl) (\<lambda>time. addTimer in_loop a cb time ivl s1))"

definition loop_cancel :: "bool \<Rightarrow> timer_id \<Rightarrow> 'cb tq \<Rightarrow> 'cb tq outcome" where
  "loop_cancel in_loop tid s = cancel in_loop tid s"

section \<open>Properties\<close>

lemma later_time:
  assumes inv: "tq_inv {} s" and d: "delta_us delay = Inr d" "0 \<le> d" "d < 2 ^ 62"
  shows "addTime (time_at s) delay = Inr (Timestamp (microSecondsSinceEpoch (time_at s) + d))"
    and "0 \<le> microSecondsSinceEpoch (time_at s) + d" "microSecondsSinceEpoch (time_at s) + d < 2 ^ 63"
  using time_at_bounds [OF tq_inv_clock [OF inv]] d by (simp_all add: addTime_def in_i64_def)

text \<open>A queued timer is run by the rounds whose clock reading has reached its expiration.\<close>

lemma fires_when_due:
  assumes inv: "tq_inv {} s" and user: "user_code exec" and a: "(w, a) \<in> set (timers s)"
  shows "upheld (handleRead exec s) (\<lambda>(fired, s'). a \<in> set fired \<longleftrightarrow> w \<le> time_at s)"
proof (rule upheld_mono [OF handleRead_full [OF inv user]], clarify)
  fix s'
  show "a \<in> set (map snd (expired_at (time_at s) s)) \<longleftrightarrow> w \<le> time_at s"
  proof
    assume "a \<in> set (map snd (expired_at (time_at s) s))"
    then obtain w' where "(w', a) \<in> set (timers s)" "w' \<le> time_at s" by (auto simp: expired_at_def)
    with timers_key_unique [OF inv this(1) a] show "w \<le> time_at s" by simp
  next
    assume "w \<le> time_at s"
    with a have "(w, a) \<in> set (expired_at (time_at s) s)" by (simp add: expired_at_def)
    then show "a \<in> set (map snd (expired_at (time_at s) s))" by force
  qed
qed

text \<open>
  A timer whose insertion still waits in the functor queue of the loop is not run; once the
  loop has run the insertion it is like any other.
\<close>

lemma waiting_not_fired:
  assumes inv: "tq_inv {} s" and user: "user_code exec" and a: "a \<in> set (pending_adds (functors s))"
  shows "upheld (handleRead exec s) (\<lambda>(fired, s'). a \<notin> set fired)"
proof (rule upheld_mono [OF handleRead_full [OF inv user]], clarify)
  assume "a \<in> set (map snd (expired_at (time_at s) s))"
  then have "a \<in> scheduled s" by (auto simp: expired_at_def scheduled_iff)
  with a tq_invD(8) [OF inv] show False by auto
qed

lemma fires_after_insertion:
  assumes inv: "tq_inv {} s" and user: "user_code exec" and f: "functors s = AddTimerInLoop a # fs"
    and t: "heap s a = Some t" "expiration t = w"
  shows "\<exists>s'. run_functor (AddTimerInLoop a) (s\<lparr>functors := fs\<rparr>) = Inr s' \<and>
    upheld (handleRead exec s') (\<lambda>(fired, s''). a \<in> set fired \<longleftrightarrow> w \<le> time_at s')"
proof -
  obtain s' where s': "run_functor (AddTimerInLoop a) (s\<lparr>functors := fs\<rparr>) = Inr s'" "tq_inv {} s'"
    "(w, a) \<in> set (timers s')" using insertion_queues [OF inv f t(1)] t(2) by blast
  with fires_when_due [OF s'(2) user s'(3)] show ?thesis by blast
qed

definition due_since :: "'cb tq \<Rightarrow> int \<Rightarrow> 'cb tq \<Rightarrow> bool" where
  "due_since s d s' \<longleftrightarrow> microSecondsSinceEpoch (time_at s) + d \<le> microSecondsSinceEpoch (time_at s')"

text \<open>
  C17.  A timer set with \<open>runAfter\<close> never fires early, and once the loop has queued it it is not
  missed.  Called in the loop's thread with a delay of \<open>d\<close> microseconds, \<open>runAfter\<close> returns the
  timer's id, and the next round of \<open>handleRead\<close> runs the timer exactly if its clock reading is
  at least \<open>d\<close> later than that of the call; the other timers stay.  Called in another thread it
  only queues the insertion among the functors of the loop: no round of \<open>handleRead\<close> before the
  insertion runs the timer, and the next round after it does exactly if the delay has passed
  since the call.
\<close>

theorem runAfter_fires_on_time:
  assumes inv: "tq_inv {} s" and user: "user_code exec" and free: "heap s a = None" "a \<noteq> - 1"
    and d: "delta_us delay = Inr d" "0 \<le> d" "d < 2 ^ 62"
  shows "(\<exists>q s1. runAfter True a delay cb s = Inr (TimerId a q, s1) \<and> tq_inv {} s1 \<and>
      set (timers s) \<subseteq> set (timers s1) \<and> (a, q) \<in> set (activeTimers s1) \<and>
      upheld (handleRead exec s1) (\<lambda>(fired, s2). a \<in> set fired \<longleftrightarrow> due_since s d s1)) \<and>
    (\<exists>q s1. runAfter False a delay cb s = Inr (TimerId a q, s1) \<and> tq_inv {} s1 \<and>
      timers s1 = timers s \<and> functors s1 = functors s @ [AddTimerInLoop a] \<and>
      (\<forall>s2. tq_inv {} s2 \<and> heap s2 a = heap s1 a \<longrightarrow>
        (a \<in> set (pending_adds (functors s2)) \<longrightarrow> upheld (handleRead exec s2) (\<lambda>(fired, s'). a \<notin> set fired)) \<and>
        (\<forall>fs. functors s2 = AddTimerInLoop a # fs \<longrightarrow>
          (\<exists>s3. run_functor (AddTimerInLoop a) (s2\<lparr>functors := fs\<rparr>) = Inr s3 \<and>
            upheld (handleRead exec s3) (\<lambda>(fired, s'). a \<in> set fired \<longleftrightarrow> due_since s d s3)))))"
proof
  let ?w = "Timestamp (microSecondsSinceEpoch (time_at s) + d)" and ?s = "s\<lparr>tick := Suc (tick s)\<rparr>"
  note t = later_time [OF inv d]
  have ok: "ok_request ?w (Fin 0 0)" using t(2,3) by (simp add: ok_request_def)
  have inv1: "tq_inv {} ?s" and free1: "heap ?s a = None" using inv free by simp_all
  have run: "runAfter in_loop a delay cb s = addTimer in_loop a cb ?w (Fin 0 0) ?s" for in_loop
    using t(1) by (simp add: runAfter_def runAt_def clock_now_eq [OF tq_inv_clock [OF inv]])
  have due: "?w \<le> time_at s' \<longleftrightarrow> due_since s d s'" for s' :: "'a tq"
    by (simp add: timestamp_le_iff due_since_def)
  show "\<exists>q s1. runAfter True a delay cb s = Inr (TimerId a q, s1) \<and> tq_inv {} s1 \<and>
      set (timers s) \<subseteq> set (timers s1) \<and> (a, q) \<in> set (activeTimers s1) \<and>
      upheld (handleRead exec s1) (\<lambda>(fired, s2). a \<in> set fired \<longleftrightarrow> due_since s d s1)"
  proof -
    from addTimer_in_loop [OF inv1 free1 free(2) ok, of cb] obtain q s1 where
      s1: "addTimer True a cb ?w (Fin 0 0) ?s = Inr (TimerId a q, s1)" "tq_inv {} s1"
        "set (timers s1) = insert (?w, a) (set (timers s))" "(a, q) \<in> set (activeTimers s1)" by auto
    have "(?w, a) \<in> set (timers s1)" using s1(3) by simp
    from fires_when_due [OF s1(2) user this] s1 show ?thesis unfolding run due by blast
  qed
  let ?t = "new_timer cb ?w (Fin 0 0) (numCreated s)"
  obtain s1 where s1: "addTimer_hand False a cb ?w (Fin 0 0) ?s = Inr s1" "tq_inv {} s1"
    using addTimer_hand_inv [OF inv1 free1 free(2) ok] by blast
  have s1': "timers s1 = timers s" "functors s1 = functors s @ [AddTimerInLoop a]" "heap s1 a = Some ?t"
    using s1(1) by (auto simp: addTimer_remote)
  have "runAfter False a delay cb s = Inr (TimerId a (sequence ?t), s1)"
    using s1(1) unfolding run by (simp add: addTimer_eq)
  moreover have "\<exists>s3. run_functor (AddTimerInLoop a) (s2\<lparr>functors := fs\<rparr>) = Inr s3 \<and>
      upheld (handleRead exec s3) (\<lambda>(fired, s'). a \<in> set fired \<longleftrightarrow> due_since s d s3)"
    if "tq_inv {} s2" "heap s2 a = heap s1 a" "functors s2 = AddTimerInLoop a # fs" for s2 fs
    using fires_after_insertion [OF that(1) user that(3), of ?t ?w] that(2) s1'(3)
    unfolding due by (simp add: new_timer_def)
  ultimately show "\<exists>q s1. runAfter False a delay cb s = Inr (TimerId a q, s1) \<and> tq_inv {} s1 \<and>
      timers s1 = timers s \<and> functors s1 = functors s @ [AddTimerInLoop a] \<and>
      (\<forall>s2. tq_inv {} s2 \<and> heap s2 a = heap s1 a \<longrightarrow>
        (a \<in> set (pending_adds (functors s2)) \<longrightarrow> upheld (handleRead exec s2) (\<lambda>(fired, s'). a \<notin> set fired)) \<and>
        (\<forall>fs. functors s2 = AddTimerInLoop a # fs \<longrightarrow>
          (\<exists>s3. run_functor (AddTimerInLoop a) (s2\<lparr>functors := fs\<rparr>) = Inr s3 \<and>
            upheld (handleRead exec s3) (\<lambda>(fired, s'). a \<in> set fired \<longleftrightarrow> due_since s d s3))))"
    using s1(2) s1'(1,2) waiting_not_fired [OF _ user] by blast
qed

theorem runAfter_fires_on_time_witness:
  "\<exists>q s1. runAfter True 64 (Fin 2 0) 5 demo_queue = Inr (TimerId 64 q, s1) \<and> (64, q) \<in> set (activeTimers s1)"
proof -
  have "heap demo_queue 64 = None" by (simp add: demo_queue_def)
  from runAfter_fires_on_time [OF demo_queue_inv user_code_idle this _ delta_two, of 5]
  show ?thesis by auto
qed

text \<open>
  A timer set with \<open>runEvery\<close> repeats: its first run is due one interval after the call, and
  the object on the heap carries the interval and the repeat flag that make \<open>reset\<close> queue it again.
\<close>

theorem runEvery_repeats:
  assumes inv: "tq_inv {} s" and free: "heap s a = None" "a \<noteq> - 1"
    and d: "delta_us ivl = Inr d" "0 \<le> d" "d < 2 ^ 62" and pos: "gt_zero ivl"
  shows "\<exists>q s1 t. runEvery True a ivl cb s = Inr (TimerId a q, s1) \<and> tq_inv {} s1 \<and>
    heap s1 a = Some t \<and> callback t = cb \<and> repeat t \<and> interval t = ivl \<and> sequence t = q \<and>
    (Timestamp (microSecondsSinceEpoch (time_at s) + d), a) \<in> set (timers s1)"
proof -
  let ?w = "Timestamp (microSecondsSinceEpoch (time_at s) + d)" and ?s = "s\<lparr>tick := Suc (tick s)\<rparr>"
  note t = later_time [OF inv d]
  have ok: "ok_request ?w ivl" using t d by (simp add: ok_request_def)
  have "tq_inv {} ?s" using inv by simp
  from addTimer_in_loop [OF this _ free(2) ok, of cb] free(1) obtain q s1 where
    s1: "addTimer True a cb ?w ivl ?s = Inr (TimerId a q, s1)" "tq_inv {} s1"
      "(?w, a) \<in> set (timers s1)" "heap s1 a = Some (new_timer cb ?w ivl (numCreated s))"
      "q = sequence (new_timer cb ?w ivl (numCreated s))" by auto
  have "runEvery True a ivl cb s = Inr (TimerId a q, s1)"
    using s1(1) t(1) by (simp add: runEvery_def clock_now_eq [OF tq_inv_clock [OF inv]])
  with s1 pos show ?thesis
    by (intro exI [of _ q] exI [of _ s1] exI [of _ "new_timer cb ?w ivl (numCreated s)"])
      (simp add: new_timer_def)
qed

theorem runEvery_repeats_witness:
  "\<exists>q s1 t. runEvery True 64 (Fin 2 0) 5 demo_queue = Inr (TimerId 64 q, s1) \<and>
     heap s1 64 = Some t \<and> repeat t \<and> (Timestamp 1002000000, 64) \<in> set (timers s1)"
proof -
  have h: "heap demo_queue 64 = None" by (simp add: demo_queue_def)
  have "time_at demo_queue = Timestamp 1000000000" by (simp add: time_at_def demo_queue_def tq_init_def)
  with runEvery_repeats [OF demo_queue_inv h _ delta_two, of 5] show ?thesis by auto
qed

end
