(* ===== verification/Buffers.thy ===== *)
theory Buffers
  imports Prelude
begin

text \<open>
  \<open>Buffer.h\<close>, \<open>Buffer.cc\<close>: a byte vector with a reader and a writer index.  The indices are
  64-bit \<open>size_t\<close>s and their arithmetic wraps.  A read or write outside the vector is
  undefined behaviour; a vector longer than \<open>max_size\<close> is an uncaught exception.  The
  constructor does not initialise the two indices, so \<open>buffer_new\<close> takes the values that the
  memory happened to hold.  \<open>readv\<close> is the kernel's: its reply is an argument of \<open>readFd\<close>.
\<close>

section \<open>Data and operations\<close>

type_synonym byte = "8 word"
type_synonym size_t = "64 word"

record buffer =
  buffer_data :: "byte list"
  readerIndex :: size_t
  writerIndex :: size_t

definition kCheapPrepend :: size_t where
  "kCheapPrepend = 8"

definition kInitialSize :: size_t where
  "kInitialSize = 1024"

definition vector_size :: "buffer \<Rightarrow> size_t" where
  "vector_size b = of_nat (length (buffer_data b))"

text \<open>\<open>std::vector<char>(n)\<close> and \<open>resize(n)\<close>: new bytes are zero.\<close>

definition vector_new :: "size_t \<Rightarrow> byte list outcome" where
  "vector_new n = (if unat n < 2 ^ 63 then Inr (replicate (unat n) 0) else Inl Abort)"

definition vector_resize :: "byte list \<Rightarrow> size_t \<Rightarrow> byte list outcome" where
  "vector_resize xs n =
     (if unat n < 2 ^ 63 then Inr (take (unat n) xs @ replicate (unat n - length xs) 0)
      else Inl Abort)"

text \<open>Reading and writing a range of a vector.\<close>

definition load :: "byte list \<Rightarrow> nat \<Rightarrow> nat \<Rightarrow> byte list outcome" where
  "load xs off n = (if off + n \<le> length xs then Inr (take n (drop off xs)) else Inl UB)"

definition store :: "byte list \<Rightarrow> nat \<Rightarrow> byte list \<Rightarrow> byte list outcome" where
  "store xs off ys =
     (if off + length ys \<le> length xs then Inr (take off xs @ ys @ drop (off + length ys) xs)
      else Inl UB)"

definition buffer_new :: "size_t \<Rightarrow> size_t \<Rightarrow> buffer outcome" where
  "buffer_new r0 w0 =
     bindO (vector_new (kCheapPrepend + kInitialSize)) (\<lambda>xs.
       Inr \<lparr>buffer_data = xs, readerIndex = r0, writerIndex = w0\<rparr>)"

definition readableBytes :: "buffer \<Rightarrow> size_t" where
  "readableBytes b = writerIndex b - readerIndex b"

definition writableBytes :: "buffer \<Rightarrow> size_t" where
  "writableBytes b = vector_size b - writerIndex b"

definition prependableBytes :: "buffer \<Rightarrow> size_t" where
  "prependableBytes b = readerIndex b"

text \<open>Pointers into the vector are offsets from its start.\<close>

definition peek :: "buffer \<Rightarrow> size_t" where
  "peek b = readerIndex b"

definition beginWrite :: "buffer \<Rightarrow> size_t" where
  "beginWrite b = writerIndex b"

definition retrieve :: "size_t \<Rightarrow> buffer \<Rightarrow> buffer" where
  "retrieve len b = b\<lparr>readerIndex := readerIndex b + len\<rparr>"

definition retrieveUntil :: "size_t \<Rightarrow> buffer \<Rightarrow> buffer" where
  "retrieveUntil end_ptr b = retrieve (end_ptr - peek b) b"

definition retrieveAll :: "buffer \<Rightarrow> buffer" where
  "retrieveAll b = b\<lparr>readerIndex := kCheapPrepend, writerIndex := kCheapPrepend\<rparr>"

definition peek_bytes :: "buffer \<Rightarrow> byte list outcome" where
  "peek_bytes b = load (buffer_data b) (unat (peek b)) (unat (readableBytes b))"

definition retrieveAsString :: "buffer \<Rightarrow> (byte list \<times> buffer) outcome" where
  "retrieveAsString b = bindO (peek_bytes b) (\<lambda>str. Inr (str, retrieveAll b))"

text \<open>The three overloads of \<open>append\<close>; the one that takes \<open>const char*\<close> has an empty body.\<close>

definition append_chars :: "byte list \<Rightarrow> size_t \<Rightarrow> buffer \<Rightarrow> buffer" where
  "append_chars dat len b = b"

definition append_void :: "byte list \<Rightarrow> size_t \<Rightarrow> buffer \<Rightarrow> buffer" where
  "append_void dat len b = append_chars dat len b"

definition append_string :: "byte list \<Rightarrow> buffer \<Rightarrow> buffer" where
  "append_string str b = append_chars str (of_nat (length str)) b"

definition makeSpace :: "size_t \<Rightarrow> buffer \<Rightarrow> buffer outcome" where
  "makeSpace len b =
     (if writableBytes b + prependableBytes b < len + kCheapPrepend
      then bindO (vector_resize (buffer_data b) (writerIndex b + len)) (\<lambda>xs.
             Inr (b\<lparr>buffer_data := xs\<rparr>))
      else let readable = readableBytes b in
           bindO (load (buffer_data b) (unat (readerIndex b)) (unat readable)) (\<lambda>bytes.
           bindO (store (buffer_data b) (unat kCheapPrepend) bytes) (\<lambda>xs.
             Inr (b\<lparr>buffer_data := xs, readerIndex := kCheapPrepend,
                    writerIndex := kCheapPrepend + readable\<rparr>))))"

definition ensureWritableBytes :: "size_t \<Rightarrow> buffer \<Rightarrow> buffer outcome" where
  "ensureWritableBytes len b = (if writableBytes b < len then makeSpace len b else Inr b)"

definition hasWritten :: "size_t \<Rightarrow> buffer \<Rightarrow> buffer" where
  "hasWritten len b = b\<lparr>writerIndex := writerIndex b + len\<rparr>"

definition prepend :: "byte list \<Rightarrow> buffer \<Rightarrow> buffer outcome" where
  "prepend dat b =
     (let r = readerIndex b - of_nat (length dat) in
      bindO (store (buffer_data b) (unat r) dat) (\<lambda>xs.
        Inr (b\<lparr>buffer_data := xs, readerIndex := r\<rparr>)))"

definition buffer_swap :: "buffer \<Rightarrow> buffer \<Rightarrow> buffer \<times> buffer" where
  "buffer_swap b rhs = (rhs, b)"

definition shrink :: "size_t \<Rightarrow> buffer \<Rightarrow> buffer outcome" where
  "shrink reserve b =
     bindO (vector_new (kCheapPrepend + readableBytes b + reserve)) (\<lambda>buf.
     bindO (peek_bytes b) (\<lambda>bytes.
     bindO (store buf (unat kCheapPrepend) bytes) (\<lambda>xs.
       Inr (b\<lparr>buffer_data := xs\<rparr>))))"

text \<open>
  \<open>readFd\<close>: \<open>readv\<close> scatters what it reads over the writable part of the vector and a
  64 KB array on the stack.  The reply is an \<open>errno\<close> or the bytes read.
\<close>

datatype readv_reply = ReadvError int | ReadvBytes "byte list"

record readFd_result =
  rd_n :: int
  rd_savedErrno :: "int option"
  rd_buffer :: buffer

definition readFd :: "readv_reply \<Rightarrow> buffer \<Rightarrow> readFd_result outcome" where
  "readFd reply b =
     (let writable = writableBytes b in
      bindO (guardO (writerIndex b \<le> vector_size b)) (\<lambda>_.
      case reply of
        ReadvError e \<Rightarrow> Inr \<lparr>rd_n = - 1, rd_savedErrno = Some e, rd_buffer = b\<rparr>
      | ReadvBytes bytes \<Rightarrow>
          let n = length bytes in
          bindO (guardO (n \<le> unat writable + 65536)) (\<lambda>_.
          bindO (store (buffer_data b) (unat (writerIndex b)) (take (unat writable) bytes)) (\<lambda>xs.
            let b1 = b\<lparr>buffer_data := xs\<rparr> in
            Inr \<lparr>rd_n = int n, rd_savedErrno = None,
                 rd_buffer =
                   (if n \<le> unat writable then b1\<lparr>writerIndex := writerIndex b1 + of_nat n\<rparr>
                    else append_chars (drop (unat writable) bytes) (of_nat n - writable)
                           (b1\<lparr>writerIndex := vector_size b1\<rparr>))\<rparr>))))"

section \<open>Well-formed buffers and their contents\<close>

text \<open>
  The layout the class is designed around: prependable, readable and writable bytes, in this
  order.  \<open>contents\<close> is the abstract value, the queue of bytes waiting to be read.
\<close>

definition wf_buffer :: "buffer \<Rightarrow> bool" where
  "wf_buffer b \<longleftrightarrow>
     readerIndex b \<le> writerIndex b \<and> unat (writerIndex b) \<le> length (buffer_data b) \<and>
     8 \<le> length (buffer_data b) \<and> length (buffer_data b) < 2 ^ 63"

definition contents :: "buffer \<Rightarrow> byte list" where
  "contents b = take (unat (writerIndex b) - unat (readerIndex b))
                     (drop (unat (readerIndex b)) (buffer_data b))"

lemma wf_bufferD:
  assumes "wf_buffer b"
  shows "unat (readerIndex b) \<le> unat (writerIndex b)"
    and "unat (writerIndex b) \<le> length (buffer_data b)" and "length (buffer_data b) < 2 ^ 63"
    and "8 \<le> length (buffer_data b)"
  using assms by (simp_all add: wf_buffer_def word_le_nat_alt)

lemma unat_small [simp]: "n < 2 ^ 63 \<Longrightarrow> unat (of_nat n :: size_t) = n"
  by (simp add: unat_of_nat take_bit_nat_eq_self)

lemma unat_vector_size: "wf_buffer b \<Longrightarrow> unat (vector_size b) = length (buffer_data b)"
  unfolding vector_size_def by (rule unat_small [OF wf_bufferD(3)])

lemma unat_readable:
  "wf_buffer b \<Longrightarrow> unat (readableBytes b) = unat (writerIndex b) - unat (readerIndex b)"
  by (simp add: readableBytes_def wf_buffer_def unat_sub)

lemma unat_writable:
  assumes "wf_buffer b"
  shows "unat (writableBytes b) = length (buffer_data b) - unat (writerIndex b)"
proof -
  have "writerIndex b \<le> vector_size b"
    using assms by (simp add: word_le_nat_alt unat_vector_size wf_bufferD)
  then show ?thesis by (simp add: writableBytes_def unat_sub unat_vector_size assms)
qed

lemma length_contents: "wf_buffer b \<Longrightarrow> length (contents b) = unat (readableBytes b)"
  using wf_bufferD [of b] by (simp add: contents_def unat_readable)

lemma readable_zero: "wf_buffer b \<Longrightarrow> readableBytes b = 0 \<longleftrightarrow> contents b = []"
  using length_contents [of b] by (simp add: unat_eq_zero flip: length_0_conv)

lemma peek_bytes_contents: "wf_buffer b \<Longrightarrow> peek_bytes b = Inr (contents b)"
  using wf_bufferD [of b]
  by (simp add: peek_bytes_def peek_def load_def unat_readable contents_def)

lemma wf_bufferI:
  "unat (readerIndex b) \<le> unat (writerIndex b) \<Longrightarrow> unat (writerIndex b) \<le> length (buffer_data b) \<Longrightarrow>
   8 \<le> length (buffer_data b) \<Longrightarrow> length (buffer_data b) < 2 ^ 63 \<Longrightarrow> wf_buffer b"
  by (simp add: wf_buffer_def word_le_nat_alt)

lemma unat_add_small:
  "unat x + unat y < 2 ^ 64 \<Longrightarrow> unat (x + y :: size_t) = unat x + unat y"
  using unat_add_lem [of x y] by simp

lemma load_conv [outcome_simps]:
  "load xs off n = Inr ys \<longleftrightarrow> off + n \<le> length xs \<and> ys = take n (drop off xs)"
  by (auto simp: load_def)

lemma store_conv [outcome_simps]:
  "store xs off ys = Inr zs \<longleftrightarrow>
     off + length ys \<le> length xs \<and> zs = take off xs @ ys @ drop (off + length ys) xs"
  by (auto simp: store_def)

lemma drop_store:
  "off + length ys \<le> length xs \<Longrightarrow>
   drop off (take off xs @ ys @ drop (off + length ys) xs) = ys @ drop (off + length ys) xs"
  by simp

section \<open>Each operation on a well-formed buffer\<close>

lemma retrieve_wf:
  assumes wf: "wf_buffer b" and len: "len \<le> readableBytes b"
  shows "wf_buffer (retrieve len b)" and "contents (retrieve len b) = drop (unat len) (contents b)"
proof -
  note D = wf_bufferD [OF wf]
  have l: "unat len \<le> unat (writerIndex b) - unat (readerIndex b)"
    using len by (simp add: word_le_nat_alt unat_readable wf)
  then have r: "unat (readerIndex b + len) = unat (readerIndex b) + unat len"
    using D by (intro unat_add_small) auto
  show "wf_buffer (retrieve len b)"
    using D l r by (intro wf_bufferI) (auto simp: retrieve_def)
  show "contents (retrieve len b) = drop (unat len) (contents b)"
    using l r by (simp add: contents_def retrieve_def drop_take add.commute)
qed

lemma unat_kCheapPrepend [simp]: "unat kCheapPrepend = 8"
  by (simp add: kCheapPrepend_def)

lemma retrieveAll_wf:
  assumes "8 \<le> length (buffer_data b)" "length (buffer_data b) < 2 ^ 63"
  shows "wf_buffer (retrieveAll b)" and "contents (retrieveAll b) = []"
  using assms by (auto intro: wf_bufferI simp: retrieveAll_def contents_def)

lemma vector_new_conv [outcome_simps]:
  "vector_new n = Inr xs \<longleftrightarrow> unat n < 2 ^ 63 \<and> xs = replicate (unat n) 0"
  "vector_new n = Inl e \<longleftrightarrow> \<not> unat n < 2 ^ 63 \<and> e = Abort"
  by (auto simp: vector_new_def)

lemma makeSpace_wf:
  assumes wf: "wf_buffer b" and len: "unat len < 2 ^ 62" "writableBytes b < len"
  shows "upheld (makeSpace len b) (\<lambda>b'. wf_buffer b' \<and> contents b' = contents b \<and> len \<le> writableBytes b')"
proof -
  note D = wf_bufferD [OF wf]
  let ?r = "unat (readerIndex b)" and ?w = "unat (writerIndex b)" and ?n = "length (buffer_data b)"
  have free: "unat (writableBytes b + prependableBytes b) = ?n - ?w + ?r"
    using D by (subst unat_add_small) (auto simp: unat_writable wf prependableBytes_def)
  have need: "unat (len + kCheapPrepend) = unat len + 8"
    using len(1) by (subst unat_add_small) auto
  have short: "?n - ?w < unat len" using len(2) by (simp add: word_less_nat_alt unat_writable wf)
  show ?thesis
  proof (cases "writableBytes b + prependableBytes b < len + kCheapPrepend")
    case True
    let ?m = "?w + unat len"
    have m: "unat (writerIndex b + len) = ?m"
      using D len(1) by (intro unat_add_small) auto
    let ?b = "b\<lparr>buffer_data := buffer_data b @ replicate (?m - ?n) 0\<rparr>"
    have le: "?n \<le> ?m" using short D(2) by simp
    have "upheld (Inr ?b) (\<lambda>b'. wf_buffer b' \<and> contents b' = contents b \<and> len \<le> writableBytes b')"
      if big: "?m < 2 ^ 63"
    proof -
      have wf': "wf_buffer ?b" using D le big by (intro wf_bufferI) auto
      have "contents ?b = contents b" using D by (simp add: contents_def)
      moreover have "len \<le> writableBytes ?b"
        using le by (simp add: word_le_nat_alt unat_writable wf')
      ultimately show ?thesis using wf' by simp
    qed
    with True m le show ?thesis by (simp add: makeSpace_def vector_resize_def)
  next
    case False
    then have r: "8 < ?r" using free need short by (simp add: word_less_nat_alt)
    let ?xs = "take 8 (buffer_data b) @ contents b @ drop (8 + length (contents b)) (buffer_data b)"
    let ?b = "b\<lparr>buffer_data := ?xs, readerIndex := 8, writerIndex := 8 + readableBytes b\<rparr>"
    have c: "length (contents b) = ?w - ?r" by (simp add: length_contents unat_readable wf)
    have w': "unat (8 + readableBytes b) = 8 + (?w - ?r)"
      using D by (subst unat_add_small) (auto simp: unat_readable wf)
    have len': "length ?xs = ?n" using D r c by simp
    have wf': "wf_buffer ?b" using D r w' len' by (intro wf_bufferI) auto
    have "contents ?b = contents b" using w' c r D by (simp add: contents_def)
    moreover have "len \<le> writableBytes ?b"
      using False D w' free need len'
      by (simp add: word_le_nat_alt word_less_nat_alt unat_writable wf')
    moreover have "makeSpace len b = Inr ?b"
      using False D r c peek_bytes_contents [OF wf]
      by (simp add: makeSpace_def Let_def peek_bytes_def peek_def store_def kCheapPrepend_def)
    ultimately show ?thesis using wf' by simp
  qed
qed

lemma prepend_wf:
  assumes wf: "wf_buffer b" and len: "length dat \<le> unat (prependableBytes b)"
  shows "\<exists>b'. prepend dat b = Inr b' \<and> wf_buffer b' \<and> contents b' = dat @ contents b"
proof -
  note D = wf_bufferD [OF wf]
  let ?r = "unat (readerIndex b)" and ?w = "unat (writerIndex b)"
  have l: "length dat \<le> ?r" using len by (simp add: prependableBytes_def)
  have "unat (of_nat (length dat) :: size_t) = length dat" using l D by (intro unat_small) simp
  then have r: "unat (readerIndex b - of_nat (length dat)) = ?r - length dat"
    using l by (subst unat_sub) (simp_all add: word_le_nat_alt)
  let ?xs = "take (?r - length dat) (buffer_data b) @ dat @ drop ?r (buffer_data b)"
  let ?b = "b\<lparr>buffer_data := ?xs, readerIndex := readerIndex b - of_nat (length dat)\<rparr>"
  have p: "prepend dat b = Inr ?b" using l D r by (simp add: prepend_def Let_def store_def)
  have len': "length ?xs = length (buffer_data b)" using l D by simp
  have "wf_buffer ?b" using D l r len' by (intro wf_bufferI) auto
  moreover have "contents ?b = dat @ contents b"
    using l D r by (simp add: contents_def)
  ultimately show ?thesis using p by blast
qed

lemma readFd_wf:
  assumes wf: "wf_buffer b" and len: "length bs \<le> unat (writableBytes b) + 65536"
  shows "\<exists>res. readFd (ReadvBytes bs) b = Inr res \<and> rd_n res = int (length bs) \<and>
    rd_savedErrno res = None \<and> wf_buffer (rd_buffer res) \<and>
    contents (rd_buffer res) = contents b @ take (unat (writableBytes b)) bs"
proof -
  note D = wf_bufferD [OF wf]
  let ?r = "unat (readerIndex b)" and ?w = "unat (writerIndex b)" and ?n = "length (buffer_data b)"
  let ?k = "min (length bs) (?n - ?w)"
  have wr: "unat (writableBytes b) = ?n - ?w" by (rule unat_writable [OF wf])
  let ?got = "take (?n - ?w) bs"
  let ?xs = "take ?w (buffer_data b) @ ?got @ drop (?w + ?k) (buffer_data b)"
  let ?b1 = "b\<lparr>buffer_data := ?xs\<rparr>"
  let ?b' = "?b1\<lparr>writerIndex := of_nat (?w + ?k)\<rparr>"
  have len': "length ?xs = ?n" using D by simp
  have lt: "?w + ?k < 2 ^ 63" using D by simp
  have w': "unat (of_nat (?w + ?k) :: size_t) = ?w + ?k" using lt by (rule unat_small)
  have in_bounds: "writerIndex b \<le> vector_size b"
    using D by (simp add: word_le_nat_alt unat_vector_size wf)
  have st: "store (buffer_data b) ?w ?got = Inr ?xs"
    using D by (simp add: store_def min.commute)
  have b': "(if length bs \<le> ?n - ?w then ?b1\<lparr>writerIndex := writerIndex ?b1 + of_nat (length bs)\<rparr>
        else ?b1\<lparr>writerIndex := vector_size ?b1\<rparr>) = ?b'"
    using D len' by (auto simp: vector_size_def min_def)
  have "wf_buffer ?b'" using D len' w' by (intro wf_bufferI) auto
  moreover have "contents ?b' = contents b @ ?got"
  proof -
    have "take ?k bs = ?got" by (simp add: min_def)
    moreover have "?w + ?k - ?r = (?w - ?r) + ?k" using D by simp
    ultimately show ?thesis
      using D unfolding contents_def by (simp add: w' drop_take del: of_nat_add)
  qed
  moreover have "readFd (ReadvBytes bs) b = Inr \<lparr>rd_n = int (length bs), rd_savedErrno = None, rd_buffer = ?b'\<rparr>"
    unfolding b' [symmetric] using in_bounds len st
    by (simp add: readFd_def Let_def wr append_chars_def)
  ultimately show ?thesis unfolding wr by simp
qed

lemma shrink_result:
  assumes wf: "wf_buffer b" and room: "8 + unat (readableBytes b) + unat reserve < 2 ^ 63"
  shows "shrink reserve b = Inr (b\<lparr>buffer_data := replicate 8 0 @ contents b @ replicate (unat reserve) 0\<rparr>)"
proof -
  have 1: "unat (kCheapPrepend + readableBytes b) = 8 + unat (readableBytes b)"
    using room by (subst unat_add_small) auto
  have 2: "unat (kCheapPrepend + readableBytes b + reserve) = 8 + unat (readableBytes b) + unat reserve"
    using room 1 by (subst unat_add_small) auto
  have c: "length (contents b) = unat (readableBytes b)" by (rule length_contents [OF wf])
  have "store (replicate (8 + unat (readableBytes b) + unat reserve) 0) 8 (contents b)
      = Inr (replicate 8 0 @ contents b @ replicate (unat reserve) 0)"
    using c by (simp add: store_def del: replicate.simps)
  then show ?thesis
    using 2 room peek_bytes_contents [OF wf] by (simp add: shrink_def vector_new_def del: replicate.simps)
qed

text \<open>
  What a client that drains the buffer relies on: the count of readable bytes, and that taking
  \<open>n\<close> of them leaves the rest in order.
\<close>

locale byte_source =
  fixes wf :: "'b \<Rightarrow> bool"
    and bytes :: "'b \<Rightarrow> byte list"
    and readable :: "'b \<Rightarrow> nat"
    and consume :: "nat \<Rightarrow> 'b \<Rightarrow> 'b"
  assumes readable_bytes: "wf b \<Longrightarrow> readable b = length (bytes b)"
    and consume_wf: "wf b \<Longrightarrow> n \<le> readable b \<Longrightarrow> wf (consume n b)"
    and consume_bytes: "wf b \<Longrightarrow> n \<le> readable b \<Longrightarrow> bytes (consume n b) = drop n (bytes b)"
begin

lemma consume_run:
  "wf b \<Longrightarrow> sum_list ns \<le> readable b \<Longrightarrow>
   wf (fold consume ns b) \<and> bytes (fold consume ns b) = drop (sum_list ns) (bytes b)"
proof (induction ns arbitrary: b)
  case Nil
  then show ?case by simp
next
  case (Cons n ns)
  then have n: "n \<le> readable b" by simp
  have "sum_list ns \<le> readable (consume n b)"
    using Cons.prems n by (simp add: readable_bytes consume_wf consume_bytes)
  with Cons.IH [OF consume_wf [OF Cons.prems(1) n]] Cons.prems n
  show ?case by (simp add: consume_bytes add.commute)
qed

lemma consume_everything: "wf b \<Longrightarrow> bytes (consume (readable b) b) = []"
  by (simp add: consume_bytes readable_bytes)

end

definition take_out :: "nat \<Rightarrow> buffer \<Rightarrow> buffer" where
  "take_out n b = retrieve (of_nat n) b"

lemma readable_lt: "wf_buffer b \<Longrightarrow> unat (readableBytes b) < 2 ^ 63"
  using wf_bufferD [of b] by (simp add: unat_readable)

interpretation bufq: byte_source wf_buffer contents "\<lambda>b. unat (readableBytes b)" take_out
proof
  fix b n
  assume wf: "wf_buffer b"
  show "unat (readableBytes b) = length (contents b)" by (simp add: length_contents wf)
  assume n: "n \<le> unat (readableBytes b)"
  then have u: "unat (of_nat n :: size_t) = n"
    using readable_lt [OF wf] by (intro unat_small) simp
  with n have le: "of_nat n \<le> readableBytes b" by (simp add: word_le_nat_alt)
  show "wf_buffer (take_out n b)" "contents (take_out n b) = drop n (contents b)"
    using retrieve_wf [OF wf le] u by (simp_all add: take_out_def)
qed

section \<open>Properties of the buffer\<close>

definition demo_buffer :: buffer where
  "demo_buffer =
     \<lparr>buffer_data = replicate 8 0 @ [1, 2, 3] @ replicate 1021 0, readerIndex = 9, writerIndex = 11\<rparr>"

lemma demo_buffer_wf: "wf_buffer demo_buffer"
  by (simp add: wf_buffer_def demo_buffer_def)

lemma demo_buffer_contents: "contents demo_buffer = [2, 3]"
  by (simp add: contents_def demo_buffer_def take_Cons' drop_Cons' del: replicate.simps)

text \<open>
  \<open>ensureWritableBytes(len)\<close> makes room without disturbing the data: afterwards at least
  \<open>len\<close> bytes are writable and the readable bytes are the same, whether there was room
  already, the data was moved to the front or the vector grew; it never leaves the vector.
\<close>

theorem ensureWritableBytes_makes_room:
  assumes "wf_buffer b" and "unat len < 2 ^ 62"
  shows "upheld (ensureWritableBytes len b)
    (\<lambda>b'. wf_buffer b' \<and> contents b' = contents b \<and> len \<le> writableBytes b')"
  using assms makeSpace_wf [OF assms] by (auto simp: ensureWritableBytes_def not_less)

theorem ensureWritableBytes_makes_room_witness:
  "upheld (ensureWritableBytes 5000 demo_buffer) (\<lambda>b'. contents b' = [2, 3] \<and> 5000 \<le> writableBytes b')"
  by (rule upheld_mono [OF ensureWritableBytes_makes_room [OF demo_buffer_wf]])
    (simp_all add: demo_buffer_contents)

text \<open>
  Reading takes bytes from the front in order: however the readable bytes are consumed
  in pieces, what remains is the rest of the queue, and \<open>retrieveAsString\<close> returns all of it
  and leaves an empty buffer.
\<close>

theorem buffer_reads_in_order:
  assumes wf: "wf_buffer b" and ns: "sum_list ns \<le> unat (readableBytes b)"
  shows "\<exists>b'. retrieveAsString (fold take_out ns b) = Inr (drop (sum_list ns) (contents b), b') \<and>
    wf_buffer b' \<and> contents b' = []"
proof -
  let ?b = "fold take_out ns b"
  from bufq.consume_run [OF wf ns]
  have b: "wf_buffer ?b" "contents ?b = drop (sum_list ns) (contents b)" by auto
  then show ?thesis
    using retrieveAll_wf [of ?b] wf_bufferD [OF b(1)]
    by (simp add: retrieveAsString_def peek_bytes_contents)
qed

theorem buffer_reads_in_order_witness:
  "\<exists>b'. retrieveAsString (fold take_out [1] demo_buffer) = Inr ([3], b')"
proof -
  have "sum_list [1] \<le> unat (readableBytes demo_buffer)"
    by (simp add: unat_readable demo_buffer_wf) (simp add: demo_buffer_def)
  from buffer_reads_in_order [OF demo_buffer_wf this] show ?thesis
    by (auto simp: demo_buffer_contents)
qed

text \<open>
  \<open>prepend\<close> puts its bytes in front of the readable ones, and taking them off again
  gives back the buffer's contents.
\<close>

theorem prepend_retrieve_roundtrip:
  assumes wf: "wf_buffer b" and len: "length dat \<le> unat (prependableBytes b)"
  shows "\<exists>b'. prepend dat b = Inr b' \<and> wf_buffer b' \<and> contents b' = dat @ contents b \<and>
    contents (take_out (length dat) b') = contents b"
proof -
  obtain b' where b': "prepend dat b = Inr b'" "wf_buffer b'" "contents b' = dat @ contents b"
    using prepend_wf [OF wf len] by blast
  then have "contents (take_out (length dat) b') = contents b"
    using bufq.consume_bytes [OF b'(2), of "length dat"] bufq.readable_bytes [OF b'(2)] by simp
  with b' show ?thesis by blast
qed

theorem prepend_retrieve_roundtrip_witness:
  "\<exists>b'. prepend [7, 8] demo_buffer = Inr b' \<and> contents b' = [7, 8, 2, 3]"
proof -
  have "length [7 :: byte, 8] \<le> unat (prependableBytes demo_buffer)"
    by (simp add: prependableBytes_def demo_buffer_def)
  from prepend_retrieve_roundtrip [OF demo_buffer_wf this] show ?thesis
    by (auto simp: demo_buffer_contents)
qed

text \<open>
  \<open>readFd\<close> appends to the readable bytes those that fit into the vector, in order; it
  reports the whole count, but the bytes that \<open>readv\<close> put into the extra array are lost,
  because \<open>append\<close> has an empty body.
\<close>

theorem readFd_keeps_only_what_fits:
  assumes "wf_buffer b" and "length bs \<le> unat (writableBytes b) + 65536"
  shows "\<exists>res. readFd (ReadvBytes bs) b = Inr res \<and> rd_n res = int (length bs) \<and>
    wf_buffer (rd_buffer res) \<and>
    contents (rd_buffer res) = contents b @ take (unat (writableBytes b)) bs \<and>
    length (contents (rd_buffer res)) + (length bs - unat (writableBytes b))
      = length (contents b) + length bs"
  using readFd_wf [OF assms] by auto

theorem readFd_keeps_only_what_fits_witness:
  "\<exists>res. readFd (ReadvBytes [4, 5]) demo_buffer = Inr res \<and> contents (rd_buffer res) = [2, 3, 4, 5]"
proof -
  have w: "unat (writableBytes demo_buffer) = 1021"
    by (simp add: unat_writable demo_buffer_wf) (simp add: demo_buffer_def)
  have "length [4 :: byte, 5] \<le> unat (writableBytes demo_buffer) + 65536" by simp
  from readFd_keeps_only_what_fits [OF demo_buffer_wf this] w show ?thesis
    by (auto simp: demo_buffer_contents)
qed

text \<open>
  \<open>shrink\<close> moves the data to the front of a vector of the right size but leaves the two
  indices where they were: the result is well formed only if at most \<open>reserve\<close> bytes had
  been retrieved, and then the contents are preserved only if none had.
\<close>

theorem shrink_forgets_indices:
  assumes wf: "wf_buffer b" and room: "8 + unat (readableBytes b) + unat reserve < 2 ^ 63"
  shows "\<exists>b'. shrink reserve b = Inr b' \<and>
    readerIndex b' = readerIndex b \<and> writerIndex b' = writerIndex b \<and>
    (wf_buffer b' \<longleftrightarrow> unat (readerIndex b) \<le> 8 + unat reserve) \<and>
    (readerIndex b = 8 \<longrightarrow> contents b' = contents b)"
proof -
  note D = wf_bufferD [OF wf]
  let ?b = "b\<lparr>buffer_data := replicate 8 0 @ contents b @ replicate (unat reserve) 0\<rparr>"
  have c: "length (contents b) = unat (writerIndex b) - unat (readerIndex b)"
    by (simp add: length_contents unat_readable wf)
  have "wf_buffer ?b \<longleftrightarrow> unat (readerIndex b) \<le> 8 + unat reserve"
    using D c room by (auto simp: wf_buffer_def word_le_nat_alt unat_readable wf)
  moreover have "readerIndex b = 8 \<longrightarrow> contents ?b = contents b"
    using c D length_contents [OF wf] by (simp add: contents_def [of ?b] unat_readable wf)
  ultimately show ?thesis using shrink_result [OF wf room] by auto
qed

theorem shrink_forgets_indices_witness:
  "\<exists>b'. shrink 0 demo_buffer = Inr b' \<and> \<not> wf_buffer b'"
proof -
  have "8 + unat (readableBytes demo_buffer) + unat (0 :: size_t) < 2 ^ 63"
    by (simp add: unat_readable demo_buffer_wf) (simp add: demo_buffer_def)
  from shrink_forgets_indices [OF demo_buffer_wf this] show ?thesis
    by (auto simp: demo_buffer_def)
qed

text \<open>
  A new buffer is only as good as the memory it is built in: its indices are never
  initialised, so it is well formed exactly when the values found there happen to be in order
  and inside the vector, and otherwise the first read can leave the vector.
\<close>

theorem buffer_new_indices_unspecified:
  "\<exists>b. buffer_new r0 w0 = Inr b \<and> (wf_buffer b \<longleftrightarrow> r0 \<le> w0 \<and> w0 \<le> 1032) \<and>
     (retrieveAsString b = Inl UB \<longleftrightarrow> 1032 < unat r0 + unat (w0 - r0))"
  by (auto simp: buffer_new_def vector_new_def kCheapPrepend_def kInitialSize_def wf_buffer_def
      retrieveAsString_def peek_bytes_def load_def peek_def readableBytes_def word_le_nat_alt
      simp del: replicate.simps)

end
