(* ===== verification/Channels.thy ===== *)
theory Channels
  imports Timestamps
begin

text \<open>
  \<open>Channel.h\<close>, \<open>Channel.cc\<close>: a file descriptor with the events the loop waits for, the events
  that occurred, and four callbacks.

  A callback is a value of a type \<open>'cb\<close>; what calling it does to the world \<open>'s\<close> is a
  parameter \<open>invoke\<close> of \<open>handleEvent\<close>, because it is the code of the channel's owner.  The
  channel object itself lives in that world: \<open>get\<close> finds it (not at all once it has been
  destroyed) and \<open>upd\<close> changes it.  The part of the flag setters that stores into \<open>events_\<close>
  is here; the \<open>update()\<close> they end with is in the poller's theory.
\<close>

unbundle bit_operations_syntax

section \<open>Event masks\<close>

type_synonym flags = "32 word"

definition POLLIN :: flags where "POLLIN = 0x1"
definition POLLPRI :: flags where "POLLPRI = 0x2"
definition POLLOUT :: flags where "POLLOUT = 0x4"
definition POLLERR :: flags where "POLLERR = 0x8"
definition POLLHUP :: flags where "POLLHUP = 0x10"
definition POLLNVAL :: flags where "POLLNVAL = 0x20"
definition POLLRDHUP :: flags where "POLLRDHUP = 0x2000"

lemmas poll_bits = POLLIN_def POLLPRI_def POLLOUT_def POLLERR_def POLLHUP_def POLLNVAL_def
  POLLRDHUP_def

definition kNoneEvent :: flags where
  "kNoneEvent = 0"

definition kReadEvent :: flags where
  "kReadEvent = POLLPRI OR POLLIN"

definition kWriteEvent :: flags where
  "kWriteEvent = POLLOUT"

lemmas event_masks = kNoneEvent_def kReadEvent_def kWriteEvent_def

section \<open>The channel\<close>

record 'cb channel =
  index :: int
  fd :: int
  eventHandling :: bool
  events :: flags
  revents :: flags
  readCallback :: "'cb option"
  writeCallback :: "'cb option"
  errorCallback :: "'cb option"
  closeCallback :: "'cb option"

definition channel_new :: "int \<Rightarrow> 'cb channel" where
  "channel_new sockfd =
     \<lparr>index = - 1, fd = sockfd, eventHandling = False, events = 0, revents = 0,
      readCallback = None, writeCallback = None, errorCallback = None, closeCallback = None\<rparr>"

definition set_revents :: "flags \<Rightarrow> 'cb channel \<Rightarrow> 'cb channel" where
  "set_revents revt c = c\<lparr>revents := revt\<rparr>"

definition set_index :: "int \<Rightarrow> 'cb channel \<Rightarrow> 'cb channel" where
  "set_index i c = c\<lparr>index := i\<rparr>"

definition want_reading :: "'cb channel \<Rightarrow> 'cb channel" where
  "want_reading c = c\<lparr>events := events c OR kReadEvent\<rparr>"

definition want_writing :: "'cb channel \<Rightarrow> 'cb channel" where
  "want_writing c = c\<lparr>events := events c OR kWriteEvent\<rparr>"

definition unwant_writing :: "'cb channel \<Rightarrow> 'cb channel" where
  "unwant_writing c = c\<lparr>events := events c AND NOT kWriteEvent\<rparr>"

definition want_nothing :: "'cb channel \<Rightarrow> 'cb channel" where
  "want_nothing c = c\<lparr>events := kNoneEvent\<rparr>"

definition isWriting :: "'cb channel \<Rightarrow> bool" where
  "isWriting c \<longleftrightarrow> events c AND kWriteEvent \<noteq> 0"

definition isNoneEvent :: "'cb channel \<Rightarrow> bool" where
  "isNoneEvent c \<longleftrightarrow> events c = kNoneEvent"

lemma bit_POLLOUT_iff: "bit POLLOUT n \<longleftrightarrow> n = 2"
proof -
  have "POLLOUT = 2 ^ 2" by (simp add: POLLOUT_def)
  show ?thesis unfolding \<open>POLLOUT = 2 ^ 2\<close> bit_exp_iff by auto
qed

lemma and_POLLOUT: "x AND POLLOUT \<noteq> 0 \<longleftrightarrow> bit x 2"
proof
  assume "bit x 2"
  then have "bit (x AND POLLOUT) 2" by (simp add: bit_and_iff bit_POLLOUT_iff)
  then show "x AND POLLOUT \<noteq> 0" by auto
next
  assume "x AND POLLOUT \<noteq> 0"
  then obtain n where "bit (x AND POLLOUT) n" using bit_word_eqI [of "x AND POLLOUT" 0] by auto
  then show "bit x 2" by (auto simp: bit_and_iff bit_POLLOUT_iff)
qed

lemma POLLOUT_nonzero: "POLLOUT \<noteq> 0"
  by (simp add: POLLOUT_def)

lemma bit_kReadEvent_2: "\<not> bit kReadEvent 2"
proof -
  have "kReadEvent AND POLLOUT = 0" by (simp add: event_masks poll_bits)
  then show ?thesis using and_POLLOUT [of kReadEvent] by simp
qed

lemma isWriting_setters [simp]:
  "isWriting (want_writing c)" "\<not> isWriting (unwant_writing c)" "\<not> isWriting (want_nothing c)"
  "isWriting (want_reading c) = isWriting c"
  using bit_kReadEvent_2 POLLOUT_nonzero
  by (simp_all add: isWriting_def kWriteEvent_def and_POLLOUT want_writing_def unwant_writing_def
      want_nothing_def want_reading_def kNoneEvent_def bit_or_iff bit_and_iff bit_not_iff
      bit_POLLOUT_iff)

section \<open>Dispatching events\<close>

datatype 'cb event_call = OnClose 'cb | OnError 'cb | OnRead 'cb timestamp | OnWrite 'cb

definition stage ::
    "('s \<Rightarrow> 'cb channel option) \<Rightarrow> ('cb event_call \<Rightarrow> 's \<Rightarrow> 's outcome) \<Rightarrow>
     (flags \<Rightarrow> bool) \<Rightarrow> ('cb channel \<Rightarrow> 'cb event_call option) \<Rightarrow> 's \<Rightarrow> 's outcome" where
  "stage get invoke cond slot s =
     (case get s of
        None \<Rightarrow> Inl UB
      | Some c \<Rightarrow>
          if cond (revents c)
          then (case slot c of None \<Rightarrow> Inr s | Some call \<Rightarrow> invoke call s)
          else Inr s)"

definition on_hangup :: "flags \<Rightarrow> bool" where
  "on_hangup r \<longleftrightarrow> r AND POLLHUP \<noteq> 0 \<and> r AND POLLIN = 0"

definition on_error :: "flags \<Rightarrow> bool" where
  "on_error r \<longleftrightarrow> r AND (POLLERR OR POLLNVAL) \<noteq> 0"

definition on_readable :: "flags \<Rightarrow> bool" where
  "on_readable r \<longleftrightarrow> r AND (POLLIN OR POLLPRI OR POLLRDHUP) \<noteq> 0"

definition on_writable :: "flags \<Rightarrow> bool" where
  "on_writable r \<longleftrightarrow> r AND POLLOUT \<noteq> 0"

definition handleEvent ::
    "('s \<Rightarrow> 'cb channel option) \<Rightarrow> (('cb channel \<Rightarrow> 'cb channel) \<Rightarrow> 's \<Rightarrow> 's) \<Rightarrow>
     ('cb event_call \<Rightarrow> 's \<Rightarrow> 's outcome) \<Rightarrow> timestamp \<Rightarrow> 's \<Rightarrow> 's outcome" where
  "handleEvent get upd invoke receiveTime s =
     bindO (guardO (get s \<noteq> None)) (\<lambda>_.
     bindO (stage get invoke on_hangup (\<lambda>c. map_option OnClose (closeCallback c))
              (upd (eventHandling_update (\<lambda>_. True)) s)) (\<lambda>s1.
     bindO (stage get invoke on_error (\<lambda>c. map_option OnError (errorCallback c)) s1) (\<lambda>s2.
     bindO (stage get invoke on_readable
              (\<lambda>c. map_option (\<lambda>cb. OnRead cb receiveTime) (readCallback c)) s2) (\<lambda>s3.
     bindO (stage get invoke on_writable (\<lambda>c. map_option OnWrite (writeCallback c)) s3) (\<lambda>s4.
     bindO (guardO (get s4 \<noteq> None)) (\<lambda>_.
       Inr (upd (eventHandling_update (\<lambda>_. False)) s4)))))))"

text \<open>The calls that an event mask asks for, in the order they are made.\<close>

definition dispatch :: "timestamp \<Rightarrow> 'cb channel \<Rightarrow> 'cb event_call list" where
  "dispatch t c =
     (if on_hangup (revents c) then map OnClose (case closeCallback c of None \<Rightarrow> [] | Some x \<Rightarrow> [x])
      else []) @
     (if on_error (revents c) then map OnError (case errorCallback c of None \<Rightarrow> [] | Some x \<Rightarrow> [x])
      else []) @
     (if on_readable (revents c)
      then map (\<lambda>x. OnRead x t) (case readCallback c of None \<Rightarrow> [] | Some x \<Rightarrow> [x]) else []) @
     (if on_writable (revents c)
      then map OnWrite (case writeCallback c of None \<Rightarrow> [] | Some x \<Rightarrow> [x]) else [])"

fun run_calls :: "('c \<Rightarrow> 's \<Rightarrow> 's outcome) \<Rightarrow> 'c list \<Rightarrow> 's \<Rightarrow> 's outcome" where
  "run_calls invoke [] s = Inr s"
| "run_calls invoke (c # cs) s = bindO (invoke c s) (run_calls invoke cs)"

lemma run_calls_append:
  "run_calls invoke (cs @ ds) s = bindO (run_calls invoke cs s) (run_calls invoke ds)"
proof (induction cs arbitrary: s)
  case (Cons c cs)
  then show ?case by (cases "invoke c s") simp_all
qed simp

lemma run_calls_Nil [simp]: "run_calls invoke [] = Inr"
  by (rule ext) simp

text \<open>
  The interface between a channel and its owner: the channel can be found and changed in the
  owner's world, and the callbacks neither destroy it nor touch the fields that drive the
  dispatch.
\<close>

definition same_dispatch :: "'cb channel \<Rightarrow> 'cb channel \<Rightarrow> bool" where
  "same_dispatch c c' \<longleftrightarrow>
     revents c' = revents c \<and> readCallback c' = readCallback c \<and>
     writeCallback c' = writeCallback c \<and> errorCallback c' = errorCallback c \<and>
     closeCallback c' = closeCallback c"

lemma same_dispatch_refl [simp]: "same_dispatch c c"
  by (simp add: same_dispatch_def)

lemma same_dispatch_trans: "same_dispatch a b \<Longrightarrow> same_dispatch b c \<Longrightarrow> same_dispatch a c"
  by (simp add: same_dispatch_def)

locale channel_owner =
  fixes get :: "'s \<Rightarrow> 'cb channel option"
    and upd :: "('cb channel \<Rightarrow> 'cb channel) \<Rightarrow> 's \<Rightarrow> 's"
    and invoke :: "'cb event_call \<Rightarrow> 's \<Rightarrow> 's outcome"
  assumes get_upd: "get s = Some c \<Longrightarrow> get (upd f s) = Some (f c)"
    and invoke_keeps: "get s = Some c \<Longrightarrow> invoke call s = Inr s' \<Longrightarrow>
      \<exists>c'. get s' = Some c' \<and> same_dispatch c c'"
begin

lemma stage_run:
  assumes "get s = Some c'" and "same_dispatch c c'"
    and "\<And>c'. same_dispatch c c' \<Longrightarrow> slot c' = slot c"
  shows "stage get invoke cond slot s =
    run_calls invoke (if cond (revents c) then (case slot c of None \<Rightarrow> [] | Some k \<Rightarrow> [k]) else []) s"
  using assms(1,2) assms(3) [OF assms(2)]
  by (cases "slot c") (auto simp: stage_def same_dispatch_def)

lemma run_calls_keeps:
  "get s = Some c' \<Longrightarrow> same_dispatch c c' \<Longrightarrow> run_calls invoke cs s = Inr s' \<Longrightarrow>
   \<exists>c''. get s' = Some c'' \<and> same_dispatch c c''"
proof (induction cs arbitrary: s c')
  case Nil
  then show ?case by auto
next
  case (Cons k cs)
  then obtain s1 where s1: "invoke k s = Inr s1" "run_calls invoke cs s1 = Inr s'"
    by (auto simp: outcome_simps)
  with invoke_keeps [OF Cons.prems(1) s1(1)] Cons show ?case
    by (blast intro: same_dispatch_trans)
qed

lemma stage_then:
  assumes "get s = Some c'" and "same_dispatch c c'"
    and "\<And>c'. same_dispatch c c' \<Longrightarrow> slot c' = slot c"
    and "ks = (if cond (revents c) then (case slot c of None \<Rightarrow> [] | Some k \<Rightarrow> [k]) else [])"
    and "\<And>s' c''. get s' = Some c'' \<Longrightarrow> same_dispatch c c'' \<Longrightarrow> f s' = bindO (run_calls invoke ls s') g"
  shows "bindO (stage get invoke cond slot s) f = bindO (run_calls invoke (ks @ ls) s) g"
proof -
  have st: "stage get invoke cond slot s = run_calls invoke ks s"
    unfolding assms(4) by (rule stage_run [OF assms(1,2)]) (rule assms(3))
  show ?thesis
  proof (cases "run_calls invoke ks s")
    case (Inl e)
    then show ?thesis unfolding st run_calls_append by simp
  next
    case (Inr s')
    obtain c'' where "get s' = Some c''" "same_dispatch c c''"
      using run_calls_keeps [OF assms(1,2) Inr] by blast
    then have "f s' = bindO (run_calls invoke ls s') g" by (rule assms(5))
    then show ?thesis unfolding st run_calls_append Inr by simp
  qed
qed

lemma handleEvent_dispatch:
  assumes c: "get s = Some c"
  shows "handleEvent get upd invoke t s =
    bindO (run_calls invoke (dispatch t c) (upd (eventHandling_update (\<lambda>_. True)) s))
      (\<lambda>s'. Inr (upd (eventHandling_update (\<lambda>_. False)) s'))"
    (is "_ = bindO (run_calls _ _ ?s0) ?g")
proof -
  note sd = same_dispatch_def
  have 0: "get ?s0 = Some (eventHandling_update (\<lambda>_. True) c)"
    "same_dispatch c (eventHandling_update (\<lambda>_. True) c)"
    using get_upd [OF c] by (auto simp: sd)
  let ?ks = "\<lambda>cond slot. if cond (revents c)
    then (case slot c of None \<Rightarrow> [] | Some k \<Rightarrow> [k]) else []"
  let ?hup = "\<lambda>c. map_option OnClose (closeCallback c)"
  let ?err = "\<lambda>c. map_option OnError (errorCallback c)"
  let ?rd = "\<lambda>c. map_option (\<lambda>cb. OnRead cb t) (readCallback c)"
  let ?wr = "\<lambda>c. map_option OnWrite (writeCallback c)"
  let ?W = "?ks on_writable ?wr @ []"
  let ?R = "?ks on_readable ?rd @ ?W"
  let ?E = "?ks on_error ?err @ ?R"
  let ?f5 = "\<lambda>s4. bindO (guardO (get s4 \<noteq> None)) (\<lambda>_. ?g s4)"
  let ?f4 = "\<lambda>s3. bindO (stage get invoke on_writable ?wr s3) ?f5"
  let ?f3 = "\<lambda>s2. bindO (stage get invoke on_readable ?rd s2) ?f4"
  let ?f2 = "\<lambda>s1. bindO (stage get invoke on_error ?err s1) ?f3"
  have 5: "?f5 s' = bindO (run_calls invoke [] s') ?g" if "get s' = Some c'" for s' c'
    using that by simp
  have 4: "?f4 s' = bindO (run_calls invoke ?W s') ?g"
    if "get s' = Some c'" "same_dispatch c c'" for s' c'
    by (rule stage_then [OF that _ refl 5]) (auto simp: sd)
  have 3: "?f3 s' = bindO (run_calls invoke ?R s') ?g"
    if "get s' = Some c'" "same_dispatch c c'" for s' c'
    by (rule stage_then [OF that _ refl 4]) (auto simp: sd)
  have 2: "?f2 s' = bindO (run_calls invoke ?E s') ?g"
    if "get s' = Some c'" "same_dispatch c c'" for s' c'
    by (rule stage_then [OF that _ refl 3]) (auto simp: sd)
  have 1: "bindO (stage get invoke on_hangup ?hup ?s0) ?f2
      = bindO (run_calls invoke (?ks on_hangup ?hup @ ?E) ?s0) ?g"
    by (rule stage_then [OF 0 _ refl 2]) (auto simp: sd)
  have "dispatch t c = ?ks on_hangup ?hup @ ?E"
    by (simp add: dispatch_def split: option.split)
  with 1 c show ?thesis by (simp add: handleEvent_def)
qed

end

end
