(* ===== verification/Pollers.thy ===== *)
theory Pollers
  imports Channels
begin

text \<open>
  \<open>Poller.h\<close>, \<open>Poller.cc\<close>: the array handed to \<open>poll(2)\<close> and the map from descriptors to
  channels, kept in step with the indices the channels remember; and the flag setters of
  \<open>Channel.h\<close>, which end in \<open>Poller::updateChannel\<close>.  Channel objects live on a heap
  \<open>chs\<close>.  The kernel's answer to \<open>poll\<close> is an argument.
\<close>

section \<open>Data and operations\<close>

type_synonym cptr = nat

record pollfd =
  pfd_fd :: int
  pfd_events :: "16 word"
  pfd_revents :: "16 word"

record 'cb poller =
  pollfds :: "pollfd list"
  channels :: "int \<rightharpoonup> cptr"
  chs :: "cptr \<rightharpoonup> 'cb channel"

definition poller_new :: "(cptr \<rightharpoonup> 'cb channel) \<Rightarrow> 'cb poller" where
  "poller_new h = \<lparr>pollfds = [], channels = Map.empty, chs = h\<rparr>"

definition updateChannel :: "cptr \<Rightarrow> 'cb poller \<Rightarrow> 'cb poller outcome" where
  "updateChannel p s =
     bindO (deref (chs s) p) (\<lambda>c.
       if index c < 0
       then let pfd = \<lparr>pfd_fd = fd c, pfd_events = ucast (events c), pfd_revents = 0\<rparr>;
                pfds = pollfds s @ [pfd];
                idx = int_of_size (length pfds) - 1
            in Inr (s\<lparr>pollfds := pfds, chs := (chs s)(p \<mapsto> set_index idx c),
                      channels := (channels s)(fd c \<mapsto> p)\<rparr>)
       else bindO (nthO (pollfds s) (nat (index c))) (\<lambda>pfd.
              let pfd1 = pfd\<lparr>pfd_events := ucast (events c), pfd_revents := 0\<rparr>;
                  pfd2 = (if isNoneEvent c then pfd1\<lparr>pfd_fd := - fd c - 1\<rparr> else pfd1)
              in Inr (s\<lparr>pollfds := (pollfds s)[nat (index c) := pfd2]\<rparr>)))"

text \<open>A flag setter of the channel: change \<open>events_\<close>, then \<open>update()\<close>.\<close>

definition set_and_update ::
    "('cb channel \<Rightarrow> 'cb channel) \<Rightarrow> cptr \<Rightarrow> 'cb poller \<Rightarrow> 'cb poller outcome" where
  "set_and_update f p s =
     bindO (deref (chs s) p) (\<lambda>c. updateChannel p (s\<lparr>chs := (chs s)(p \<mapsto> f c)\<rparr>))"

definition enableReading :: "cptr \<Rightarrow> 'cb poller \<Rightarrow> 'cb poller outcome" where
  "enableReading = set_and_update want_reading"

definition enableWriting :: "cptr \<Rightarrow> 'cb poller \<Rightarrow> 'cb poller outcome" where
  "enableWriting = set_and_update want_writing"

definition disableWriting :: "cptr \<Rightarrow> 'cb poller \<Rightarrow> 'cb poller outcome" where
  "disableWriting = set_and_update unwant_writing"

definition disableAll :: "cptr \<Rightarrow> 'cb poller \<Rightarrow> 'cb poller outcome" where
  "disableAll = set_and_update want_nothing"

text \<open>
  \<open>poll\<close>: the kernel returns a count and fills in \<open>revents\<close>; the channels of the entries with
  events are collected, at most as many as the count says.  \<open>poll\<close> is the part of the function
  that concerns the tables; the clock reading that it returns and its log statements are
  around it in \<open>Poller_poll\<close>, in the theory that sets up the loops.
\<close>

fun fillActiveChannels ::
    "int \<Rightarrow> pollfd list \<Rightarrow> 'cb poller \<Rightarrow> (cptr list \<times> 'cb poller) outcome" where
  "fillActiveChannels numEvents [] s = Inr ([], s)"
| "fillActiveChannels numEvents (pfd # pfds) s =
     (if numEvents > 0
      then (if sint (pfd_revents pfd) > 0
            then bindO (deref (channels s) (pfd_fd pfd)) (\<lambda>p.
                 bindO (deref (chs s) p) (\<lambda>c.
                 bindO (fillActiveChannels (numEvents - 1) pfds
                          (s\<lparr>chs := (chs s)(p \<mapsto> set_revents (scast (pfd_revents pfd)) c)\<rparr>)) (\<lambda>(ps, s').
                   Inr (p # ps, s'))))
            else fillActiveChannels numEvents pfds s)
      else Inr ([], s))"

definition poll ::
    "int \<Rightarrow> 16 word list \<Rightarrow> 'cb poller \<Rightarrow> (cptr list \<times> 'cb poller) outcome" where
  "poll numEvents revs s =
     bindO (guardO (pollfds s \<noteq> [])) (\<lambda>_.
       let s1 = s\<lparr>pollfds := map2 (\<lambda>pfd r. pfd\<lparr>pfd_revents := r\<rparr>) (pollfds s) revs\<rparr>
       in if numEvents > 0 then fillActiveChannels numEvents (pollfds s1) s1 else Inr ([], s1))"

definition removeChannel :: "cptr \<Rightarrow> 'cb poller \<Rightarrow> 'cb poller outcome" where
  "removeChannel p s =
     bindO (deref (chs s) p) (\<lambda>c.
     bindO (guardO (0 \<le> index c)) (\<lambda>_.
     bindO (nthO (pollfds s) (nat (index c))) (\<lambda>_.
       let idx = nat (index c);
           pfds = pollfds s;
           s1 = s\<lparr>channels := (channels s)(fd c := None)\<rparr>
       in if idx = length pfds - 1
          then Inr (s1\<lparr>pollfds := butlast pfds\<rparr>)
          else let e = pfd_fd (last pfds);
                   channelAtEnd = (if e < 0 then - e - 1 else e);
                   swapped = pfds[idx := last pfds, length pfds - 1 := pfds ! idx]
               in bindO (deref (channels s1) channelAtEnd) (\<lambda>q.
                  bindO (deref (chs s1) q) (\<lambda>d.
                    Inr (s1\<lparr>chs := (chs s1)(q \<mapsto> set_index (int idx) d),
                            pollfds := butlast swapped\<rparr>))))))"

section \<open>The invariant\<close>

text \<open>
  \<open>real_fd\<close> is the descriptor of an entry, disabled or not.  Every entry belongs to the
  channel the map has for its descriptor, and that channel remembers the entry's position;
  every channel of the map has its entry.
\<close>

definition real_fd :: "int \<Rightarrow> int" where
  "real_fd f = (if f < 0 then - f - 1 else f)"

definition registered :: "cptr \<Rightarrow> 'cb poller \<Rightarrow> bool" where
  "registered p s = (case chs s p of None \<Rightarrow> False | Some c \<Rightarrow> channels s (fd c) = Some p)"

definition entry_ok :: "'cb poller \<Rightarrow> nat \<Rightarrow> bool" where
  "entry_ok s i =
     (case channels s (real_fd (pfd_fd (pollfds s ! i))) of
        None \<Rightarrow> False
      | Some p \<Rightarrow>
          (case chs s p of
             None \<Rightarrow> False
           | Some c \<Rightarrow> fd c = real_fd (pfd_fd (pollfds s ! i)) \<and> index c = int i \<and>
               pfd_events (pollfds s ! i) = ucast (events c)))"

definition channel_ok :: "'cb poller \<Rightarrow> int \<Rightarrow> cptr \<Rightarrow> bool" where
  "channel_ok s f p =
     (case chs s p of
        None \<Rightarrow> False
      | Some c \<Rightarrow> fd c = f \<and> 0 \<le> index c \<and> nat (index c) < length (pollfds s) \<and>
          real_fd (pfd_fd (pollfds s ! nat (index c))) = f)"

definition poller_inv :: "'cb poller \<Rightarrow> bool" where
  "poller_inv s \<longleftrightarrow>
     (\<forall>i < length (pollfds s). entry_ok s i) \<and>
     (\<forall>f p. channels s f = Some p \<longrightarrow> channel_ok s f p) \<and>
     (\<forall>p c. chs s p = Some c \<longrightarrow> 0 \<le> fd c) \<and>
     length (pollfds s) < 2 ^ 30"

lemma real_fd_disabled [simp]: "0 \<le> f \<Longrightarrow> real_fd (- f - 1) = f" "0 \<le> f \<Longrightarrow> real_fd f = f"
  by (simp_all add: real_fd_def)

lemma entry_okE:
  assumes "entry_ok s i"
  obtains p c where "channels s (real_fd (pfd_fd (pollfds s ! i))) = Some p" "chs s p = Some c"
    "fd c = real_fd (pfd_fd (pollfds s ! i))" "index c = int i"
    "pfd_events (pollfds s ! i) = ucast (events c)"
  using assms by (auto simp: entry_ok_def split: option.splits)

lemma channel_okE:
  assumes "channel_ok s f p"
  obtains c where "chs s p = Some c" "fd c = f" "0 \<le> index c" "nat (index c) < length (pollfds s)"
    "real_fd (pfd_fd (pollfds s ! nat (index c))) = f"
  using assms by (auto simp: channel_ok_def split: option.splits)

lemma poller_invD:
  assumes "poller_inv s"
  shows "i < length (pollfds s) \<Longrightarrow> entry_ok s i" and "channels s f = Some p \<Longrightarrow> channel_ok s f p"
    and "chs s p = Some c \<Longrightarrow> 0 \<le> fd c" and "length (pollfds s) < 2 ^ 30"
  using assms unfolding poller_inv_def by blast+

lemma poller_invI:
  assumes "\<And>i. i < length (pollfds s) \<Longrightarrow> entry_ok s i" "\<And>f p. channels s f = Some p \<Longrightarrow> channel_ok s f p"
    and "\<And>p c. chs s p = Some c \<Longrightarrow> 0 \<le> fd c" "length (pollfds s) < 2 ^ 30"
  shows "poller_inv s"
  using assms unfolding poller_inv_def by blast

text \<open>Different positions hold different descriptors.\<close>

lemma entry_unique:
  assumes inv: "poller_inv s" and "i < length (pollfds s)" "j < length (pollfds s)"
    and eq: "real_fd (pfd_fd (pollfds s ! i)) = real_fd (pfd_fd (pollfds s ! j))"
  shows "i = j"
proof -
  obtain p c where 1: "channels s (real_fd (pfd_fd (pollfds s ! i))) = Some p" "chs s p = Some c"
    "index c = int i" using poller_invD(1) [OF inv assms(2)] by (rule entry_okE)
  obtain q d where "channels s (real_fd (pfd_fd (pollfds s ! j))) = Some q" "chs s q = Some d"
    "index d = int j" using poller_invD(1) [OF inv assms(3)] by (rule entry_okE)
  with 1 eq show ?thesis by simp
qed

text \<open>The part of the state that the kernel looks at: the enabled descriptors and their masks.\<close>

definition watched :: "'cb poller \<Rightarrow> int \<Rightarrow> 16 word option" where
  "watched s f =
     (if f < 0 then None else map_option pfd_events (find (\<lambda>pfd. pfd_fd pfd = f) (pollfds s)))"

lemma watched_iff:
  assumes inv: "poller_inv s"
  shows "watched s f = Some ev \<longleftrightarrow>
    0 \<le> f \<and> (\<exists>i < length (pollfds s). pfd_fd (pollfds s ! i) = f \<and> pfd_events (pollfds s ! i) = ev)"
proof (cases "f < 0")
  case False
  show ?thesis
  proof
    assume "watched s f = Some ev"
    with False show "0 \<le> f \<and> (\<exists>i < length (pollfds s). pfd_fd (pollfds s ! i) = f \<and>
        pfd_events (pollfds s ! i) = ev)"
      by (auto simp: watched_def find_Some_iff)
  next
    assume "0 \<le> f \<and> (\<exists>i < length (pollfds s). pfd_fd (pollfds s ! i) = f \<and>
        pfd_events (pollfds s ! i) = ev)"
    then obtain i where i: "i < length (pollfds s)" "pfd_fd (pollfds s ! i) = f"
      "pfd_events (pollfds s ! i) = ev" by blast
    have "\<forall>j < i. pfd_fd (pollfds s ! j) \<noteq> f"
    proof (intro allI impI notI)
      fix j assume "j < i" "pfd_fd (pollfds s ! j) = f"
      then show False using entry_unique [OF inv, of j i] i by simp
    qed
    with i False show "watched s f = Some ev"
      by (auto simp: watched_def find_Some_iff)
  qed
qed (simp add: watched_def)

section \<open>Registering and updating a channel\<close>

text \<open>A channel may be attached when it is registered, or new with a descriptor nobody uses.\<close>

definition attachable :: "cptr \<Rightarrow> 'cb poller \<Rightarrow> bool" where
  "attachable p s =
     (case chs s p of
        None \<Rightarrow> False
      | Some c \<Rightarrow> channels s (fd c) = Some p \<or> (index c < 0 \<and> channels s (fd c) = None))"

definition setter :: "('cb channel \<Rightarrow> 'cb channel) \<Rightarrow> bool" where
  "setter f \<longleftrightarrow> (\<forall>c. index (f c) = index c \<and> fd (f c) = fd c)"

lemma setters [simp]:
  "setter want_reading" "setter want_writing" "setter unwant_writing" "setter want_nothing"
  by (simp_all add: setter_def want_reading_def want_writing_def unwant_writing_def want_nothing_def)

lemma update_registered_inv:
  assumes inv: "poller_inv s" and c: "chs s p = Some c" "channels s (fd c) = Some p" and f: "setter f"
  shows "\<exists>s' pfd. set_and_update f p s = Inr s' \<and> poller_inv s' \<and> channels s' = channels s \<and>
    chs s' = (chs s)(p \<mapsto> f c) \<and> pollfds s' = (pollfds s)[nat (index c) := pfd] \<and>
    nat (index c) < length (pollfds s) \<and> pfd_events pfd = ucast (events (f c)) \<and> pfd_revents pfd = 0 \<and>
    real_fd (pfd_fd pfd) = fd c \<and> real_fd (pfd_fd (pollfds s ! nat (index c))) = fd c \<and>
    pfd_fd pfd = (if isNoneEvent (f c) then - fd c - 1 else pfd_fd (pollfds s ! nat (index c)))"
proof -
  let ?i = "nat (index c)" and ?c = "f c"
  have fc: "index ?c = index c" "fd ?c = fd c" using f by (simp_all add: setter_def)
  have "channel_ok s (fd c) p" by (rule poller_invD(2) [OF inv c(2)])
  then have i: "0 \<le> index c" "?i < length (pollfds s)" "real_fd (pfd_fd (pollfds s ! ?i)) = fd c"
    using c(1) by (auto elim: channel_okE)
  have pos: "0 \<le> fd c" using poller_invD(3) [OF inv c(1)] .
  let ?p1 = "(pollfds s ! ?i)\<lparr>pfd_events := ucast (events ?c), pfd_revents := 0\<rparr>"
  let ?pfd = "if isNoneEvent ?c then ?p1\<lparr>pfd_fd := - fd c - 1\<rparr> else ?p1"
  let ?s = "s\<lparr>chs := (chs s)(p \<mapsto> ?c), pollfds := (pollfds s)[?i := ?pfd]\<rparr>"
  have run: "set_and_update f p s = Inr ?s"
    using c i fc by (simp add: set_and_update_def updateChannel_def Let_def)
  have real: "real_fd (pfd_fd (pollfds ?s ! j)) = real_fd (pfd_fd (pollfds s ! j))" for j
    using i pos by (cases "j = ?i") auto
  have "entry_ok ?s j" if j: "j < length (pollfds s)" for j
  proof -
    obtain q d where q: "channels s (real_fd (pfd_fd (pollfds s ! j))) = Some q" "chs s q = Some d"
      "fd d = real_fd (pfd_fd (pollfds s ! j))" "index d = int j"
      "pfd_events (pollfds s ! j) = ucast (events d)"
      using poller_invD(1) [OF inv j] by (rule entry_okE)
    show ?thesis
    proof (cases "j = ?i")
      case True
      with q c i fc show ?thesis unfolding entry_ok_def real by auto
    next
      case False
      then have "q \<noteq> p" using q(2,4) c(1) by auto
      with q False show ?thesis unfolding entry_ok_def real by simp
    qed
  qed
  moreover have "channel_ok ?s g q" if "channels s g = Some q" for g q
    using poller_invD(2) [OF inv that] c fc
    unfolding channel_ok_def real by (auto split: option.splits)
  moreover have "0 \<le> fd d" if "chs ?s q = Some d" for q d
    using that pos fc poller_invD(3) [OF inv, of q d] by (cases "q = p") auto
  ultimately have "poller_inv ?s"
    using poller_invD(4) [OF inv] by (intro poller_invI) auto
  then show ?thesis using run i pos by (intro exI [of _ ?s] exI [of _ ?pfd]) simp
qed

lemma update_new_inv:
  assumes inv: "poller_inv s" and c: "chs s p = Some c" "channels s (fd c) = None" "index c < 0"
    and f: "setter f" and room: "length (pollfds s) + 1 < 2 ^ 30"
  shows "\<exists>s'. set_and_update f p s = Inr s' \<and> poller_inv s' \<and>
    channels s' = (channels s)(fd c \<mapsto> p) \<and>
    chs s' = (chs s)(p \<mapsto> set_index (int (length (pollfds s))) (f c)) \<and>
    pollfds s' = pollfds s @ [\<lparr>pfd_fd = fd c, pfd_events = ucast (events (f c)), pfd_revents = 0\<rparr>]"
proof -
  let ?n = "length (pollfds s)" and ?c = "f c"
  have fc: "index ?c = index c" "fd ?c = fd c" using f by (simp_all add: setter_def)
  have pos: "0 \<le> fd c" using poller_invD(3) [OF inv c(1)] .
  let ?pfd = "\<lparr>pfd_fd = fd c, pfd_events = ucast (events ?c), pfd_revents = 0\<rparr>"
  let ?s = "s\<lparr>pollfds := pollfds s @ [?pfd], chs := (chs s)(p \<mapsto> set_index (int ?n) ?c),
              channels := (channels s)(fd c \<mapsto> p)\<rparr>"
  have idx: "int_of_size (Suc ?n) - 1 = int ?n"
    using room by (subst int_of_size_small) simp_all
  have run: "set_and_update f p s = Inr ?s"
    using c fc idx by (simp add: set_and_update_def updateChannel_def Let_def)
  have A: "entry_ok ?s j" if j: "j < Suc ?n" for j
  proof (cases "j = ?n")
    case True
    with pos fc show ?thesis by (simp add: entry_ok_def set_index_def)
  next
    case False
    with j have j': "j < ?n" by simp
    obtain q d where q: "channels s (real_fd (pfd_fd (pollfds s ! j))) = Some q" "chs s q = Some d"
      "fd d = real_fd (pfd_fd (pollfds s ! j))" "index d = int j"
      "pfd_events (pollfds s ! j) = ucast (events d)"
      using poller_invD(1) [OF inv j'] by (rule entry_okE)
    have "q \<noteq> p" using q(2,4) c by auto
    moreover have "real_fd (pfd_fd (pollfds s ! j)) \<noteq> fd c" using q(1) c(2) by auto
    ultimately show ?thesis using q j' by (simp add: entry_ok_def nth_append)
  qed
  have B: "channel_ok ?s g q" if g: "channels ?s g = Some q" for g q
  proof (cases "g = fd c")
    case True
    with g pos fc show ?thesis by (simp add: channel_ok_def set_index_def nth_append)
  next
    case False
    with g have "channel_ok s g q" by (intro poller_invD(2) [OF inv]) simp
    then obtain d where d: "chs s q = Some d" "fd d = g" "0 \<le> index d" "nat (index d) < ?n"
      "real_fd (pfd_fd (pollfds s ! nat (index d))) = g" by (rule channel_okE)
    moreover have "q \<noteq> p" using d(1,3) c by auto
    ultimately show ?thesis by (simp add: channel_ok_def nth_append)
  qed
  have C: "0 \<le> fd d" if "chs ?s q = Some d" for q d
  proof (cases "q = p")
    case True
    with that pos fc show ?thesis by (auto simp: set_index_def)
  next
    case False
    with that show ?thesis using poller_invD(3) [OF inv, of q d] by simp
  qed
  have "poller_inv ?s"
  proof (rule poller_invI)
    show "entry_ok ?s i" if "i < length (pollfds ?s)" for i
      by (rule A) (use that in simp)
    show "length (pollfds ?s) < 2 ^ 30" using room by simp
  qed (fact B, fact C)
  then show ?thesis using run by (intro exI [of _ ?s]) simp
qed

section \<open>Removing a channel\<close>

text \<open>A channel object that nobody registered does not concern the tables.\<close>

lemma new_channel_inv:
  assumes inv: "poller_inv s" and heap: "chs s p = None" and pos: "0 \<le> fd c"
  shows "poller_inv (s\<lparr>chs := (chs s)(p \<mapsto> c)\<rparr>)" (is "poller_inv ?s")
proof -
  have same: "chs ?s q = chs s q" if "channels s f = Some q" for f q
    using poller_invD(2) [OF inv that] heap by (auto simp: channel_ok_def split: option.splits)
  show ?thesis
  proof (rule poller_invI)
    show "entry_ok ?s i" if "i < length (pollfds ?s)" for i
    proof -
      have "entry_ok s i" using poller_invD(1) [OF inv] that by simp
      then obtain q d where q: "channels s (real_fd (pfd_fd (pollfds s ! i))) = Some q" "chs s q = Some d"
        "fd d = real_fd (pfd_fd (pollfds s ! i))" "index d = int i"
        "pfd_events (pollfds s ! i) = ucast (events d)" by (rule entry_okE)
      then show ?thesis using same [OF q(1)] by (auto simp: entry_ok_def)
    qed
    show "channel_ok ?s f q" if "channels ?s f = Some q" for f q
    proof -
      have f: "channels s f = Some q" using that by simp
      show ?thesis using poller_invD(2) [OF inv f] same [OF f]
        by (auto simp: channel_ok_def split: option.splits)
    qed
    show "0 \<le> fd d" if "chs ?s q = Some d" for q d
      using that pos poller_invD(3) [OF inv, of q d] by (cases "q = p") auto
    show "length (pollfds ?s) < 2 ^ 30" using poller_invD(4) [OF inv] by simp
  qed
qed

text \<open>Each entry has its own descriptor, so the array is no longer than descriptors are numerous.\<close>

lemma entries_bounded:
  assumes inv: "poller_inv s" and lim: "\<And>q c. chs s q = Some c \<Longrightarrow> fd c < int n"
  shows "length (pollfds s) \<le> n"
proof -
  let ?f = "\<lambda>i. nat (real_fd (pfd_fd (pollfds s ! i)))"
  have r: "0 \<le> real_fd (pfd_fd (pollfds s ! i)) \<and> real_fd (pfd_fd (pollfds s ! i)) < int n"
    if i: "i < length (pollfds s)" for i
  proof -
    obtain p c where c: "chs s p = Some c" "fd c = real_fd (pfd_fd (pollfds s ! i))"
      using poller_invD(1) [OF inv i] by (rule entry_okE)
    with lim [OF c(1)] poller_invD(3) [OF inv c(1)] show ?thesis by simp
  qed
  have "inj_on ?f {..<length (pollfds s)}"
  proof (rule inj_onI)
    fix i j assume ij: "i \<in> {..<length (pollfds s)}" "j \<in> {..<length (pollfds s)}" "?f i = ?f j"
    then have "real_fd (pfd_fd (pollfds s ! i)) = real_fd (pfd_fd (pollfds s ! j))"
      using r [of i] r [of j] by auto
    with ij show "i = j" using entry_unique [OF inv] by auto
  qed
  moreover have "?f ` {..<length (pollfds s)} \<subseteq> {..<n}" using r by (auto simp: nat_less_iff)
  ultimately show ?thesis by (metis card_inj_on_le card_lessThan finite_lessThan)
qed

text \<open>Setting the events of a channel that may be attached, in one statement for both cases.\<close>

lemma setter_attachable:
  assumes inv: "poller_inv s" and a: "attachable p s" and f: "setter f"
    and room: "length (pollfds s) + 1 < 2 ^ 30" and c: "chs s p = Some c"
  shows "\<exists>s' d. set_and_update f p s = Inr s' \<and> poller_inv s' \<and> registered p s' \<and>
    chs s' = (chs s)(p \<mapsto> d) \<and> fd d = fd c \<and> channels s' = (channels s)(fd c \<mapsto> p)"
proof (cases "channels s (fd c) = Some p")
  case True
  from update_registered_inv [OF inv c True f] obtain s' where
    "set_and_update f p s = Inr s'" "poller_inv s'" "channels s' = channels s" "chs s' = (chs s)(p \<mapsto> f c)"
    by blast
  with True f show ?thesis
    by (intro exI [of _ s'] exI [of _ "f c"]) (auto simp: registered_def setter_def)
next
  case False
  with a c have "channels s (fd c) = None" "index c < 0" by (auto simp: attachable_def)
  from update_new_inv [OF inv c this f room] obtain s' where
    "set_and_update f p s = Inr s'" "poller_inv s'" "channels s' = (channels s)(fd c \<mapsto> p)"
    "chs s' = (chs s)(p \<mapsto> set_index (int (length (pollfds s))) (f c))" by blast
  with f show ?thesis
    by (intro exI [of _ s'] exI [of _ "set_index (int (length (pollfds s))) (f c)"])
      (auto simp: registered_def setter_def set_index_def)
qed

lemma remove_last_inv:
  assumes inv: "poller_inv s" and c: "chs s p = Some c" "channels s (fd c) = Some p"
    and last: "nat (index c) = length (pollfds s) - 1"
  shows "\<exists>s'. removeChannel p s = Inr s' \<and> poller_inv s' \<and> chs s' = chs s \<and>
    channels s' = (channels s)(fd c := None) \<and> pollfds s' = butlast (pollfds s)"
proof -
  have "channel_ok s (fd c) p" by (rule poller_invD(2) [OF inv c(2)])
  then have i: "0 \<le> index c" "nat (index c) < length (pollfds s)"
    "real_fd (pfd_fd (pollfds s ! nat (index c))) = fd c"
    using c(1) by (auto elim: channel_okE)
  let ?s = "s\<lparr>channels := (channels s)(fd c := None), pollfds := butlast (pollfds s)\<rparr>"
  have run: "removeChannel p s = Inr ?s"
    using c(1) i last by (simp add: removeChannel_def Let_def)
  have A: "entry_ok ?s j" if j: "j < length (pollfds s) - 1" for j
  proof -
    have j': "j < length (pollfds s)" using j by simp
    have "real_fd (pfd_fd (pollfds s ! j)) \<noteq> fd c"
      using entry_unique [OF inv j' i(2)] i(3) j last by auto
    with poller_invD(1) [OF inv j'] j show ?thesis
      by (elim entry_okE) (simp add: entry_ok_def nth_butlast)
  qed
  have B: "channel_ok ?s g q" if g: "channels ?s g = Some q" for g q
  proof -
    from g have g': "g \<noteq> fd c" "channels s g = Some q" by (auto split: if_splits)
    obtain d where d: "chs s q = Some d" "fd d = g" "0 \<le> index d" "nat (index d) < length (pollfds s)"
      "real_fd (pfd_fd (pollfds s ! nat (index d))) = g"
      using poller_invD(2) [OF inv g'(2)] by (rule channel_okE)
    then have "nat (index d) \<noteq> nat (index c)" using i(3) g'(1) by auto
    with d(4) last have "nat (index d) < length (pollfds s) - 1" by linarith
    with d show ?thesis by (simp add: channel_ok_def nth_butlast)
  qed
  have "poller_inv ?s"
  proof (rule poller_invI)
    show "entry_ok ?s j" if "j < length (pollfds ?s)" for j by (rule A) (use that in simp)
    show "0 \<le> fd d" if "chs ?s q = Some d" for q d using poller_invD(3) [OF inv, of q d] that by simp
    show "length (pollfds ?s) < 2 ^ 30" using poller_invD(4) [OF inv] by simp
  qed (fact B)
  then show ?thesis using run by (intro exI [of _ ?s]) simp
qed

text \<open>The last entry takes the place of entry \<open>i\<close>, and the channel it belongs to learns its new position.\<close>

lemma moved_inv:
  assumes inv: "poller_inv s" and i: "i < length (pollfds s) - 1" "real_fd (pfd_fd (pollfds s ! i)) = f"
    and q: "channels s (fd d) = Some q" "chs s q = Some d" "fd d = real_fd (pfd_fd (last (pollfds s)))"
      "index d = int (length (pollfds s) - 1)" "pfd_events (last (pollfds s)) = ucast (events d)"
    and ne: "fd d \<noteq> f"
  shows "poller_inv (s\<lparr>channels := (channels s)(f := None), chs := (chs s)(q \<mapsto> set_index (int i) d),
    pollfds := (butlast (pollfds s))[i := last (pollfds s)]\<rparr>)" (is "poller_inv ?s")
proof (rule poller_invI)
  let ?n = "length (pollfds s)"
  have i': "i < ?n" using i(1) by simp
  have nth: "pollfds ?s ! j = (if j = i then last (pollfds s) else pollfds s ! j)" if "j < ?n - 1" for j
    using that by (simp add: nth_list_update nth_butlast)
  show "entry_ok ?s j" if "j < length (pollfds ?s)" for j
  proof (cases "j = i")
    case True
    then show ?thesis using i nth [of j] q ne by (simp add: entry_ok_def set_index_def)
  next
    case False
    have j: "j < ?n - 1" "j < ?n" using that by simp_all
    obtain r x where r: "channels s (real_fd (pfd_fd (pollfds s ! j))) = Some r" "chs s r = Some x"
      "fd x = real_fd (pfd_fd (pollfds s ! j))" "index x = int j"
      "pfd_events (pollfds s ! j) = ucast (events x)"
      using poller_invD(1) [OF inv j(2)] by (rule entry_okE)
    have "r \<noteq> q" using r(2,4) q(2,4) j(1) by auto
    moreover have "real_fd (pfd_fd (pollfds s ! j)) \<noteq> f"
      using entry_unique [OF inv j(2) i'] i(2) False by auto
    ultimately show ?thesis using r nth [OF j(1)] j(1) False by (simp add: entry_ok_def)
  qed
  show "channel_ok ?s g r" if g: "channels ?s g = Some r" for g r
  proof -
    from g have g': "g \<noteq> f" "channels s g = Some r" by (auto split: if_splits)
    obtain x where x: "chs s r = Some x" "fd x = g" "0 \<le> index x" "nat (index x) < ?n"
      "real_fd (pfd_fd (pollfds s ! nat (index x))) = g"
      using poller_invD(2) [OF inv g'(2)] by (rule channel_okE)
    show ?thesis
    proof (cases "r = q")
      case True
      with x q have "g = fd d" by simp
      with True q(3) nth [OF i(1)] i(1) show ?thesis by (simp add: channel_ok_def set_index_def)
    next
      case False
      have "last (pollfds s) = pollfds s ! (?n - 1)" using i(1) by (intro last_conv_nth) auto
      then have "nat (index x) \<noteq> ?n - 1" using x q(1,3) False g'(2) by auto
      with x(4) have lt: "nat (index x) < ?n - 1" by simp
      have "nat (index x) \<noteq> i" using x(5) i(2) g'(1) by auto
      with x False nth [OF lt] lt show ?thesis by (simp add: channel_ok_def)
    qed
  qed
  show "0 \<le> fd x" if "chs ?s r = Some x" for r x
    using poller_invD(3) [OF inv, of r] poller_invD(3) [OF inv q(2)] that
    by (cases "r = q") (auto simp: set_index_def)
  show "length (pollfds ?s) < 2 ^ 30" using poller_invD(4) [OF inv] by simp
qed

lemma remove_middle_inv:
  assumes inv: "poller_inv s" and c: "chs s p = Some c" "channels s (fd c) = Some p"
    and middle: "nat (index c) \<noteq> length (pollfds s) - 1"
  shows "\<exists>s' q d. removeChannel p s = Inr s' \<and> poller_inv s' \<and> q \<noteq> p \<and> chs s q = Some d \<and>
    chs s' = (chs s)(q \<mapsto> set_index (index c) d) \<and>
    channels s' = (channels s)(fd c := None) \<and>
    pollfds s' = (butlast (pollfds s))[nat (index c) := last (pollfds s)]"
proof -
  let ?n = "length (pollfds s)" and ?i = "nat (index c)"
  have "channel_ok s (fd c) p" by (rule poller_invD(2) [OF inv c(2)])
  then have i: "0 \<le> index c" "?i < ?n" "real_fd (pfd_fd (pollfds s ! ?i)) = fd c"
    using c(1) by (auto elim: channel_okE)
  have m: "?i < ?n - 1" "?n - 1 < ?n" using i(2) middle by auto
  have lst: "last (pollfds s) = pollfds s ! (?n - 1)" using i(2) by (intro last_conv_nth) auto
  obtain q d where q: "channels s (fd d) = Some q" "chs s q = Some d"
    "fd d = real_fd (pfd_fd (last (pollfds s)))" "index d = int (?n - 1)"
    "pfd_events (last (pollfds s)) = ucast (events d)"
    using poller_invD(1) [OF inv m(2)] unfolding lst by (metis entry_okE)
  have qp: "q \<noteq> p" using q(2,4) c(1) m(1) i(1) by auto
  have ne: "fd d \<noteq> fd c"
    using entry_unique [OF inv m(2) i(2)] i(3) q(3) m(1) unfolding lst by auto
  let ?s = "s\<lparr>channels := (channels s)(fd c := None), chs := (chs s)(q \<mapsto> set_index (int ?i) d),
    pollfds := (butlast (pollfds s))[?i := last (pollfds s)]\<rparr>"
  have sw: "butlast ((pollfds s)[?i := last (pollfds s), ?n - 1 := pollfds s ! ?i]) = pollfds ?s"
    using m by (simp add: butlast_list_update)
  have e: "(if pfd_fd (last (pollfds s)) < 0 then - pfd_fd (last (pollfds s)) - 1
      else pfd_fd (last (pollfds s))) = fd d"
    using q(3) by (simp add: real_fd_def)
  have "removeChannel p s = Inr ?s"
    using c(1) i m ne q(1,2) middle unfolding removeChannel_def Let_def
    by (simp add: e sw [simplified])
  then show ?thesis using moved_inv [OF inv m(1) i(3) q ne] qp q(2) i(1)
    by (intro exI [of _ ?s] exI [of _ q] exI [of _ d]) simp
qed

section \<open>What the kernel watches\<close>

lemma watched_at:
  assumes inv: "poller_inv s" and i: "i < length (pollfds s)"
    and f: "real_fd (pfd_fd (pollfds s ! i)) = f" "0 \<le> f"
  shows "watched s f =
    (if pfd_fd (pollfds s ! i) = f then Some (pfd_events (pollfds s ! i)) else None)"
proof (cases "watched s f")
  case None
  with i f(2) show ?thesis
    using watched_iff [OF inv, of f "pfd_events (pollfds s ! i)"] by auto
next
  case (Some ev)
  then obtain j where j: "j < length (pollfds s)" "pfd_fd (pollfds s ! j) = f"
    "pfd_events (pollfds s ! j) = ev" using watched_iff [OF inv] by blast
  have "j = i" using entry_unique [OF inv j(1) i] j(2) f by simp
  with j Some show ?thesis by simp
qed

lemma watched_none:
  assumes inv: "poller_inv s" and "\<And>i. i < length (pollfds s) \<Longrightarrow> real_fd (pfd_fd (pollfds s ! i)) \<noteq> f"
  shows "watched s f = None"
proof (cases "watched s f")
  case (Some ev)
  then obtain j where "j < length (pollfds s)" "pfd_fd (pollfds s ! j) = f" "0 \<le> f"
    using watched_iff [OF inv] by blast
  with assms(2) [of j] show ?thesis by simp
qed simp

lemma watched_negative: "f < 0 \<Longrightarrow> watched s f = None"
  by (simp add: watched_def)

text \<open>A new entry adds its descriptor to what the kernel watches.\<close>

lemma watched_new_entry:
  assumes inv: "poller_inv s" and c: "chs s p = Some c" "channels s (fd c) = None"
    and s': "pollfds s' = pollfds s @ [\<lparr>pfd_fd = fd c, pfd_events = ev, pfd_revents = 0\<rparr>]"
  shows "watched s' = (watched s)(fd c \<mapsto> ev)"
proof
  fix g
  have pos: "0 \<le> fd c" by (rule poller_invD(3) [OF inv c(1)])
  have none: "watched s (fd c) = None"
    by (rule watched_none [OF inv]) (use poller_invD(1) [OF inv] c(2) in \<open>fastforce elim: entry_okE\<close>)
  show "watched s' g = ((watched s)(fd c \<mapsto> ev)) g"
    using pos none by (cases "g = fd c") (auto simp: watched_def s' find_append split: option.splits)
qed

text \<open>Two pollers whose entries agree but for one descriptor watch the same other descriptors.\<close>

lemma watched_entry:
  "poller_inv s \<Longrightarrow> watched s g = Some ev \<longleftrightarrow>
     0 \<le> g \<and> (\<exists>x \<in> set (pollfds s). pfd_fd x = g \<and> pfd_events x = ev)"
  unfolding watched_iff by (metis in_set_conv_nth)

lemma watched_agree:
  assumes inv: "poller_inv s" "poller_inv s'"
    and same: "\<And>x. real_fd (pfd_fd x) \<noteq> f \<Longrightarrow> x \<in> set (pollfds s') \<longleftrightarrow> x \<in> set (pollfds s)"
    and f: "watched s' f = w"
  shows "watched s' = (watched s)(f := w)"
proof
  fix g
  have "watched s' g = Some ev \<longleftrightarrow> watched s g = Some ev" if g: "g \<noteq> f" for ev
  proof -
    have "x \<in> set (pollfds s') \<longleftrightarrow> x \<in> set (pollfds s)" if "0 \<le> g" "pfd_fd x = g" for x
      using same [of x] that g by (simp add: real_fd_def)
    then show ?thesis unfolding watched_entry [OF inv(1)] watched_entry [OF inv(2)] by blast
  qed
  with f show "watched s' g = ((watched s)(f := w)) g" by (metis fun_upd_apply not_None_eq)
qed

lemma watched_updated:
  assumes inv: "poller_inv s" "poller_inv s'"
    and s': "pollfds s' = (pollfds s)[i := pfd]" and i: "i < length (pollfds s)"
    and f: "real_fd (pfd_fd (pollfds s ! i)) = f" "real_fd (pfd_fd pfd) = f" "0 \<le> f"
  shows "watched s' = (watched s)(f := if pfd_fd pfd = f then Some (pfd_events pfd) else None)"
proof (rule watched_agree [OF inv])
  show "x \<in> set (pollfds s') \<longleftrightarrow> x \<in> set (pollfds s)" if "real_fd (pfd_fd x) \<noteq> f" for x
    using that i f unfolding s' in_set_conv_nth by (auto simp: nth_list_update)
  show "watched s' f = (if pfd_fd pfd = f then Some (pfd_events pfd) else None)"
    using watched_at [OF inv(2), of i f] i f s' by simp
qed

text \<open>Removing an entry by moving the last one into its place.\<close>

lemma removed_entries:
  assumes i: "i < length xs"
    and ys: "ys = (if i = length xs - 1 then butlast xs else (butlast xs)[i := last xs])"
  shows "set ys = {xs ! k | k. k < length xs \<and> k \<noteq> i}"
proof -
  let ?m = "length xs - 1"
  have ys_nth: "ys ! j = xs ! (if j = i then ?m else j)" if "j < ?m" for j
  proof -
    have "last xs = xs ! ?m" using that by (intro last_conv_nth) auto
    with that i show ?thesis unfolding ys by (auto simp: nth_butlast nth_list_update)
  qed
  have len: "length ys = ?m" unfolding ys by simp
  have "\<exists>j < ?m. xs ! k = ys ! j" if "k < length xs" "k \<noteq> i" for k
    using that i ys_nth [of "if k = ?m then i else k"]
    by (intro exI [of _ "if k = ?m then i else k"]) (auto split: if_splits)
  moreover have "\<exists>k < length xs. k \<noteq> i \<and> ys ! j = xs ! k" if "j < ?m" for j
    using that i ys_nth [OF that] by (intro exI [of _ "if j = i then ?m else j"]) auto
  ultimately show ?thesis unfolding set_conv_nth len by auto
qed

lemma watched_removed:
  assumes inv: "poller_inv s" "poller_inv s'" and i: "i < length (pollfds s)"
    and f: "real_fd (pfd_fd (pollfds s ! i)) = f"
    and s': "pollfds s' = (if i = length (pollfds s) - 1 then butlast (pollfds s)
                           else (butlast (pollfds s))[i := last (pollfds s)])"
  shows "watched s' = (watched s)(f := None)"
proof (rule watched_agree [OF inv])
  have gone: "x \<in> set (pollfds s') \<longleftrightarrow> (\<exists>k < length (pollfds s). k \<noteq> i \<and> x = pollfds s ! k)" for x
    unfolding removed_entries [OF i s'] by auto
  show "x \<in> set (pollfds s') \<longleftrightarrow> x \<in> set (pollfds s)" if "real_fd (pfd_fd x) \<noteq> f" for x
    using that f unfolding gone in_set_conv_nth [of x "pollfds s"] by metis
  show "watched s' f = None"
  proof (rule watched_none [OF inv(2)])
    fix j assume "j < length (pollfds s')"
    with gone [of "pollfds s' ! j"] entry_unique [OF inv(1) _ i] f
    show "real_fd (pfd_fd (pollfds s' ! j)) \<noteq> f" by (metis nth_mem)
  qed
qed

section \<open>Collecting the active channels\<close>

abbreviation has_event :: "pollfd \<Rightarrow> bool" where
  "has_event pfd \<equiv> sint (pfd_revents pfd) > 0"

definition chan :: "'cb poller \<Rightarrow> pollfd \<Rightarrow> cptr" where
  "chan s pfd = the (channels s (pfd_fd pfd))"

definition mark :: "'cb poller \<Rightarrow> pollfd \<Rightarrow> (cptr \<rightharpoonup> 'cb channel) \<Rightarrow> (cptr \<rightharpoonup> 'cb channel)" where
  "mark s pfd h =
     h(chan s pfd := map_option (set_revents (scast (pfd_revents pfd))) (h (chan s pfd)))"

lemma mark_apply: "mark s pfd h q =
    (if q = chan s pfd then map_option (set_revents (scast (pfd_revents pfd))) (h q) else h q)"
  by (simp add: mark_def)

lemma fillActiveChannels_run:
  assumes "\<forall>pfd \<in> set pfds. has_event pfd \<longrightarrow>
      channels s (pfd_fd pfd) \<noteq> None \<and> chs s (chan s pfd) \<noteq> None"
    and "n = int (length (filter has_event pfds))"
  shows "fillActiveChannels n pfds s =
    Inr (map (chan s) (filter has_event pfds),
         s\<lparr>chs := fold (mark s) (filter has_event pfds) (chs s)\<rparr>)"
  using assms
proof (induction pfds arbitrary: n s)
  case Nil
  then show ?case by simp
next
  case (Cons pfd pfds)
  show ?case
  proof (cases "has_event pfd")
    case True
    with Cons.prems obtain p c where pc: "channels s (pfd_fd pfd) = Some p" "chs s p = Some c"
      by (auto simp: chan_def)
    let ?s = "s\<lparr>chs := (chs s)(p \<mapsto> set_revents (scast (pfd_revents pfd)) c)\<rparr>"
    have chan: "chan ?s = chan s" "mark ?s = mark s"
      by (simp_all add: chan_def mark_def fun_eq_iff)
    have p: "chan s pfd = p" using pc(1) by (simp add: chan_def)
    have "fillActiveChannels (n - 1) pfds ?s =
      Inr (map (chan ?s) (filter has_event pfds),
         ?s\<lparr>chs := fold (mark ?s) (filter has_event pfds) (chs ?s)\<rparr>)"
      by (rule Cons.IH) (use Cons.prems True in \<open>auto simp: chan_def\<close>)
    moreover have "mark s pfd (chs s) = (chs s)(p \<mapsto> set_revents (scast (pfd_revents pfd)) c)"
      using pc p by (simp add: mark_def)
    ultimately show ?thesis
      using True pc p Cons.prems(2) by (simp add: chan)
  next
    case False
    then show ?thesis using Cons.IH [of s n] Cons.prems by (cases "n > 0") (auto simp: filter_empty_conv)
  qed
qed

lemma fold_mark_other: "q \<notin> chan s ` set act \<Longrightarrow> fold (mark s) act h q = h q"
  by (induction act arbitrary: h) (auto simp: mark_apply)

lemma fold_mark_some: "h q = Some c \<Longrightarrow> \<exists>r. fold (mark s) act h q = Some (set_revents r c)"
proof (induction act arbitrary: h c)
  case Nil
  then show ?case by (intro exI [of _ "revents c"]) (simp add: set_revents_def)
next
  case (Cons pfd act)
  show ?case
  proof (cases "chan s pfd = q")
    case True
    then have "mark s pfd h q = Some (set_revents (scast (pfd_revents pfd)) c)"
      using Cons.prems by (simp add: mark_apply)
    then show ?thesis using Cons.IH [of "mark s pfd h"] by (simp add: set_revents_def)
  next
    case False
    then have "mark s pfd h q = Some c" using Cons.prems by (simp add: mark_apply)
    then show ?thesis using Cons.IH [of "mark s pfd h"] by simp
  qed
qed

lemma fold_mark_at:
  "distinct (map (chan s) act) \<Longrightarrow> pfd \<in> set act \<Longrightarrow> h (chan s pfd) = Some c \<Longrightarrow>
   fold (mark s) act h (chan s pfd) = Some (set_revents (scast (pfd_revents pfd)) c)"
proof (induction act arbitrary: h)
  case Nil
  then show ?case by simp
next
  case (Cons a act)
  show ?case
  proof (cases "a = pfd")
    case True
    then have "fold (mark s) act (mark s pfd h) (chan s pfd) = mark s pfd h (chan s pfd)"
      using Cons.prems(1) by (intro fold_mark_other) auto
    moreover have "mark s pfd h (chan s pfd) = Some (set_revents (scast (pfd_revents pfd)) c)"
      using Cons.prems(3) by (simp add: mark_apply)
    ultimately show ?thesis using True by simp
  next
    case False
    with Cons.prems(1,2) have "chan s a \<noteq> chan s pfd" by auto
    then have "mark s a h (chan s pfd) = Some c" using Cons.prems(3) by (simp add: mark_apply)
    with False Cons.prems Cons.IH [of "mark s a h"] show ?thesis by simp
  qed
qed

lemma revents_only_inv:
  assumes inv: "poller_inv s"
    and len: "length pfds = length (pollfds s)"
    and pfds: "\<And>i. i < length pfds \<Longrightarrow> pfd_fd (pfds ! i) = pfd_fd (pollfds s ! i) \<and>
      pfd_events (pfds ! i) = pfd_events (pollfds s ! i)"
    and h: "\<And>q. (\<exists>r c. chs s q = Some c \<and> h q = Some (set_revents r c)) \<or> chs s q = None \<and> h q = None"
  shows "poller_inv (s\<lparr>pollfds := pfds, chs := h\<rparr>)"
proof (rule poller_invI)
  fix i assume "i < length (pollfds (s\<lparr>pollfds := pfds, chs := h\<rparr>))"
  then have i: "i < length pfds" "i < length (pollfds s)" using len by simp_all
  obtain p c where "channels s (real_fd (pfd_fd (pollfds s ! i))) = Some p" "chs s p = Some c"
    "fd c = real_fd (pfd_fd (pollfds s ! i))" "index c = int i"
    "pfd_events (pollfds s ! i) = ucast (events c)"
    using poller_invD(1) [OF inv i(2)] by (rule entry_okE)
  with pfds [OF i(1)] h [of p] show "entry_ok (s\<lparr>pollfds := pfds, chs := h\<rparr>) i"
    by (auto simp: entry_ok_def set_revents_def)
next
  fix f p assume "channels (s\<lparr>pollfds := pfds, chs := h\<rparr>) f = Some p"
  then have "channel_ok s f p" using poller_invD(2) [OF inv] by simp
  then obtain c where "chs s p = Some c" "fd c = f" "0 \<le> index c" "nat (index c) < length (pollfds s)"
    "real_fd (pfd_fd (pollfds s ! nat (index c))) = f" by (rule channel_okE)
  with pfds [of "nat (index c)"] h [of p] len show "channel_ok (s\<lparr>pollfds := pfds, chs := h\<rparr>) f p"
    by (auto simp: channel_ok_def set_revents_def)
next
  fix p c assume "chs (s\<lparr>pollfds := pfds, chs := h\<rparr>) p = Some c"
  with h [of p] poller_invD(3) [OF inv, of p] show "0 \<le> fd c" by (auto simp: set_revents_def)
next
  show "length (pollfds (s\<lparr>pollfds := pfds, chs := h\<rparr>)) < 2 ^ 30"
    using poller_invD(4) [OF inv] len by simp
qed

section \<open>Properties of the poller\<close>

text \<open>A poller with a reading channel and a disabled one, for the witnesses.\<close>

definition demo_poller :: "nat poller" where
  "demo_poller =
     \<lparr>pollfds = [\<lparr>pfd_fd = 5, pfd_events = 3, pfd_revents = 0\<rparr>,
                 \<lparr>pfd_fd = - 7, pfd_events = 0, pfd_revents = 0\<rparr>],
      channels = [5 \<mapsto> 0, 6 \<mapsto> 1],
      chs = [0 \<mapsto> (channel_new 5)\<lparr>index := 0, events := 3\<rparr>,
             1 \<mapsto> (channel_new 6)\<lparr>index := 1\<rparr>, 2 \<mapsto> channel_new 9]\<rparr>"

lemma demo_poller_inv: "poller_inv demo_poller"
  by (rule poller_invI)
    (auto simp: demo_poller_def entry_ok_def channel_ok_def real_fd_def channel_new_def less_Suc_eq
      split: if_splits)

text \<open>
  C18.  Setting the events of a channel, by any of the four setters, keeps the poller's array,
  its map and the channels' indices consistent and registers the channel; the kernel then
  watches exactly the channel's new mask.  With one exception: a registered channel whose
  interest was once empty is not watched again, whatever events it asks for.
\<close>

theorem set_events_consistent:
  assumes inv: "poller_inv s" and a: "attachable p s" and f: "setter f"
    and room: "length (pollfds s) + 1 < 2 ^ 30" and c: "chs s p = Some c"
  shows "\<exists>s'. set_and_update f p s = Inr s' \<and> poller_inv s' \<and> registered p s' \<and>
    watched s' =
      (if registered p s \<and> isNoneEvent (f c) then (watched s)(fd c := None)
       else if registered p s \<and> watched s (fd c) = None then watched s
       else (watched s)(fd c \<mapsto> ucast (events (f c))))"
proof -
  have fc: "fd (f c) = fd c" using f by (simp add: setter_def)
  have pos: "0 \<le> fd c" by (rule poller_invD(3) [OF inv c])
  have reg: "registered p s \<longleftrightarrow> channels s (fd c) = Some p" using c by (simp add: registered_def)
  show ?thesis
  proof (cases "channels s (fd c) = Some p")
    case True
    let ?i = "nat (index c)"
    obtain s' pfd where s': "set_and_update f p s = Inr s'" "poller_inv s'" "channels s' = channels s"
      "chs s' = (chs s)(p \<mapsto> f c)" "pollfds s' = (pollfds s)[?i := pfd]" "?i < length (pollfds s)"
      and pfd: "pfd_events pfd = ucast (events (f c))" "real_fd (pfd_fd pfd) = fd c"
      "real_fd (pfd_fd (pollfds s ! ?i)) = fd c"
      "pfd_fd pfd = (if isNoneEvent (f c) then - fd c - 1 else pfd_fd (pollfds s ! ?i))"
      using update_registered_inv [OF inv c True f] by auto
    have "watched s' = (if isNoneEvent (f c) then (watched s)(fd c := None)
       else if watched s (fd c) = None then watched s
       else (watched s)(fd c \<mapsto> ucast (events (f c))))"
      using watched_updated [OF inv s'(2,5,6) pfd(3,2) pos] watched_at [OF inv s'(6) pfd(3) pos] pfd(1,4) pos
      by (auto simp: fun_upd_idem_iff split: if_splits)
    moreover have "registered p s'" using s'(3,4) True fc by (simp add: registered_def)
    ultimately show ?thesis using s'(1,2) True reg by (intro exI [of _ s']) simp
  next
    case False
    with a c have new: "channels s (fd c) = None" "index c < 0" by (auto simp: attachable_def)
    let ?n = "length (pollfds s)"
    obtain s' where s': "set_and_update f p s = Inr s'" "poller_inv s'"
      "channels s' = (channels s)(fd c \<mapsto> p)" "chs s' = (chs s)(p \<mapsto> set_index (int ?n) (f c))"
      "pollfds s' = pollfds s @ [\<lparr>pfd_fd = fd c, pfd_events = ucast (events (f c)), pfd_revents = 0\<rparr>]"
      using update_new_inv [OF inv c new f room] by auto
    have "watched s' = (watched s)(fd c \<mapsto> ucast (events (f c)))"
      by (rule watched_new_entry [OF inv c new(1) s'(5)])
    moreover have "registered p s'" using s'(3,4) fc by (simp add: registered_def set_index_def)
    ultimately show ?thesis using s'(1,2) False reg by (intro exI [of _ s']) simp
  qed
qed

theorem set_events_consistent_witness:
  "\<exists>s'. set_and_update want_reading 2 demo_poller = Inr s' \<and> watched s' 9 = Some 3"
proof -
  have "attachable 2 demo_poller" "\<not> registered 2 demo_poller"
    by (simp_all add: attachable_def registered_def demo_poller_def channel_new_def)
  moreover have "chs demo_poller 2 = Some (channel_new 9)" by (simp add: demo_poller_def)
  ultimately show ?thesis
    using set_events_consistent [OF demo_poller_inv, of 2 want_reading]
    by (auto simp: demo_poller_def want_reading_def channel_new_def event_masks poll_bits)
qed

text \<open>
  A channel that was disabled cannot be enabled again: once a registered channel's entry
  carries the negated descriptor, none of the four setters makes the kernel watch it.
\<close>

theorem disabled_channel_stays_disabled:
  assumes inv: "poller_inv s" and reg: "registered p s" and c: "chs s p = Some c"
    and f: "setter f" and off: "watched s (fd c) = None"
  shows "\<exists>s'. set_and_update f p s = Inr s' \<and> watched s' (fd c) = None \<and>
    chs s' p = Some (f c)"
proof -
  have ch: "channels s (fd c) = Some p" using reg c by (simp add: registered_def)
  have pos: "0 \<le> fd c" by (rule poller_invD(3) [OF inv c])
  let ?i = "nat (index c)"
  obtain s' pfd where s': "set_and_update f p s = Inr s'" "poller_inv s'"
    "chs s' = (chs s)(p \<mapsto> f c)" "pollfds s' = (pollfds s)[?i := pfd]" "?i < length (pollfds s)"
    and pfd: "real_fd (pfd_fd pfd) = fd c" "real_fd (pfd_fd (pollfds s ! ?i)) = fd c"
    "pfd_fd pfd = (if isNoneEvent (f c) then - fd c - 1 else pfd_fd (pollfds s ! ?i))"
    using update_registered_inv [OF inv c ch f] by auto
  have "pfd_fd (pollfds s ! ?i) \<noteq> fd c"
    using off watched_at [OF inv s'(5) pfd(2) pos] by auto
  then have "watched s' (fd c) = None"
    using watched_at [OF s'(2), of ?i "fd c"] s'(4,5) pfd pos by (auto split: if_splits)
  with s'(1,3) show ?thesis by auto
qed

theorem disabled_channel_stays_disabled_witness:
  "\<exists>s'. enableReading 1 demo_poller = Inr s' \<and> watched s' 6 = None"
proof -
  have h: "registered 1 demo_poller" "chs demo_poller 1 = Some ((channel_new 6)\<lparr>index := 1\<rparr>)"
    "watched demo_poller (fd ((channel_new 6)\<lparr>index := 1\<rparr> :: nat channel)) = None"
    by (simp_all add: registered_def demo_poller_def channel_new_def watched_def)
  from disabled_channel_stays_disabled [OF demo_poller_inv h(1,2) setters(1) h(3)]
  show ?thesis by (auto simp: enableReading_def channel_new_def)
qed

text \<open>
  C7.  Removing a registered channel, whatever its position in the array, unregisters it and
  nothing else: the array, the map and the indices stay consistent, the kernel stops watching
  its descriptor and watches every other one as before.
\<close>

theorem removeChannel_consistent:
  assumes inv: "poller_inv s" and reg: "registered p s" and c: "chs s p = Some c"
  shows "\<exists>s'. removeChannel p s = Inr s' \<and> poller_inv s' \<and>
    channels s' = (channels s)(fd c := None) \<and> watched s' = (watched s)(fd c := None)"
proof -
  let ?n = "length (pollfds s)" and ?i = "nat (index c)"
  have ch: "channels s (fd c) = Some p" using reg c by (simp add: registered_def)
  have "channel_ok s (fd c) p" by (rule poller_invD(2) [OF inv ch])
  then have i: "?i < ?n" "real_fd (pfd_fd (pollfds s ! ?i)) = fd c"
    using c by (auto elim: channel_okE)
  obtain s' where s': "removeChannel p s = Inr s'" "poller_inv s'"
    "channels s' = (channels s)(fd c := None)"
    and pf: "pollfds s' = (if ?i = ?n - 1 then butlast (pollfds s)
                           else (butlast (pollfds s))[?i := last (pollfds s)])"
  proof (cases "?i = ?n - 1")
    case True
    show ?thesis using remove_last_inv [OF inv c ch True] True that by auto
  next
    case False
    show ?thesis using remove_middle_inv [OF inv c ch False] False that by auto
  qed
  with watched_removed [OF inv s'(2) i pf] show ?thesis by blast
qed

theorem removeChannel_consistent_witness:
  "\<exists>s'. removeChannel 0 demo_poller = Inr s' \<and> poller_inv s' \<and> watched s' 5 = None"
proof -
  have h: "registered 0 demo_poller"
    "chs demo_poller 0 = Some ((channel_new 5)\<lparr>index := 0, events := 3\<rparr>)"
    by (simp_all add: registered_def demo_poller_def channel_new_def)
  from removeChannel_consistent [OF demo_poller_inv h] show ?thesis
    by (auto simp: channel_new_def)
qed

section \<open>What poll reports\<close>

abbreviation set_rev :: "pollfd \<Rightarrow> 16 word \<Rightarrow> pollfd" where
  "set_rev pfd r \<equiv> pfd\<lparr>pfd_revents := r\<rparr>"

lemma active_entries:
  "length xs = length rs \<Longrightarrow> filter has_event (map2 set_rev xs rs) =
     map (\<lambda>(pfd, r). set_rev pfd r) (filter (\<lambda>(pfd, r). sint r > 0) (zip xs rs))"
  by (induction xs rs rule: list_induct2) simp_all

lemma active_count:
  "length xs = length rs \<Longrightarrow> length (filter has_event (map2 set_rev xs rs)) =
     length (filter (\<lambda>r. sint r > 0) rs)"
  by (induction xs rs rule: list_induct2) simp_all

text \<open>
  What \<open>poll(2)\<close> documents: an entry with a negative descriptor reports nothing, the value
  returned is the number of entries that report events.
\<close>

definition kernel_poll :: "'cb poller \<Rightarrow> int \<Rightarrow> 16 word list \<Rightarrow> bool" where
  "kernel_poll s n revs \<longleftrightarrow>
     length revs = length (pollfds s) \<and>
     list_all2 (\<lambda>pfd r. 0 \<le> sint r \<and> (pfd_fd pfd < 0 \<longrightarrow> r = 0)) (pollfds s) revs \<and>
     n = int (length (filter (\<lambda>r. sint r > 0) revs))"

lemma kernel_pollD:
  assumes "kernel_poll s n revs"
  shows "length revs = length (pollfds s)"
    and "i < length revs \<Longrightarrow> pfd_fd (pollfds s ! i) < 0 \<Longrightarrow> revs ! i = 0"
    and "n = int (length (filter (\<lambda>r. sint r > 0) revs))"
  using assms unfolding kernel_poll_def list_all2_conv_all_nth by metis+

text \<open>The channel that owns an entry with events.\<close>

lemma active_owner:
  assumes inv: "poller_inv s" and k: "kernel_poll s n revs"
    and i: "i < length revs" "sint (revs ! i) > 0"
  shows "\<exists>c. channels s (pfd_fd (pollfds s ! i)) = Some (chan s (pollfds s ! i)) \<and>
    chs s (chan s (pollfds s ! i)) = Some c \<and> index c = int i"
proof -
  have f: "\<not> pfd_fd (pollfds s ! i) < 0"
    using kernel_pollD(2) [OF k i(1)] i(2) by (metis less_irrefl signed_0)
  have "i < length (pollfds s)" using kernel_pollD(1) [OF k] i(1) by simp
  from poller_invD(1) [OF inv this] obtain p c where
    "channels s (real_fd (pfd_fd (pollfds s ! i))) = Some p" "chs s p = Some c" "index c = int i"
    by (rule entry_okE)
  with f show ?thesis by (simp add: chan_def)
qed

lemma distinct_active:
  assumes inv: "poller_inv s" and k: "kernel_poll s n revs"
  shows "distinct (map (\<lambda>(pfd, r). chan s pfd) (filter (\<lambda>(pfd, r). sint r > 0) (zip (pollfds s) revs)))"
proof -
  let ?P = "\<lambda>(pfd, r :: 16 word). sint r > 0"
  have len: "length revs = length (pollfds s)" by (rule kernel_pollD(1) [OF k])
  have "distinct (zip (pollfds s) revs)"
  proof (rule distinct_zipI1)
    show "distinct (pollfds s)"
      unfolding distinct_conv_nth by (metis entry_unique [OF inv])
  qed
  moreover have "inj_on (\<lambda>(pfd, r). chan s pfd) (set (filter ?P (zip (pollfds s) revs)))"
  proof (rule inj_onI)
    fix x y
    assume x: "x \<in> set (filter ?P (zip (pollfds s) revs))"
      and y: "y \<in> set (filter ?P (zip (pollfds s) revs))"
      and eq: "(\<lambda>(pfd, r). chan s pfd) x = (\<lambda>(pfd, r). chan s pfd) y"
    from x len obtain i where i: "i < length revs" "x = (pollfds s ! i, revs ! i)" "sint (revs ! i) > 0"
      by (auto simp: set_zip)
    from y len obtain j where j: "j < length revs" "y = (pollfds s ! j, revs ! j)" "sint (revs ! j) > 0"
      by (auto simp: set_zip)
    have "i = j" using active_owner [OF inv k i(1,3)] active_owner [OF inv k j(1,3)] eq i(2) j(2) by auto
    with i j show "x = y" by simp
  qed
  ultimately show ?thesis by (simp add: distinct_map)
qed

lemma watched_revents:
  assumes "list_all2 (\<lambda>a b. pfd_fd a = pfd_fd b \<and> pfd_events a = pfd_events b) (pollfds s) (pollfds t)"
  shows "watched s = watched t"
proof -
  have "list_all2 (\<lambda>a b. pfd_fd a = pfd_fd b \<and> pfd_events a = pfd_events b) xs ys \<Longrightarrow>
     map_option pfd_events (find (\<lambda>pfd. pfd_fd pfd = f) xs) =
     map_option pfd_events (find (\<lambda>pfd. pfd_fd pfd = f) ys)" for xs ys f
    by (induction xs ys rule: list_all2_induct) simp_all
  with assms show ?thesis by (auto simp: watched_def fun_eq_iff)
qed

text \<open>Storing the kernel's answer and marking the channels of the entries with events.\<close>

lemma marked_inv:
  assumes inv: "poller_inv s" and len: "length revs = length (pollfds s)"
    and own: "\<And>pfd. pfd \<in> set act \<Longrightarrow> chs s (chan s pfd) \<noteq> None"
  shows "poller_inv (s\<lparr>pollfds := map2 set_rev (pollfds s) revs, chs := fold (mark s) act (chs s)\<rparr>)"
proof (rule revents_only_inv [OF inv])
  fix q
  show "(\<exists>r c. chs s q = Some c \<and> fold (mark s) act (chs s) q = Some (set_revents r c)) \<or>
    chs s q = None \<and> fold (mark s) act (chs s) q = None"
  proof (cases "chs s q")
    case None
    then have "q \<notin> chan s ` set act" using own by force
    with None show ?thesis by (simp add: fold_mark_other)
  next
    case (Some c)
    with fold_mark_some [of "chs s" q c s act] show ?thesis by auto
  qed
qed (use len in simp_all)

lemma poll_run:
  assumes inv: "poller_inv s" and ne: "pollfds s \<noteq> []" and k: "kernel_poll s n revs"
    and act: "act = filter has_event (map2 set_rev (pollfds s) revs)"
  shows "poll n revs s = Inr (map (chan s) act,
      s\<lparr>pollfds := map2 set_rev (pollfds s) revs, chs := fold (mark s) act (chs s)\<rparr>)"
    and "pfd \<in> set act \<Longrightarrow> chs s (chan s pfd) \<noteq> None"
proof -
  let ?pfds = "map2 set_rev (pollfds s) revs"
  let ?s = "s\<lparr>pollfds := ?pfds\<rparr>"
  have len: "length revs = length (pollfds s)" by (rule kernel_pollD(1) [OF k])
  have chan: "chan ?s = chan s" "mark ?s = mark s" "\<And>pfd r. chan s (set_rev pfd r) = chan s pfd"
    by (simp_all add: chan_def mark_def fun_eq_iff)
  have n: "n = int (length act)"
    using kernel_pollD(3) [OF k] active_count [of "pollfds s" revs] len act by simp
  have own: "channels s (pfd_fd pfd) \<noteq> None \<and> chs s (chan s pfd) \<noteq> None"
    if pfd: "pfd \<in> set ?pfds" "has_event pfd" for pfd
  proof -
    from pfd len obtain i where "i < length revs" "pfd = set_rev (pollfds s ! i) (revs ! i)"
      "sint (revs ! i) > 0" by (auto simp: set_zip)
    with active_owner [OF inv k this(1,3)] show ?thesis by (auto simp: chan(3))
  qed
  then show "pfd \<in> set act \<Longrightarrow> chs s (chan s pfd) \<noteq> None" unfolding act set_filter by blast
  have fill: "fillActiveChannels n ?pfds ?s = Inr (map (chan s) act, ?s\<lparr>chs := fold (mark s) act (chs s)\<rparr>)"
    using fillActiveChannels_run [of ?pfds ?s n] own n act by (simp add: chan)
  show "poll n revs s = Inr (map (chan s) act, s\<lparr>pollfds := ?pfds, chs := fold (mark s) act (chs s)\<rparr>)"
  proof (cases "n > 0")
    case True
    with ne fill show ?thesis by (simp add: poll_def Let_def)
  next
    case False
    with n have "length act = 0" by linarith
    then have e: "act = []" by (simp only: length_0_conv)
    from ne False show ?thesis unfolding poll_def Let_def e by simp
  qed
qed

text \<open>
  C19.  \<open>poll\<close> reports exactly the channels for which the kernel reports events, in the order
  of the array, each with its events in \<open>revents_\<close>; the tables stay consistent, the kernel
  goes on watching the same descriptors, and no lookup of a descriptor fails.
\<close>

theorem poll_reports_ready_channels:
  assumes inv: "poller_inv s" and ne: "pollfds s \<noteq> []" and k: "kernel_poll s n revs"
  shows "\<exists>s'. poll n revs s =
      Inr (map (\<lambda>(pfd, r). chan s pfd) (filter (\<lambda>(pfd, r). sint r > 0) (zip (pollfds s) revs)), s') \<and>
    poller_inv s' \<and> watched s' = watched s \<and>
    (\<forall>i < length revs. sint (revs ! i) > 0 \<longrightarrow>
       chs s' (chan s (pollfds s ! i)) =
         map_option (set_revents (scast (revs ! i))) (chs s (chan s (pollfds s ! i))))"
proof -
  let ?pfds = "map2 set_rev (pollfds s) revs"
  let ?act = "filter has_event ?pfds"
  let ?s' = "s\<lparr>pollfds := ?pfds, chs := fold (mark s) ?act (chs s)\<rparr>"
  have len: "length revs = length (pollfds s)" by (rule kernel_pollD(1) [OF k])
  have chan: "chan s (set_rev pfd r) = chan s pfd" for pfd r by (simp add: chan_def)
  have ids: "map (chan s) ?act =
      map (\<lambda>(pfd, r). chan s pfd) (filter (\<lambda>(pfd, r). sint r > 0) (zip (pollfds s) revs))"
    unfolding active_entries [OF len [symmetric]] by (simp add: chan case_prod_unfold)
  note run = poll_run [OF inv ne k refl]
  have w: "watched ?s' = watched s"
    by (rule watched_revents [symmetric]) (simp add: list_all2_conv_all_nth len)
  have rev: "chs ?s' (chan s (pollfds s ! i)) =
      map_option (set_revents (scast (revs ! i))) (chs s (chan s (pollfds s ! i)))"
    if i: "i < length revs" "sint (revs ! i) > 0" for i
  proof -
    obtain c where c: "chs s (chan s (pollfds s ! i)) = Some c" using active_owner [OF inv k i] by blast
    have "set_rev (pollfds s ! i) (revs ! i) \<in> set ?act"
      using i len by (auto simp: set_zip)
    from fold_mark_at [OF _ this, of s "chs s" c] c
    show ?thesis using distinct_active [OF inv k] by (simp add: ids chan)
  qed
  show ?thesis
    using run(1) [unfolded ids] marked_inv [OF inv len run(2)] w rev by (intro exI [of _ ?s']) blast
qed

theorem poll_reports_ready_channels_witness:
  "\<exists>s'. poll 1 [1, 0] demo_poller = Inr ([0], s') \<and> poller_inv s' \<and> watched s' = watched demo_poller"
proof -
  have "pollfds demo_poller \<noteq> []" "kernel_poll demo_poller 1 [1, 0]"
    by (simp_all add: demo_poller_def kernel_poll_def)
  note h = this
  from poll_reports_ready_channels [OF demo_poller_inv h] show ?thesis
    by (auto simp: demo_poller_def chan_def)
qed
end
