(* ===== verification/LogStream.thy ===== *)
theory LogStream
  imports Timestamps "HOL-Library.Sublist"
begin

text \<open>
  \<open>LogStream.h\<close>, \<open>LogStream.cc\<close>: a fixed array of 4000 characters with a cursor, and the
  insertion operators that append text and integers to it.  A write that does not fit is
  skipped; a write outside the array would be undefined behaviour.  The array starts with
  whatever the memory held (an argument of the constructor).

  A C string is the list of its characters before the terminating NUL.
\<close>

section \<open>The fixed buffer\<close>

definition kSmallBuffer :: nat where
  "kSmallBuffer = 4000"

definition kMaxNumericSize :: int where
  "kMaxNumericSize = 32"

record fixed_buffer =
  data :: string
  cur :: nat

definition fixed_buffer_new :: "string \<Rightarrow> fixed_buffer" where
  "fixed_buffer_new memory = \<lparr>data = memory, cur = 0\<rparr>"

definition write_at :: "nat \<Rightarrow> string \<Rightarrow> string \<Rightarrow> string outcome" where
  "write_at i s xs =
     (if i + length s \<le> length xs then Inr (take i xs @ s @ drop (i + length s) xs) else Inl UB)"

definition buf_length :: "fixed_buffer \<Rightarrow> int" where
  "buf_length b = int_of_size (cur b)"

definition avail :: "fixed_buffer \<Rightarrow> int" where
  "avail b = int (length (data b)) - int (cur b)"

definition buf_append :: "string \<Rightarrow> int \<Rightarrow> fixed_buffer \<Rightarrow> fixed_buffer outcome" where
  "buf_append s len b =
     (if avail b > len
      then bindO (guardO (0 \<le> len \<and> nat len \<le> length s)) (\<lambda>_.
           bindO (write_at (cur b) (take (nat len) s) (data b)) (\<lambda>d.
             Inr (b\<lparr>data := d, cur := cur b + nat len\<rparr>)))
      else Inr b)"

definition buf_add :: "nat \<Rightarrow> fixed_buffer \<Rightarrow> fixed_buffer" where
  "buf_add len b = b\<lparr>cur := cur b + len\<rparr>"

text \<open>What has been written: \<open>data()\<close> up to \<open>length()\<close>.\<close>

definition text_of :: "fixed_buffer \<Rightarrow> string" where
  "text_of b = take (cur b) (data b)"

section \<open>Integers\<close>

definition digits :: string where
  "digits = ''9876543210123456789''"

text \<open>
  The \<open>do\<close> loop of \<open>convert\<close>: the digits in the order they are stored.  \<open>zero\<close> points into
  the middle of \<open>digits\<close>, so that negative remainders index it too.
\<close>

function convert_loop :: "int \<Rightarrow> string outcome" where
  "convert_loop i =
     (let lsd = i smod 10; i' = i sdiv 10
      in bindO (guardO (0 \<le> 9 + lsd)) (\<lambda>_.
         bindO (nthO digits (nat (9 + lsd))) (\<lambda>c.
           if i' \<noteq> 0 then bindO (convert_loop i') (\<lambda>cs. Inr (c # cs)) else Inr [c])))"
  by pat_completeness auto
termination
  by (relation "measure (\<lambda>i. nat \<bar>i\<bar>)") (auto simp: signed_divide_int_def abs_mult sgn_if)

declare convert_loop.simps [simp del]

definition convert :: "nat \<Rightarrow> int \<Rightarrow> string \<Rightarrow> (nat \<times> string) outcome" where
  "convert at value mem =
     bindO (convert_loop value) (\<lambda>ds.
       let chars = ds @ (if value < 0 then ''-'' else [])
       in bindO (write_at at (rev chars @ [CHR 0x00]) mem) (\<lambda>mem'. Inr (length chars, mem')))"

definition formatInteger :: "int \<Rightarrow> fixed_buffer \<Rightarrow> fixed_buffer outcome" where
  "formatInteger v b =
     (if avail b \<ge> kMaxNumericSize
      then bindO (convert (cur b) v (data b)) (\<lambda>(len, d). Inr (buf_add len (b\<lparr>data := d\<rparr>)))
      else Inr b)"

section \<open>The insertion operators\<close>

type_synonym log_stream = fixed_buffer

definition put_char :: "char \<Rightarrow> log_stream \<Rightarrow> log_stream outcome" where
  "put_char v b = buf_append [v] 1 b"

definition put_cstr :: "string \<Rightarrow> log_stream \<Rightarrow> log_stream outcome" where
  "put_cstr v b = buf_append v (int_of_size (length v)) b"

text \<open>\<open>T(str, len)\<close> asserts the length before the stream sees it.\<close>

definition T_new :: "string \<Rightarrow> nat \<Rightarrow> (string \<times> nat) outcome" where
  "T_new str len = bindO (assertO (length str = len)) (\<lambda>_. Inr (str, len))"

definition put_T :: "string \<times> nat \<Rightarrow> log_stream \<Rightarrow> log_stream outcome" where
  "put_T v b = buf_append (fst v) (int_of_size (snd v)) b"

definition put_int :: "int \<Rightarrow> log_stream \<Rightarrow> log_stream outcome" where
  "put_int v b = formatInteger v b"

text \<open>\<open>Fmt(fmt, val)\<close>: the rendered text, cut to the 32 bytes of \<open>buf_\<close>.\<close>

definition Fmt_data :: "string \<Rightarrow> string" where
  "Fmt_data rendered = snprintf 32 rendered"

section \<open>Every write stays inside the array\<close>

definition wf_stream :: "log_stream \<Rightarrow> bool" where
  "wf_stream b \<longleftrightarrow> length (data b) = kSmallBuffer \<and> cur b < kSmallBuffer"

lemma wf_stream_new: "length memory = kSmallBuffer \<Longrightarrow> wf_stream (fixed_buffer_new memory)"
  by (simp add: wf_stream_def fixed_buffer_new_def kSmallBuffer_def)

lemma write_at_ok:
  "i + length s \<le> length xs \<Longrightarrow> write_at i s xs = Inr (take i xs @ s @ drop (i + length s) xs)"
  by (simp add: write_at_def)

text \<open>
  The text that \<open>append\<close> leaves, for any C string of at most \<open>INT_MAX\<close> characters: all of it
  or nothing.
\<close>

definition fits :: "string \<Rightarrow> log_stream \<Rightarrow> bool" where
  "fits s b \<longleftrightarrow> length (text_of b) + length s < kSmallBuffer"

lemma length_text_of: "wf_stream b \<Longrightarrow> length (text_of b) = cur b"
  by (simp add: wf_stream_def text_of_def)

lemma buf_append_run:
  assumes wf: "wf_stream b"
  shows "\<exists>b'. buf_append s (int (length s)) b = Inr b' \<and> wf_stream b' \<and>
    text_of b' = (if fits s b then text_of b @ s else text_of b)"
proof (cases "fits s b")
  case True
  then have lt: "cur b + length s < kSmallBuffer" using length_text_of [OF wf] by (simp add: fits_def)
  let ?d = "take (cur b) (data b) @ s @ drop (cur b + length s) (data b)"
  have "buf_append s (int (length s)) b = Inr (b\<lparr>data := ?d, cur := cur b + length s\<rparr>)"
    using wf lt by (simp add: buf_append_def avail_def wf_stream_def write_at_def)
  then show ?thesis using wf lt True
    by (intro exI [of _ "b\<lparr>data := ?d, cur := cur b + length s\<rparr>"])
      (simp add: wf_stream_def text_of_def)
next
  case False
  then have "\<not> avail b > int (length s)"
    using length_text_of [OF wf] wf by (simp add: fits_def avail_def wf_stream_def)
  with False wf show ?thesis by (simp add: buf_append_def)
qed

section \<open>The digits of an integer\<close>

lemma smod_range: "- 9 \<le> i smod 10 \<and> i smod 10 \<le> (9 :: int)"
  using pos_mod_bound [of 10 "\<bar>i\<bar>"] pos_mod_sign [of 10 "\<bar>i\<bar>"]
  by (auto simp: signed_modulo_int_def sgn_if)

lemma digits_nth:
  assumes "- 9 \<le> d" "d \<le> 9"
  shows "nat (9 + d) < length digits \<and> digits ! nat (9 + d) = digit (nat \<bar>d\<bar>)"
proof -
  have "d \<in> {- 9, - 8, - 7, - 6, - 5, - 4, - 3, - 2, - 1, 0, 1, 2, 3, 4, 5, 6, 7, 8, 9}"
    using assms unfolding insert_iff empty_iff by presburger
  then show ?thesis by (auto simp: digits_def)
qed

lemma convert_loop_run: "convert_loop i = Inr (rev (dec_nat (nat \<bar>i\<bar>)))"
proof (induction i rule: convert_loop.induct)
  case (1 i)
  let ?d = "i smod 10"
  have r: "0 \<le> 9 + ?d" "- 9 \<le> ?d" "?d \<le> 9" using smod_range [of i] by simp_all
  note dn = digits_nth [OF r(2,3)]
  have q: "nat \<bar>i sdiv 10\<bar> = nat \<bar>i\<bar> div 10" and m: "nat \<bar>?d\<bar> = nat \<bar>i\<bar> mod 10"
    by (auto simp: signed_divide_int_def signed_modulo_int_def abs_mult sgn_if nat_div_distrib nat_mod_distrib)
  have z: "i sdiv 10 = 0 \<longleftrightarrow> nat \<bar>i\<bar> < 10"
    using q by (metis div_eq_0_iff nat_0_iff abs_le_zero_iff zero_neq_numeral)
  show ?case
  proof (cases "i sdiv 10 = 0")
    case True
    with z have "nat \<bar>i\<bar> < 10" by simp
    with True r dn m show ?thesis by (subst convert_loop.simps) (simp add: Let_def dec_nat_small)
  next
    case False
    with z have "\<not> nat \<bar>i\<bar> < 10" by simp
    moreover have "convert_loop (i sdiv 10) = Inr (rev (dec_nat (nat \<bar>i\<bar> div 10)))"
      using "1.IH" [OF refl refl False] q by simp
    ultimately show ?thesis using False r dn m
      by (subst convert_loop.simps) (simp add: Let_def dec_nat_ge)
  qed
qed

lemma length_dec_int: "in_i32 v \<Longrightarrow> length (dec_int v) \<le> 11"
proof -
  assume v: "in_i32 v"
  then have "\<bar>v\<bar> < 10 ^ 10" unfolding in_i32_def by auto
  then have "nat \<bar>v\<bar> < 10 ^ 10" by (simp add: nat_less_iff)
  then have "length (dec_nat (nat \<bar>v\<bar>)) \<le> 10" by (intro length_dec_nat) simp_all
  then show ?thesis by (cases "v < 0") (simp_all add: dec_int_def)
qed

lemma convert_run:
  "convert at v mem =
     bindO (write_at at (dec_int v @ [CHR 0x00]) mem) (\<lambda>mem'. Inr (length (dec_int v), mem'))"
  by (simp add: convert_def convert_loop_run dec_int_def)

lemma formatInteger_run:
  assumes wf: "wf_stream b" and v: "in_i32 v"
  shows "\<exists>b'. formatInteger v b = Inr b' \<and> wf_stream b' \<and>
    text_of b' = (if length (text_of b) + 32 \<le> kSmallBuffer then text_of b @ dec_int v else text_of b)"
proof (cases "length (text_of b) + 32 \<le> kSmallBuffer")
  case True
  let ?s = "dec_int v @ [CHR 0x00]"
  let ?d = "take (cur b) (data b) @ ?s @ drop (cur b + length ?s) (data b)"
  let ?b = "b\<lparr>data := ?d, cur := cur b + length (dec_int v)\<rparr>"
  have c: "cur b + 32 \<le> kSmallBuffer" using True length_text_of [OF wf] by simp
  have len: "length (dec_int v) \<le> 11" by (rule length_dec_int [OF v])
  have "write_at (cur b) ?s (data b) = Inr ?d"
    using c len wf by (intro write_at_ok) (simp add: wf_stream_def)
  then have "formatInteger v b = Inr ?b"
    using c wf by (simp add: formatInteger_def convert_run avail_def kMaxNumericSize_def
        wf_stream_def buf_add_def)
  moreover have "wf_stream ?b" using wf c len by (simp add: wf_stream_def)
  moreover have "text_of ?b = text_of b @ dec_int v"
    using wf c len by (simp add: text_of_def wf_stream_def)
  ultimately show ?thesis using True by (intro exI [of _ ?b]) simp
next
  case False
  then have "\<not> avail b \<ge> kMaxNumericSize"
    using length_text_of [OF wf] wf by (simp add: avail_def kMaxNumericSize_def wf_stream_def)
  with False wf show ?thesis by (simp add: formatInteger_def)
qed

section \<open>A chain of insertions\<close>

text \<open>
  The interface of a bounded sink of text, for the code that writes a message piece by piece:
  every piece is appended whole or dropped whole.
\<close>

locale text_sink =
  fixes ok :: "'s \<Rightarrow> bool"
    and content :: "'s \<Rightarrow> string"
    and put :: "'x \<Rightarrow> 's \<Rightarrow> 's outcome"
    and render :: "'x \<Rightarrow> string"
    and room :: "'x \<Rightarrow> nat"
    and capacity :: nat
    and admissible :: "'x \<Rightarrow> bool"
  assumes put_whole: "ok s \<Longrightarrow> admissible x \<Longrightarrow>
      \<exists>s'. put x s = Inr s' \<and> ok s' \<and>
        content s' = (if length (content s) + room x \<le> capacity then content s @ render x else content s)"
    and render_room: "admissible x \<Longrightarrow> length (render x) \<le> room x"
begin

fun puts :: "'x list \<Rightarrow> 's \<Rightarrow> 's outcome" where
  "puts [] s = Inr s"
| "puts (x # xs) s = bindO (put x s) (puts xs)"

lemma puts_subseq:
  "ok s \<Longrightarrow> \<forall>x \<in> set xs. admissible x \<Longrightarrow>
   \<exists>s' ys. puts xs s = Inr s' \<and> ok s' \<and> subseq ys xs \<and> content s' = content s @ concat (map render ys)"
proof (induction xs arbitrary: s)
  case Nil
  then show ?case by (intro exI [of _ s] exI [of _ "[]"]) simp
next
  case (Cons x xs)
  obtain s1 where s1: "put x s = Inr s1" "ok s1"
    "content s1 = (if length (content s) + room x \<le> capacity then content s @ render x else content s)"
    using put_whole [OF Cons.prems(1), of x] Cons.prems(2) by auto
  obtain s' ys where s': "puts xs s1 = Inr s'" "ok s'" "subseq ys xs"
    "content s' = content s1 @ concat (map render ys)"
    using Cons.IH [OF s1(2)] Cons.prems(2) by auto
  let ?ys = "if length (content s) + room x \<le> capacity then x # ys else ys"
  have "subseq ?ys (x # xs)" using s'(3) by auto
  with s1 s' show ?case by (intro exI [of _ s'] exI [of _ ?ys]) simp
qed

lemma puts_fit:
  "ok s \<Longrightarrow> \<forall>x \<in> set xs. admissible x \<Longrightarrow>
   length (content s) + sum_list (map room xs) \<le> capacity \<Longrightarrow>
   \<exists>s'. puts xs s = Inr s' \<and> ok s' \<and> content s' = content s @ concat (map render xs)"
proof (induction xs arbitrary: s)
  case (Cons x xs)
  obtain s1 where s1: "put x s = Inr s1" "ok s1" "content s1 = content s @ render x"
    using put_whole [OF Cons.prems(1), of x] Cons.prems(2,3) by auto
  have "length (content s1) + sum_list (map room xs) \<le> capacity"
    using Cons.prems(2,3) s1(3) render_room [of x] by simp
  with Cons.IH [OF s1(2)] Cons.prems(2) obtain s' where
    "puts xs s1 = Inr s'" "ok s'" "content s' = content s1 @ concat (map render xs)" by auto
  with s1 show ?case by simp
qed simp

end

text \<open>What a log statement inserts: texts (\<open>const char*\<close>, \<open>char\<close>, \<open>T\<close>) and integers.\<close>

datatype log_item = Chars string | Number int

fun put_item :: "log_item \<Rightarrow> log_stream \<Rightarrow> log_stream outcome" where
  "put_item (Chars s) b = put_cstr s b"
| "put_item (Number v) b = put_int v b"

fun put_items :: "log_item list \<Rightarrow> log_stream \<Rightarrow> log_stream outcome" where
  "put_items [] b = Inr b"
| "put_items (x # xs) b = bindO (put_item x b) (put_items xs)"

fun item_text :: "log_item \<Rightarrow> string" where
  "item_text (Chars s) = s"
| "item_text (Number v) = dec_int v"

fun item_room :: "log_item \<Rightarrow> nat" where
  "item_room (Chars s) = Suc (length s)"
| "item_room (Number v) = nat kMaxNumericSize"

fun item_ok :: "log_item \<Rightarrow> bool" where
  "item_ok (Chars s) = (length s < 2 ^ 31)"
| "item_ok (Number v) = in_i32 v"

lemma put_item_whole:
  assumes "wf_stream b" "item_ok x"
  shows "\<exists>b'. put_item x b = Inr b' \<and> wf_stream b' \<and>
    text_of b' = (if length (text_of b) + item_room x \<le> kSmallBuffer then text_of b @ item_text x
                  else text_of b)"
proof (cases x)
  case (Chars s)
  then have "put_item x b = buf_append s (int (length s)) b"
    using assms(2) by (simp add: put_cstr_def int_of_size_small)
  with buf_append_run [OF assms(1), of s] Chars show ?thesis
    by (auto simp: fits_def Suc_le_eq)
next
  case (Number v)
  with formatInteger_run [OF assms(1), of v] assms(2) show ?thesis
    by (auto simp: put_int_def kMaxNumericSize_def)
qed

interpretation sink: text_sink wf_stream text_of put_item item_text item_room kSmallBuffer item_ok
proof
  fix x assume "item_ok x"
  then show "length (item_text x) \<le> item_room x"
    using length_dec_int by (cases x) (force simp: kMaxNumericSize_def)+
qed (rule put_item_whole)

lemma sink_puts: "sink.puts = put_items"
proof (intro ext)
  show "sink.puts xs b = put_items xs b" for xs b
  proof (induction xs arbitrary: b)
    case (Cons x xs)
    then show ?case by (cases "put_item x b") simp_all
  qed simp
qed

section \<open>Properties\<close>

definition demo_stream :: log_stream where
  "demo_stream = fixed_buffer_new (replicate kSmallBuffer (CHR ''?''))"

lemma wf_demo_stream: "wf_stream demo_stream"
  by (simp add: demo_stream_def wf_stream_new)

text \<open>
  C26.  A chain of insertions never writes outside the array of 4000 characters, whatever was
  inserted before: it appends whole pieces, in order, and skips the pieces that do not fit.
\<close>

theorem log_stream_never_overruns:
  assumes "wf_stream b" and "\<forall>x \<in> set xs. item_ok x"
  shows "\<exists>b' ys. put_items xs b = Inr b' \<and> wf_stream b' \<and> subseq ys xs \<and>
    text_of b' = text_of b @ concat (map item_text ys)"
  using sink.puts_subseq [OF assms] unfolding sink_puts .

theorem log_stream_never_overruns_witness:
  "\<exists>b' ys. put_items [Chars ''errno='', Number (- 7)] demo_stream = Inr b' \<and> wf_stream b' \<and>
    subseq ys [Chars ''errno='', Number (- 7)] \<and>
    text_of b' = text_of demo_stream @ concat (map item_text ys)"
  by (rule log_stream_never_overruns [OF wf_demo_stream]) (simp add: in_i32_def)

text \<open>
  C27.  \<open>operator<<(int)\<close> appends the decimal notation of every \<open>int\<close>, \<open>INT_MIN\<close> included,
  when 32 characters are left, and nothing otherwise; the digit table is never indexed outside
  its bounds.
\<close>

theorem put_int_decimal:
  assumes "wf_stream b" and "in_i32 v"
  shows "\<exists>b'. put_int v b = Inr b' \<and> wf_stream b' \<and>
    text_of b' = (if length (text_of b) + 32 \<le> kSmallBuffer then text_of b @ dec_int v else text_of b)"
  using formatInteger_run [OF assms] by (simp add: put_int_def)

theorem put_int_decimal_witness:
  "\<exists>b'. put_int (- (2 ^ 31)) demo_stream = Inr b' \<and> text_of b' = ''-2147483648''"
proof -
  have "length (text_of demo_stream) = 0"
    using length_text_of [OF wf_demo_stream] by (simp add: demo_stream_def fixed_buffer_new_def)
  moreover have "dec_int (- (2 ^ 31)) = ''-2147483648''"
    by (simp add: dec_int_def dec_nat_ge dec_nat_small)
  ultimately show ?thesis
    using put_int_decimal [OF wf_demo_stream, of "- (2 ^ 31)"] by (auto simp: in_i32_def kSmallBuffer_def)
qed

end
