(* ===== verification/Logging.thy ===== *)
theory Logging
  imports LogStream
begin

text \<open>
  \<open>Logging.h\<close>, \<open>Logging.cc\<close>: a \<open>Logger\<close> object lives for one log statement.  Its constructor
  writes the time, the level and, where asked for, the text of \<open>errno\<close>; the statement inserts
  its items; the destructor adds the place in the source, hands the line to \<open>g_output\<close> and ends
  the process after a \<open>FATAL\<close> message.

  The environment holds the level in force, the lines given to \<open>g_output\<close>, the calls of
  \<open>g_flush\<close>, \<open>errno\<close>, the clock, the texts of \<open>strerror_r\<close> and the uninitialised memory in
  which the message buffer is built.  An \<open>abort()\<close> after the line has been printed is the
  Boolean of the result, so that what was printed before it remains visible; a failed
  \<open>assert\<close> is the fault \<open>Abort\<close>.
\<close>

section \<open>Levels and environment\<close>

datatype LogLevel = TRACE | DEBUG | INFO | WARN | ERROR | FATAL

fun level_num :: "LogLevel \<Rightarrow> nat" where
  "level_num TRACE = 0"
| "level_num DEBUG = 1"
| "level_num INFO = 2"
| "level_num WARN = 3"
| "level_num ERROR = 4"
| "level_num FATAL = 5"

definition LogLevelName :: "string list" where
  "LogLevelName = [''TRACE '', ''DEBUG '', ''INFO  '', ''WARN  '', ''ERROR '', ''FATAL '']"

record log_env =
  g_logLevel :: LogLevel
  printed :: "string list"
  flushes :: nat
  errno :: int
  wall_clock :: "nat \<Rightarrow> int \<times> int"
  readings :: nat
  strerror :: "int \<Rightarrow> string"
  stack_memory :: string

definition initLogLevel :: LogLevel where
  "initLogLevel = TRACE"

definition logLevel :: "log_env \<Rightarrow> LogLevel" where
  "logLevel e = g_logLevel e"

definition setLogLevel :: "LogLevel \<Rightarrow> log_env \<Rightarrow> log_env" where
  "setLogLevel l e = e\<lparr>g_logLevel := l\<rparr>"

section \<open>Calendar time\<close>

text \<open>
  \<open>gmtime_r\<close> of the C library, for the proleptic Gregorian calendar: 400 years are 146097
  days; inside them the years and then the months are counted off.
\<close>

record tm =
  tm_sec :: int
  tm_min :: int
  tm_hour :: int
  tm_mday :: int
  tm_mon :: int
  tm_year :: int

definition leap :: "int \<Rightarrow> bool" where
  "leap y \<longleftrightarrow> y mod 4 = 0 \<and> (y mod 100 \<noteq> 0 \<or> y mod 400 = 0)"

definition days_in_year :: "int \<Rightarrow> int" where
  "days_in_year y = (if leap y then 366 else 365)"

definition month_lengths :: "int \<Rightarrow> int list" where
  "month_lengths y = [31, if leap y then 29 else 28, 31, 30, 31, 30, 31, 31, 30, 31, 30, 31]"

function split_year :: "int \<Rightarrow> int \<Rightarrow> int \<times> int" where
  "split_year y d =
     (if d < days_in_year y then (y, d) else split_year (y + 1) (d - days_in_year y))"
  by pat_completeness auto
termination
  by (relation "measure (\<lambda>(y, d). nat d)") (auto simp: days_in_year_def split: if_splits)

declare split_year.simps [simp del]

fun split_month :: "int list \<Rightarrow> int \<Rightarrow> int \<Rightarrow> int \<times> int" where
  "split_month [] m d = (m, d)"
| "split_month (l # ls) m d = (if d < l then (m, d) else split_month ls (m + 1) (d - l))"

definition gmtime_r :: "int \<Rightarrow> tm" where
  "gmtime_r seconds =
     (let days = seconds div 86400;
          rest = seconds mod 86400;
          (y, yday) = split_year 1970 (days mod 146097);
          (mon, mday) = split_month (month_lengths y) 0 yday
      in \<lparr>tm_sec = rest mod 60, tm_min = rest mod 3600 div 60, tm_hour = rest div 3600,
          tm_mday = mday + 1, tm_mon = mon, tm_year = y + 400 * (days div 146097) - 1900\<rparr>)"

section \<open>The logger\<close>

text \<open>\<open>%<w>d\<close>: padded with blanks.\<close>

definition fmt_d :: "nat \<Rightarrow> int \<Rightarrow> string" where
  "fmt_d w i = replicate (w - length (dec_int i)) (CHR '' '') @ dec_int i"

record impl =
  msg_stream :: log_stream
  msg_level :: LogLevel
  msg_line :: int
  fullname :: string
  basename :: string
  msg_time :: timestamp

definition base_name :: "string \<Rightarrow> string" where
  "base_name file = rev (takeWhile (\<lambda>c. c \<noteq> CHR ''/'') (rev file))"

definition put_T_checked :: "string \<Rightarrow> nat \<Rightarrow> log_stream \<Rightarrow> log_stream outcome" where
  "put_T_checked str len b = bindO (T_new str len) (\<lambda>t. put_T t b)"

definition formatTime :: "timestamp \<Rightarrow> log_stream \<Rightarrow> log_stream outcome" where
  "formatTime time b =
     (let microSecondsSinceEpoch = microSecondsSinceEpoch time;
          seconds = microSecondsSinceEpoch sdiv 1000000;
          microseconds = microSecondsSinceEpoch smod 1000000;
          tm_time = gmtime_r seconds;
          t_time = snprintf 32 (fmt_d 4 (tm_year tm_time + 1900) @ fmt_0d 2 (tm_mon tm_time + 1) @
            fmt_0d 2 (tm_mday tm_time) @ '' '' @ fmt_0d 2 (tm_hour tm_time) @ '':'' @
            fmt_0d 2 (tm_min tm_time) @ '':'' @ fmt_0d 2 (tm_sec tm_time));
          us = Fmt_data (''.'' @ fmt_0d 6 microseconds @ ''Z '')
      in bindO (T_new t_time 17) (\<lambda>t1.
         bindO (T_new us 9) (\<lambda>t2.
         bindO (put_T t1 b) (put_T t2))))"

definition Impl_new ::
    "LogLevel \<Rightarrow> int \<Rightarrow> string \<Rightarrow> int \<Rightarrow> log_env \<Rightarrow> (impl \<times> log_env) outcome" where
  "Impl_new level savedErrno file line e =
     bindO (Timestamp_now (wall_clock e (readings e))) (\<lambda>time.
     bindO (formatTime time (fixed_buffer_new (stack_memory e))) (\<lambda>b1.
     bindO (nthO LogLevelName (level_num level)) (\<lambda>name.
     bindO (put_T_checked name 6 b1) (\<lambda>b2.
     bindO (if savedErrno \<noteq> 0
            then put_items [Chars (strerror e savedErrno), Chars '' (errno='', Number savedErrno,
                            Chars '') ''] b2
            else Inr b2) (\<lambda>b3.
       Inr (\<lparr>msg_stream = b3, msg_level = level, msg_line = line, fullname = file,
             basename = base_name file, msg_time = time\<rparr>,
            e\<lparr>readings := Suc (readings e)\<rparr>))))))"

definition finish :: "impl \<Rightarrow> impl outcome" where
  "finish i =
     bindO (put_items [Chars '' - '', Chars (basename i), Chars '':'', Number (msg_line i),
                       Chars [CHR 0x0A]] (msg_stream i)) (\<lambda>b.
       Inr (i\<lparr>msg_stream := b\<rparr>))"

definition Logger_func ::
    "string \<Rightarrow> int \<Rightarrow> LogLevel \<Rightarrow> string \<Rightarrow> log_env \<Rightarrow> (impl \<times> log_env) outcome" where
  "Logger_func file line level func e =
     bindO (Impl_new level 0 file line e) (\<lambda>(i, e1).
     bindO (put_items [Chars func, Chars '' ''] (msg_stream i)) (\<lambda>b. Inr (i\<lparr>msg_stream := b\<rparr>, e1)))"

definition Logger_info :: "string \<Rightarrow> int \<Rightarrow> log_env \<Rightarrow> (impl \<times> log_env) outcome" where
  "Logger_info file line = Impl_new INFO 0 file line"

definition Logger_level :: "string \<Rightarrow> int \<Rightarrow> LogLevel \<Rightarrow> log_env \<Rightarrow> (impl \<times> log_env) outcome" where
  "Logger_level file line level = Impl_new level 0 file line"

definition Logger_err :: "string \<Rightarrow> int \<Rightarrow> bool \<Rightarrow> log_env \<Rightarrow> (impl \<times> log_env) outcome" where
  "Logger_err file line toAbort e =
     Impl_new (if toAbort then FATAL else ERROR) (errno e) file line e"

definition Logger_destroy :: "impl \<Rightarrow> log_env \<Rightarrow> (bool \<times> log_env) outcome" where
  "Logger_destroy i e =
     bindO (finish i) (\<lambda>i'.
       let e1 = e\<lparr>printed := printed e @ [text_of (msg_stream i')]\<rparr>
       in if msg_level i' = FATAL then Inr (True, e1\<lparr>flushes := Suc (flushes e1)\<rparr>)
          else Inr (False, e1))"

definition log_statement ::
    "(log_env \<Rightarrow> (impl \<times> log_env) outcome) \<Rightarrow> log_item list \<Rightarrow> log_env
       \<Rightarrow> (bool \<times> log_env) outcome" where
  "log_statement ctor body e =
     bindO (ctor e) (\<lambda>(i, e1).
     bindO (put_items body (msg_stream i)) (\<lambda>b. Logger_destroy (i\<lparr>msg_stream := b\<rparr>) e1))"

text \<open>The macros.\<close>

definition when_level :: "LogLevel \<Rightarrow> (log_env \<Rightarrow> (bool \<times> log_env) outcome) \<Rightarrow> log_env
    \<Rightarrow> (bool \<times> log_env) outcome" where
  "when_level l st e = (if level_num (logLevel e) \<le> level_num l then st e else Inr (False, e))"

definition LOG_TRACE where
  "LOG_TRACE file line func body =
     when_level TRACE (log_statement (Logger_func file line TRACE func) body)"

definition LOG_DEBUG where
  "LOG_DEBUG file line func body =
     when_level DEBUG (log_statement (Logger_func file line DEBUG func) body)"

definition LOG_INFO where
  "LOG_INFO file line body = when_level INFO (log_statement (Logger_info file line) body)"

definition LOG_WARN where
  "LOG_WARN file line body = log_statement (Logger_level file line WARN) body"

definition LOG_ERROR where
  "LOG_ERROR file line body = log_statement (Logger_level file line ERROR) body"

definition LOG_FATAL where
  "LOG_FATAL file line body = log_statement (Logger_level file line FATAL) body"

definition LOG_SYSERR where
  "LOG_SYSERR file line body = log_statement (Logger_err file line False) body"

definition LOG_SYSFATAL where
  "LOG_SYSFATAL file line body = log_statement (Logger_err file line True) body"

section \<open>The calendar\<close>

text \<open>The number of days from the epoch to the first of January of a year, in closed form.\<close>

definition leap_days :: "int \<Rightarrow> int" where
  "leap_days y = y div 4 - y div 100 + y div 400"

definition days_before_year :: "int \<Rightarrow> int" where
  "days_before_year y = 365 * (y - 1970) + leap_days (y - 1) - 477"

definition timegm :: "tm \<Rightarrow> int" where
  "timegm t =
     (let y = tm_year t + 1900
      in 86400 * (days_before_year y + sum_list (take (nat (tm_mon t)) (month_lengths y)) +
                  (tm_mday t - 1)) +
         3600 * tm_hour t + 60 * tm_min t + tm_sec t)"

lemma div_step: "0 < k \<Longrightarrow> y div k - (y - 1) div k = (if y mod k = 0 then 1 else 0)" for y k :: int
proof -
  assume k: "0 < k"
  have y: "y = k * (y div k) + y mod k" by simp
  show ?thesis
  proof (cases "y mod k = 0")
    case True
    then have "y - 1 = (y div k - 1) * k + (k - 1)" using y by (simp add: algebra_simps)
    then have "(y - 1) div k = (y div k - 1) + (k - 1) div k"
      using k by (metis div_mult_self3 less_irrefl add.commute)
    with True k show ?thesis by simp
  next
    case False
    have "y - 1 = (y div k) * k + (y mod k - 1)" using y by (simp add: algebra_simps)
    then have "(y - 1) div k = y div k + (y mod k - 1) div k"
      using k by (metis div_mult_self3 less_irrefl add.commute)
    moreover have "0 \<le> y mod k - 1" "y mod k - 1 < k"
      using False k pos_mod_sign [of k y] pos_mod_bound [of k y] by linarith+
    ultimately show ?thesis using False by simp
  qed
qed

lemma leap_days_step: "leap_days y - leap_days (y - 1) = (if leap y then 1 else 0)"
proof -
  have comb: "(p - q + r) - (p' - q' + r') = (if A \<and> (\<not> B \<or> C) then 1 else 0)"
    if "p - p' = (if A then 1 else 0)" "q - q' = (if B then 1 else 0)" "r - r' = (if C then 1 else 0)"
      "B \<Longrightarrow> A" "C \<Longrightarrow> B" for A B C and p q r p' q' r' :: int
    using that by (cases A; cases B; cases C) simp_all
  have "(4::int) dvd 100" "(100::int) dvd 400" by simp_all
  then have "y mod 100 = 0 \<Longrightarrow> y mod 4 = 0" "y mod 400 = 0 \<Longrightarrow> y mod 100 = 0"
    by (meson dvd_eq_mod_eq_0 dvd_trans)+
  then show ?thesis
    unfolding leap_days_def leap_def by (intro comb div_step) simp_all
qed

lemma days_before_year_Suc: "days_before_year (y + 1) = days_before_year y + days_in_year y"
  using leap_days_step [of y] by (auto simp: days_before_year_def days_in_year_def)

lemma days_before_year_mono: "y \<le> z \<Longrightarrow> days_before_year y \<le> days_before_year z"
proof (induction z rule: int_ge_induct)
  case (step z)
  have "0 < days_in_year z" by (simp add: days_in_year_def)
  with step.IH show ?case unfolding days_before_year_Suc by linarith
qed simp

lemma days_before_year_period: "days_before_year (y + 400 * c) = days_before_year y + 146097 * c"
proof -
  have "y + 400 * c - 1 = (y - 1) + (100 * c) * 4" "y + 400 * c - 1 = (y - 1) + (4 * c) * 100"
    "y + 400 * c - 1 = (y - 1) + c * 400" by simp_all
  then have "(y + 400 * c - 1) div 4 = (y - 1) div 4 + 100 * c"
    "(y + 400 * c - 1) div 100 = (y - 1) div 100 + 4 * c"
    "(y + 400 * c - 1) div 400 = (y - 1) div 400 + c"
    by (metis div_mult_self1 add.commute zero_neq_numeral)+
  then show ?thesis by (simp add: days_before_year_def leap_days_def)
qed

lemma leap_period: "leap (y + 400 * c) = leap y"
proof -
  have e: "y + 400 * c = y + (100 * c) * 4" "y + 400 * c = y + (4 * c) * 100" "y + 400 * c = y + c * 400"
    by simp_all
  have "(y + 400 * c) mod 4 = y mod 4" unfolding e(1) by (rule mod_mult_self1)
  moreover have "(y + 400 * c) mod 100 = y mod 100" unfolding e(2) by (rule mod_mult_self1)
  moreover have "(y + 400 * c) mod 400 = y mod 400" unfolding e(3) by (rule mod_mult_self1)
  ultimately show ?thesis unfolding leap_def by (simp only:)
qed

lemma split_year_spec:
  "0 \<le> d \<Longrightarrow> split_year y d = (y', d') \<Longrightarrow>
   days_before_year y + d = days_before_year y' + d' \<and> 0 \<le> d' \<and> d' < days_in_year y'"
proof (induction y d arbitrary: y' d' rule: split_year.induct)
  case (1 y d)
  show ?case
  proof (cases "d < days_in_year y")
    case True
    with 1 show ?thesis by (subst (asm) (2) split_year.simps) simp
  next
    case False
    then have "split_year (y + 1) (d - days_in_year y) = (y', d')"
      using "1.prems"(2) by (subst (asm) split_year.simps) simp
    from "1.IH" [OF False _ this] False show ?thesis by (simp add: days_before_year_Suc)
  qed
qed

lemma split_month_spec:
  "0 \<le> d \<Longrightarrow> d < sum_list ls \<Longrightarrow>
   \<exists>k d'. split_month ls m d = (m + int k, d') \<and> k < length ls \<and>
     d = sum_list (take k ls) + d' \<and> 0 \<le> d' \<and> d' < ls ! k"
proof (induction ls arbitrary: m d)
  case (Cons l ls)
  show ?case
  proof (cases "d < l")
    case True
    with Cons.prems show ?thesis by (intro exI [of _ 0] exI [of _ d]) simp
  next
    case False
    with Cons.prems Cons.IH [of "d - l" "m + 1"] obtain k d' where
      "split_month ls (m + 1) (d - l) = (m + 1 + int k, d')" "k < length ls"
      "d - l = sum_list (take k ls) + d'" "0 \<le> d'" "d' < ls ! k" by auto
    with False show ?thesis by (intro exI [of _ "Suc k"] exI [of _ d']) simp
  qed
qed simp

lemma sum_month_lengths: "sum_list (month_lengths y) = days_in_year y"
  by (simp add: month_lengths_def days_in_year_def)

definition tm_ok :: "tm \<Rightarrow> bool" where
  "tm_ok t \<longleftrightarrow> 0 \<le> tm_sec t \<and> tm_sec t < 60 \<and> 0 \<le> tm_min t \<and> tm_min t < 60 \<and>
     0 \<le> tm_hour t \<and> tm_hour t < 24 \<and> 0 \<le> tm_mon t \<and> tm_mon t < 12 \<and>
     1 \<le> tm_mday t \<and> tm_mday t \<le> month_lengths (tm_year t + 1900) ! nat (tm_mon t)"


lemma split_day:
  assumes "0 \<le> r" "r < 86400"
  shows "3600 * (r div 3600) + 60 * (r mod 3600 div 60) + r mod 60 = r"
    and "0 \<le> r div 3600" "r div 3600 < 24" "0 \<le> r mod 3600 div 60" "r mod 3600 div 60 < 60"
    "0 \<le> r mod 60" "r mod 60 < (60 :: int)"
proof -
  have "(60::int) dvd 3600" by simp
  then have "r mod 60 = r mod 3600 mod 60" by (rule mod_mod_cancel [symmetric])
  moreover have "60 * (r mod 3600 div 60) + r mod 3600 mod 60 = r mod 3600" by (rule mult_div_mod_eq)
  moreover have "3600 * (r div 3600) + r mod 3600 = r" by (rule mult_div_mod_eq)
  ultimately show "3600 * (r div 3600) + 60 * (r mod 3600 div 60) + r mod 60 = r" by linarith
  have m: "0 \<le> r mod 3600" "r mod 3600 < 3600" by (rule pos_mod_sign, simp, rule pos_mod_bound, simp)
  show "0 \<le> r div 3600" "0 \<le> r mod 3600 div 60"
    using assms(1) m(1) by (simp_all only: pos_imp_zdiv_nonneg_iff zero_less_numeral)
  show "r div 3600 < 24" "r mod 3600 div 60 < 60"
    using assms(2) m(2) by (simp_all add: int_div_less_self div_less_iff_less_mult)
  show "0 \<le> r mod 60" "r mod 60 < 60" by simp_all
qed

lemma gmtime_r_spec:
  "timegm (gmtime_r s) = s \<and> tm_ok (gmtime_r s) \<and>
   days_before_year (tm_year (gmtime_r s) + 1900) \<le> s div 86400 \<and>
   s div 86400 < days_before_year (tm_year (gmtime_r s) + 1901)"
proof -
  define days rest c where "days = s div 86400" and "rest = s mod 86400" and "c = days div 146097"
  have s: "s = 86400 * days + rest" "0 \<le> rest" "rest < 86400"
    unfolding days_def rest_def by simp_all
  have c: "days = 146097 * c + days mod 146097" "0 \<le> days mod 146097" unfolding c_def by simp_all
  obtain y yday where y: "split_year 1970 (days mod 146097) = (y, yday)" by fastforce
  from split_year_spec [OF c(2) y] have ys: "days mod 146097 = days_before_year y + yday"
    "0 \<le> yday" "yday < days_in_year y" by (simp_all add: days_before_year_def leap_days_def)
  define Y where "Y = y + 400 * c"
  have ml: "month_lengths Y = month_lengths y" "days_in_year Y = days_in_year y"
    by (simp_all add: month_lengths_def days_in_year_def leap_period Y_def)
  have len: "length (month_lengths y) = 12" by (simp add: month_lengths_def)
  obtain k d where m: "split_month (month_lengths y) 0 yday = (int k, d)" "k < 12"
    "yday = sum_list (take k (month_lengths y)) + d" "0 \<le> d" "d < month_lengths y ! k"
    using split_month_spec [OF ys(2), of "month_lengths y" 0] ys(3) sum_month_lengths [of y]
    unfolding len by auto
  have days: "days = days_before_year Y + yday"
    using c(1) ys(1) days_before_year_period [of y c] unfolding Y_def by linarith
  have tm: "gmtime_r s = \<lparr>tm_sec = rest mod 60, tm_min = rest mod 3600 div 60,
      tm_hour = rest div 3600, tm_mday = d + 1, tm_mon = int k, tm_year = Y - 1900\<rparr>"
    using y m(1) unfolding gmtime_r_def Let_def days_def [symmetric] rest_def [symmetric]
      c_def [symmetric] Y_def by simp
  note day = split_day [OF s(2,3)]
  have "timegm (gmtime_r s) = 86400 * (days_before_year Y + yday) +
      (3600 * (rest div 3600) + 60 * (rest mod 3600 div 60) + rest mod 60)"
    unfolding tm timegm_def Let_def m(3) ml(1) [symmetric] by simp
  then have "timegm (gmtime_r s) = s" unfolding day(1) using s(1) days by simp
  moreover have "tm_ok (gmtime_r s)"
    unfolding tm tm_ok_def using day(2-7) m(2,4,5) by (simp add: ml(1))
  moreover have "days_before_year Y \<le> days" "days < days_before_year (Y + 1)"
    using days ys(2,3) unfolding days_before_year_Suc ml(2) by simp_all
  ultimately show ?thesis unfolding days_def tm by (simp add: add.commute)
qed

section \<open>Running a log statement\<close>

lemma put_items_append: "put_items (xs @ ys) b = bindO (put_items xs b) (put_items ys)"
proof (induction xs arbitrary: b)
  case (Cons x xs)
  then show ?case by (cases "put_item x b") simp_all
qed simp

lemma put_items_Nil [simp]: "put_items [] = Inr"
  by (rule ext) simp

lemma put_T_item: "length s < 2 ^ 31 \<Longrightarrow> put_T (s, length s) b = put_item (Chars s) b"
  by (simp add: put_T_def put_cstr_def)

text \<open>The date and the time of day, and the microseconds, of \<open>formatTime\<close>.\<close>

definition date_text :: "tm \<Rightarrow> string" where
  "date_text t = fmt_d 4 (tm_year t + 1900) @ fmt_0d 2 (tm_mon t + 1) @ fmt_0d 2 (tm_mday t) @ '' '' @
     fmt_0d 2 (tm_hour t) @ '':'' @ fmt_0d 2 (tm_min t) @ '':'' @ fmt_0d 2 (tm_sec t)"

definition us_text :: "int \<Rightarrow> string" where
  "us_text u = ''.'' @ fmt_0d 6 u @ ''Z ''"

text \<open>The first second of the year 10000.\<close>

definition year_10000 :: int where
  "year_10000 = 253402300800"

lemma days_before_10000: "days_before_year 10000 * 86400 = year_10000"
  by (simp add: days_before_year_def leap_days_def year_10000_def)

lemma gmtime_year_iff: "tm_year (gmtime_r s) + 1900 < 10000 \<longleftrightarrow> s < year_10000"
proof -
  let ?Y = "tm_year (gmtime_r s) + 1900"
  have d: "days_before_year ?Y \<le> s div 86400" "s div 86400 < days_before_year (?Y + 1)"
    using gmtime_r_spec [of s] by (simp_all add: add.commute)
  have "s div 86400 < days_before_year 10000 \<longleftrightarrow> s < year_10000"
    using mult_div_mod_eq [of 86400 s] pos_mod_sign [of 86400 s] pos_mod_bound [of 86400 s]
      days_before_10000 by linarith
  moreover have "?Y < 10000 \<longleftrightarrow> s div 86400 < days_before_year 10000"
    using d days_before_year_mono [of "?Y + 1" 10000] days_before_year_mono [of 10000 ?Y] by linarith
  ultimately show ?thesis by simp
qed

lemma gmtime_year_ge: "0 \<le> s \<Longrightarrow> 1970 \<le> tm_year (gmtime_r s) + 1900"
proof -
  assume "0 \<le> s"
  then have "0 \<le> s div 86400" by (simp add: pos_imp_zdiv_nonneg_iff)
  moreover have "s div 86400 < days_before_year (tm_year (gmtime_r s) + 1901)"
    using gmtime_r_spec [of s] by simp
  moreover have "days_before_year 1970 = 0" by (simp add: days_before_year_def leap_days_def)
  ultimately show ?thesis using days_before_year_mono [of "tm_year (gmtime_r s) + 1901" 1970] by linarith
qed

lemma length_fmt_0d: "0 \<le> i \<Longrightarrow> i < 10 ^ w \<Longrightarrow> 0 < w \<Longrightarrow> length (fmt_0d w i) = w"
proof -
  assume i: "0 \<le> i" "i < 10 ^ w" "0 < w"
  then have "nat i < 10 ^ w" by (simp add: nat_less_iff)
  then have "length (dec_nat (nat i)) \<le> w" by (rule length_dec_nat [OF i(3)])
  with i show ?thesis by (simp add: fmt_0d_def)
qed

lemma length_fmt_d:
  assumes "1970 \<le> y"
  shows "length (fmt_d 4 y) = (if y < 10000 then 4 else length (dec_nat (nat y)))"
    and "10000 \<le> y \<Longrightarrow> 5 \<le> length (dec_nat (nat y))"
proof -
  have "length (dec_nat (nat y)) \<le> 4" if "y < 10000"
    using that by (intro length_dec_nat) simp_all
  moreover have ge: "5 \<le> length (dec_nat (nat y))" if "10000 \<le> y"
  proof -
    define n where "n = nat y"
    then have n: "nat y = n" "10000 \<le> n" using that by (simp_all add: le_nat_iff)
    have "dec_nat n = dec_nat (n div 10 div 10 div 10 div 10) @ [digit (n div 10 div 10 div 10 mod 10)] @
        [digit (n div 10 div 10 mod 10)] @ [digit (n div 10 mod 10)] @ [digit (n mod 10)]"
      using n(2) by (simp add: dec_nat_ge)
    moreover have "0 < length (dec_nat (n div 10 div 10 div 10 div 10))" by simp
    ultimately show ?thesis unfolding n(1) by (simp add: Suc_le_eq)
  qed
  ultimately show "length (fmt_d 4 y) = (if y < 10000 then 4 else length (dec_nat (nat y)))"
    using assms by (auto simp: fmt_d_def dec_int_def)
  show "10000 \<le> y \<Longrightarrow> 5 \<le> length (dec_nat (nat y))" by (rule ge)
qed

lemma month_lengths_le: "0 \<le> m \<Longrightarrow> m < 12 \<Longrightarrow> month_lengths y ! nat m \<le> 31"
proof -
  assume m: "0 \<le> m" "m < 12"
  have "length (month_lengths y) = 12" by (simp add: month_lengths_def)
  with m have "month_lengths y ! nat m \<in> set (month_lengths y)" by (intro nth_mem) simp
  then show ?thesis by (auto simp: month_lengths_def split: if_splits)
qed

lemma length_date_text:
  assumes "0 \<le> s"
  shows "length (date_text (gmtime_r s)) = length (fmt_d 4 (tm_year (gmtime_r s) + 1900)) + 13"
proof -
  let ?t = "gmtime_r s"
  have ok: "tm_ok ?t" using gmtime_r_spec [of s] by blast
  then have "tm_mday ?t \<le> 31"
    using month_lengths_le [of "tm_mon ?t" "tm_year ?t + 1900"] by (simp add: tm_ok_def)
  with ok show ?thesis by (simp add: date_text_def length_fmt_0d tm_ok_def)
qed

lemma length_us_text: "0 \<le> u \<Longrightarrow> u < 1000000 \<Longrightarrow> length (us_text u) = 9"
  by (simp add: us_text_def length_fmt_0d)

lemma sdiv_us: "0 \<le> s \<Longrightarrow> 0 \<le> u \<Longrightarrow> u < 1000000 \<Longrightarrow>
    (s * 1000000 + u) sdiv 1000000 = s \<and> (s * 1000000 + u) smod 1000000 = (u :: int)"
proof -
  assume a: "0 \<le> s" "0 \<le> u" "u < 1000000"
  then have "(s * 1000000 + u) div 1000000 = s" "(s * 1000000 + u) mod 1000000 = u"
    by (simp_all add: div_add1_eq)
  with a show ?thesis by (simp add: signed_divide_int_def signed_modulo_int_def sgn_if)
qed

lemma formatTime_run:
  assumes s: "0 \<le> s" and u: "0 \<le> u" "u < 1000000"
  shows "s < year_10000 \<Longrightarrow> formatTime (Timestamp (s * 1000000 + u)) b =
      put_items [Chars (date_text (gmtime_r s)), Chars (us_text u)] b"
    and "year_10000 \<le> s \<Longrightarrow> formatTime (Timestamp (s * 1000000 + u)) b = Inl Abort"
proof -
  let ?Y = "tm_year (gmtime_r s) + 1900"
  have y: "1970 \<le> ?Y" by (rule gmtime_year_ge [OF s])
  have us: "Fmt_data (us_text u) = us_text u"
    using length_us_text [OF u] by (simp add: Fmt_data_def snprintf_def)
  have f: "formatTime (Timestamp (s * 1000000 + u)) b =
    bindO (T_new (snprintf 32 (date_text (gmtime_r s))) 17) (\<lambda>t1.
    bindO (T_new (us_text u) 9) (\<lambda>t2. bindO (put_T t1 b) (put_T t2)))"
    using sdiv_us [OF s u] us
    by (simp add: formatTime_def Let_def date_text_def us_text_def)
  show "formatTime (Timestamp (s * 1000000 + u)) b =
      put_items [Chars (date_text (gmtime_r s)), Chars (us_text u)] b" if "s < year_10000"
  proof -
    have d: "length (date_text (gmtime_r s)) = 17"
      using that gmtime_year_iff [of s] length_date_text [OF s] length_fmt_d(1) [OF y] by simp
    have "put_T (date_text (gmtime_r s), 17) b' = put_item (Chars (date_text (gmtime_r s))) b'"
      "put_T (us_text u, 9) b' = put_item (Chars (us_text u)) b'" for b'
      using put_T_item [of "date_text (gmtime_r s)" b'] put_T_item [of "us_text u" b'] d
        length_us_text [OF u] by simp_all
    moreover from this have "put_T (us_text u, 9) = put_items [Chars (us_text u)]"
      by (intro ext) (simp del: put_item.simps)
    ultimately show ?thesis unfolding f using d length_us_text [OF u]
      by (simp add: T_new_def snprintf_def del: put_item.simps)
  qed
  show "formatTime (Timestamp (s * 1000000 + u)) b = Inl Abort" if "year_10000 \<le> s"
  proof -
    have "17 < length (date_text (gmtime_r s))"
      using that gmtime_year_iff [of s] length_date_text [OF s] length_fmt_d [OF y] by simp
    then have "min (length (date_text (gmtime_r s))) 31 \<noteq> 17" by simp
    then show ?thesis unfolding f by (simp add: T_new_def snprintf_def)
  qed
qed

text \<open>The pieces that the constructor of \<open>Impl\<close> writes, and those of \<open>finish\<close>.\<close>

definition header_items :: "LogLevel \<Rightarrow> int \<Rightarrow> log_env \<Rightarrow> log_item list" where
  "header_items level err e =
     (let (s, u) = wall_clock e (readings e)
      in [Chars (date_text (gmtime_r s)), Chars (us_text u),
          Chars (LogLevelName ! level_num level)] @
         (if err \<noteq> 0 then [Chars (strerror e err), Chars '' (errno='', Number err, Chars '') ''] else []))"

definition trailer_items :: "string \<Rightarrow> int \<Rightarrow> log_item list" where
  "trailer_items file line =
     [Chars '' - '', Chars (base_name file), Chars '':'', Number line, Chars [CHR 0x0A]]"

text \<open>
  The clock reads a time from 1970 on, before the year 10000; the texts of \<open>strerror_r\<close> and
  \<open>errno\<close> are small enough for an \<open>int\<close> length.
\<close>

definition env_ok :: "log_env \<Rightarrow> bool" where
  "env_ok e \<longleftrightarrow>
     length (stack_memory e) = kSmallBuffer \<and> in_i32 (errno e) \<and>
     length (strerror e (errno e)) < 2 ^ 31 \<and>
     (case wall_clock e (readings e) of (s, u) \<Rightarrow> 0 \<le> s \<and> s < year_10000 \<and> 0 \<le> u \<and> u < 1000000)"

lemma Impl_new_run:
  assumes e: "env_ok e"
  shows "Impl_new level err file line e =
    bindO (put_items (header_items level err e) (fixed_buffer_new (stack_memory e))) (\<lambda>b.
      Inr (\<lparr>msg_stream = b, msg_level = level, msg_line = line, fullname = file,
             basename = base_name file, msg_time = Timestamp (fst (wall_clock e (readings e)) * 1000000 +
               snd (wall_clock e (readings e)))\<rparr>,
           e\<lparr>readings := Suc (readings e)\<rparr>))"
proof -
  obtain s u where c: "wall_clock e (readings e) = (s, u)" by fastforce
  with e have su: "0 \<le> s" "s < year_10000" "0 \<le> u" "u < 1000000" by (simp_all add: env_ok_def)
  let ?b = "fixed_buffer_new (stack_memory e)"
  let ?name = "LogLevelName ! level_num level"
  have now: "Timestamp_now (s, u) = Inr (Timestamp (s * 1000000 + u))"
    using su by (simp add: Timestamp_now_def kMicroSecondsPerSecond_def chk64_def in_i64_def year_10000_def)
  have n: "level_num level < length LogLevelName" "length ?name = 6"
    by (cases level; simp add: LogLevelName_def)+
  have T: "put_T_checked ?name 6 b = put_item (Chars ?name) b" for b
    using put_T_item [of ?name b] n(2) by (simp add: put_T_checked_def T_new_def)
  have "bindO (formatTime (Timestamp (s * 1000000 + u)) ?b) (\<lambda>b1.
      bindO (put_T_checked ?name 6 b1) (\<lambda>b2.
      bindO (if err \<noteq> 0 then put_items [Chars (strerror e err), Chars '' (errno='', Number err, Chars '') ''] b2
             else Inr b2) k)) =
    bindO (put_items (header_items level err e) ?b) k" for k :: "log_stream \<Rightarrow> (impl \<times> log_env) outcome"
    unfolding formatTime_run(1) [OF su(1,3,4,2)] T header_items_def c
    by (simp add: put_items_append bindO_assoc del: put_item.simps)
  then show ?thesis
    unfolding Impl_new_def c by (simp add: now nthO_in [OF n(1)])
qed

text \<open>What a whole statement writes, and what it leaves behind.\<close>

definition printed_line :: "LogLevel \<Rightarrow> log_env \<Rightarrow> log_stream \<Rightarrow> bool \<times> log_env" where
  "printed_line level e b =
     (level = FATAL,
      e\<lparr>readings := Suc (readings e), printed := printed e @ [text_of b],
        flushes := (if level = FATAL then Suc (flushes e) else flushes e)\<rparr>)"

lemma finish_run:
  "finish i = bindO (put_items (trailer_items file line) (msg_stream i)) (\<lambda>b. Inr (i\<lparr>msg_stream := b\<rparr>))"
  if "basename i = base_name file" "msg_line i = line"
  using that by (simp add: finish_def trailer_items_def)

text \<open>\<open>builds ctor level err pre file line\<close>: the constructor writes the header, then \<open>pre\<close>.\<close>

definition builds :: "(log_env \<Rightarrow> (impl \<times> log_env) outcome) \<Rightarrow> LogLevel \<Rightarrow> int \<Rightarrow> log_item list \<Rightarrow>
    string \<Rightarrow> int \<Rightarrow> log_env \<Rightarrow> bool" where
  "builds ctor level err pre file line e \<longleftrightarrow>
     ctor e = bindO (Impl_new level err file line e) (\<lambda>(i, e1).
       bindO (put_items pre (msg_stream i)) (\<lambda>b. Inr (i\<lparr>msg_stream := b\<rparr>, e1)))"

lemma log_statement_run:
  assumes e: "env_ok e" and ctor: "builds ctor level err pre file line e"
  shows "log_statement ctor body e =
    bindO (put_items (header_items level err e @ pre @ body @ trailer_items file line)
      (fixed_buffer_new (stack_memory e))) (\<lambda>b. Inr (printed_line level e b))"
  unfolding log_statement_def ctor [unfolded builds_def] Impl_new_run [OF e] Logger_destroy_def
  by (simp add: put_items_append bindO_assoc finish_run printed_line_def Let_def
      del: put_item.simps)

lemma ctors_build:
  "builds (Logger_func file line level func) level 0 [Chars func, Chars '' ''] file line e"
  "builds (Logger_info file line) INFO 0 [] file line e"
  "builds (Logger_level file line level) level 0 [] file line e"
  "builds (Logger_err file line toAbort) (if toAbort then FATAL else ERROR) (errno e) [] file line e"
  by (simp_all add: builds_def Logger_func_def Logger_info_def Logger_level_def Logger_err_def
      case_prod_unfold)

lemma level_name_length: "length (LogLevelName ! level_num level) = 6"
  by (cases level) (simp_all add: LogLevelName_def)

lemma header_ok:
  assumes e: "env_ok e" and err: "err = 0 \<or> err = errno e"
  shows "\<forall>x \<in> set (header_items level err e). item_ok x"
proof -
  obtain s u where c: "wall_clock e (readings e) = (s, u)" by fastforce
  with e have su: "0 \<le> s" "s < year_10000" "0 \<le> u" "u < 1000000" by (simp_all add: env_ok_def)
  have "length (date_text (gmtime_r s)) = 17"
    using su(2) gmtime_year_iff [of s] length_date_text [OF su(1)]
      length_fmt_d(1) [OF gmtime_year_ge [OF su(1)]] by simp
  then show ?thesis
    using e err length_us_text [OF su(3,4)] level_name_length [of level]
    by (auto simp: header_items_def c env_ok_def in_i32_def)
qed

lemma put_line_subseq:
  assumes e: "env_ok e" and xs: "\<forall>x \<in> set xs. item_ok x"
  shows "\<exists>b ys. put_items xs (fixed_buffer_new (stack_memory e)) = Inr b \<and> subseq ys xs \<and>
    text_of b = concat (map item_text ys)"
proof -
  have "wf_stream (fixed_buffer_new (stack_memory e))"
    using e by (intro wf_stream_new) (simp add: env_ok_def)
  from sink.puts_subseq [OF this xs] show ?thesis
    unfolding sink_puts by (auto simp: text_of_def fixed_buffer_new_def)
qed

lemma put_line_fit:
  assumes e: "env_ok e" and xs: "\<forall>x \<in> set xs. item_ok x"
    and fit: "sum_list (map item_room xs) \<le> kSmallBuffer"
  shows "\<exists>b. put_items xs (fixed_buffer_new (stack_memory e)) = Inr b \<and>
    text_of b = concat (map item_text xs)"
proof -
  have "wf_stream (fixed_buffer_new (stack_memory e))"
    using e by (intro wf_stream_new) (simp add: env_ok_def)
  from sink.puts_fit [OF this xs] fit show ?thesis
    unfolding sink_puts by (auto simp: text_of_def fixed_buffer_new_def)
qed

section \<open>Properties\<close>

definition demo_env :: log_env where
  "demo_env = \<lparr>g_logLevel = INFO, printed = [], flushes = 0, errno = 11,
     wall_clock = (\<lambda>_. (86400, 5)), readings = 0, strerror = (\<lambda>_. ''busy''),
     stack_memory = replicate kSmallBuffer (CHR ''?'')\<rparr>"

lemma demo_env_ok: "env_ok demo_env"
  by (simp add: env_ok_def demo_env_def in_i32_def year_10000_def)

lemma demo_date: "date_text (gmtime_r 86400) = ''19700102 00:00:00''" "us_text 5 = ''.000005Z ''"
  by code_simp+

text \<open>
  C28.  A statement of \<open>LOG_SYSERR\<close> or \<open>LOG_SYSFATAL\<close> whose message fits prints one line: the
  time, the level, the text and number of \<open>errno\<close> when it is not zero, the items in order, the
  file name without its directories and the line number; it aborts exactly when it is fatal.
\<close>

theorem syserr_prints_line:
  assumes "env_ok e" and "\<forall>x \<in> set body. item_ok x" and "in_i32 line" and "length file < 2 ^ 31"
    and "items = header_items (if fatal then FATAL else ERROR) (errno e) e @ body @ trailer_items file line"
    and "sum_list (map item_room items) \<le> kSmallBuffer"
  shows "\<exists>e'. (if fatal then LOG_SYSFATAL file line body e else LOG_SYSERR file line body e)
      = Inr (fatal, e') \<and> printed e' = printed e @ [concat (map item_text items)] \<and>
    flushes e' = flushes e + (if fatal then 1 else 0)"
proof -
  let ?level = "if fatal then FATAL else ERROR"
  have base: "length (base_name file) < 2 ^ 31"
    using assms(4) le_less_trans [OF length_takeWhile_le [of _ "rev file"]] by (simp add: base_name_def)
  have "\<forall>x \<in> set items. item_ok x"
    using header_ok [OF assms(1), of "errno e" ?level] assms(2,3) base
    unfolding assms(5) by (auto simp: trailer_items_def)
  from put_line_fit [OF assms(1) this assms(6)] obtain b where
    b: "put_items items (fixed_buffer_new (stack_memory e)) = Inr b"
      "text_of b = concat (map item_text items)" by blast
  have "log_statement (Logger_err file line fatal) body e = Inr (printed_line ?level e b)"
    using log_statement_run [OF assms(1) ctors_build(4), where body = body] b(1) assms(5) by simp
  then show ?thesis using b(2)
    by (cases fatal) (simp_all add: LOG_SYSFATAL_def LOG_SYSERR_def printed_line_def)
qed

theorem syserr_prints_line_witness:
  "\<exists>e'. LOG_SYSERR ''log/Poller.cc'' 59 [Chars ''poll''] demo_env = Inr (False, e') \<and>
    printed e' = [''19700102 00:00:00.000005Z ERROR busy (errno=11) poll - Poller.cc:59'' @ [CHR 0x0A]]"
proof -
  have t: "map item_text (header_items ERROR (errno demo_env) demo_env @ [Chars ''poll''] @
      trailer_items ''log/Poller.cc'' 59) =
    [''19700102 00:00:00'', ''.000005Z '', ''ERROR '', ''busy'', '' (errno='', ''11'', '') '', ''poll'',
     '' - '', ''Poller.cc'', '':'', ''59'', [CHR 0x0A]]"
    by (simp add: header_items_def trailer_items_def demo_env_def demo_date LogLevelName_def
        dec_int_def dec_nat_ge dec_nat_small base_name_def)
  have r: "sum_list (map item_room (header_items (if False then FATAL else ERROR) (errno demo_env) demo_env @
      [Chars ''poll''] @ trailer_items ''log/Poller.cc'' 59)) \<le> kSmallBuffer"
    by (simp add: header_items_def trailer_items_def demo_env_def demo_date LogLevelName_def
        kMaxNumericSize_def kSmallBuffer_def base_name_def)
  have p: "printed demo_env = []" by (simp add: demo_env_def)
  show ?thesis
    using syserr_prints_line [OF demo_env_ok _ _ _ refl r] unfolding if_False t p
    by (auto simp: in_i32_def)
qed

text \<open>One line more, and the answer whether the program is to abort.\<close>

definition runs_statement :: "bool \<Rightarrow> bool \<times> log_env \<Rightarrow> log_env \<Rightarrow> bool" where
  "runs_statement fatal r e \<longleftrightarrow>
     fst r = fatal \<and> (\<exists>line. printed (snd r) = printed e @ [line]) \<and>
     flushes (snd r) = flushes e + (if fatal then 1 else 0)"

lemma statement_prints:
  assumes e: "env_ok e" and body: "\<forall>x \<in> set (pre @ body). item_ok x"
    and err: "err = 0 \<or> err = errno e" and line: "in_i32 line" "length file < 2 ^ 31"
    and ctor: "builds ctor level err pre file line e"
  shows "\<exists>b. log_statement ctor body e = Inr (printed_line level e b)"
proof -
  let ?items = "header_items level err e @ pre @ body @ trailer_items file line"
  have "length (base_name file) < 2 ^ 31"
    using line(2) le_less_trans [OF length_takeWhile_le [of _ "rev file"]] by (simp add: base_name_def)
  then have "\<forall>x \<in> set ?items. item_ok x"
    using header_ok [OF e err, of level] body line(1) by (auto simp: trailer_items_def)
  from put_line_subseq [OF e this] obtain b where
    "put_items ?items (fixed_buffer_new (stack_memory e)) = Inr b" by blast
  then have "log_statement ctor body e = Inr (printed_line level e b)"
    using log_statement_run [OF e ctor, of body] by simp
  then show ?thesis by blast
qed

lemma statement_runs:
  assumes "env_ok e" "\<forall>x \<in> set (pre @ body). item_ok x" "err = 0 \<or> err = errno e"
    "in_i32 line" "length file < 2 ^ 31" "builds ctor level err pre file line e"
  shows "\<exists>r. log_statement ctor body e = Inr r \<and> runs_statement (level = FATAL) r e"
  using statement_prints [OF assms] by (auto simp: printed_line_def runs_statement_def)

text \<open>
  The level in force silences \<open>LOG_TRACE\<close>, \<open>LOG_DEBUG\<close> and \<open>LOG_INFO\<close> statements below
  it completely: nothing is printed and no clock is read.  At or above it, and always for
  \<open>LOG_WARN\<close> and \<open>LOG_ERROR\<close>, one line is printed, whatever its length, and the program goes
  on; \<open>LOG_FATAL\<close> prints its line, flushes and aborts.
\<close>

theorem levels_filter_statements:
  assumes "env_ok e" and "\<forall>x \<in> set body. item_ok x" and "in_i32 line" and "length file < 2 ^ 31"
    and "length func < 2 ^ 31"
  shows "(if g_logLevel e = TRACE
          then \<exists>r. LOG_TRACE file line func body e = Inr r \<and> runs_statement False r e
          else LOG_TRACE file line func body e = Inr (False, e)) \<and>
    (if g_logLevel e \<in> {TRACE, DEBUG}
          then \<exists>r. LOG_DEBUG file line func body e = Inr r \<and> runs_statement False r e
          else LOG_DEBUG file line func body e = Inr (False, e)) \<and>
    (if g_logLevel e \<in> {TRACE, DEBUG, INFO}
          then \<exists>r. LOG_INFO file line body e = Inr r \<and> runs_statement False r e
          else LOG_INFO file line body e = Inr (False, e)) \<and>
    (\<exists>r. LOG_WARN file line body e = Inr r \<and> runs_statement False r e) \<and>
    (\<exists>r. LOG_ERROR file line body e = Inr r \<and> runs_statement False r e) \<and>
    (\<exists>r. LOG_FATAL file line body e = Inr r \<and> runs_statement True r e)"
proof -
  have pre: "\<forall>x \<in> set ([] @ body). item_ok x"
    "\<forall>x \<in> set ([Chars func, Chars '' ''] @ body). item_ok x" using assms(2,5) by simp_all
  note run = statement_runs [OF assms(1) _ disjI1 [OF refl] assms(3,4)]
  note f = run [OF pre(2) ctors_build(1)] and i = run [OF pre(1) ctors_build(2)]
    and l = run [OF pre(1) ctors_build(3)]
  note defs = LOG_TRACE_def LOG_DEBUG_def LOG_INFO_def LOG_WARN_def LOG_ERROR_def LOG_FATAL_def
    when_level_def logLevel_def
  show ?thesis
    using f [of TRACE] f [of DEBUG] i l [of WARN] l [of ERROR] l [of FATAL]
    by (cases "g_logLevel e") (simp_all add: defs)
qed

theorem levels_filter_statements_witness:
  "LOG_DEBUG ''a.cc'' 1 ''main'' [Chars ''x''] demo_env = Inr (False, demo_env) \<and>
   (\<exists>r. LOG_INFO ''a.cc'' 1 [Chars ''x''] demo_env = Inr r \<and> runs_statement False r demo_env)"
proof -
  have "g_logLevel demo_env = INFO" by (simp add: demo_env_def)
  then show ?thesis
    using levels_filter_statements [OF demo_env_ok, of "[Chars ''x'']" 1 "''a.cc''" "''main''"]
    by (simp add: in_i32_def)
qed

text \<open>
  C30.  \<open>formatTime\<close> prints the calendar date and time of day of the timestamp: the printed
  fields are in their ranges, and counting the days, hours, minutes and seconds back gives the
  seconds since the epoch.
\<close>

theorem formatTime_calendar:
  assumes "wf_stream b" and "length (text_of b) + 28 \<le> kSmallBuffer"
    and "0 \<le> s" "s < year_10000" "0 \<le> u" "u < 1000000"
  shows "\<exists>b' t. formatTime (Timestamp (s * 1000000 + u)) b = Inr b' \<and>
    text_of b' = text_of b @ date_text t @ us_text u \<and> timegm t = s \<and> tm_ok t"
proof -
  have "length (date_text (gmtime_r s)) = 17"
    using assms(4) gmtime_year_iff [of s] length_date_text [OF assms(3)]
      length_fmt_d(1) [OF gmtime_year_ge [OF assms(3)]] by simp
  then have "\<exists>b'. put_items [Chars (date_text (gmtime_r s)), Chars (us_text u)] b = Inr b' \<and>
    text_of b' = text_of b @ date_text (gmtime_r s) @ us_text u"
    using sink.puts_fit [OF assms(1), of "[Chars (date_text (gmtime_r s)), Chars (us_text u)]"] assms(2)
      length_us_text [OF assms(5,6)] unfolding sink_puts by auto
  then show ?thesis
    unfolding formatTime_run(1) [OF assms(3,5,6,4)] using gmtime_r_spec [of s] by blast
qed

theorem formatTime_calendar_witness:
  "\<exists>b' t. formatTime (Timestamp (951782400 * 1000000 + 7)) demo_stream = Inr b' \<and>
    text_of b' = text_of demo_stream @ date_text t @ us_text 7 \<and> timegm t = 951782400 \<and> tm_ok t"
proof -
  have "length (text_of demo_stream) = 0"
    using length_text_of [OF wf_demo_stream] by (simp add: demo_stream_def fixed_buffer_new_def)
  then have "length (text_of demo_stream) + 28 \<le> kSmallBuffer" by (simp add: kSmallBuffer_def)
  from formatTime_calendar [OF wf_demo_stream this, of 951782400 7] show ?thesis
    by (simp add: year_10000_def)
qed

text \<open>
  From the year 10000 on every log statement aborts the program: the date has 18
  characters, and \<open>T(t_time, 17)\<close> asserts that it has 17.
\<close>

theorem formatTime_year_10000_aborts:
  assumes "year_10000 \<le> s" "0 \<le> u" "u < 1000000"
  shows "formatTime (Timestamp (s * 1000000 + u)) b = Inl Abort"
  using assms by (intro formatTime_run(2)) (simp_all add: year_10000_def)

theorem formatTime_year_10000_aborts_witness:
  "formatTime (Timestamp (253402300800 * 1000000 + 0)) demo_stream = Inl Abort"
  by (rule formatTime_year_10000_aborts) (simp_all add: year_10000_def)

end
