(* ===== verification/Sockets.thy ===== *)
theory Sockets
  imports Logging
begin

text \<open>
  \<open>SocketsOps.h\<close>, \<open>SocketsOps.cc\<close>, \<open>Socket.h\<close>, \<open>Socket.cc\<close>, \<open>InetAddress.h\<close>,
  \<open>InetAddress.cc\<close>: socket addresses and the wrappers of the socket system calls.

  The kernel's replies are arguments: a call returns a value, or fails with an error number
  that it stores in \<open>errno\<close>.  The errors are logged, so the operations run in the environment
  of the logger; a fatal log statement ends the program (\<open>Abort\<close>).  The host is little-endian.
\<close>

unbundle bit_operations_syntax

section \<open>System calls\<close>

datatype reply = Ok int | Err int

definition syscall :: "reply \<Rightarrow> log_env \<Rightarrow> int \<times> log_env" where
  "syscall r e = (case r of Ok v \<Rightarrow> (v, e) | Err n \<Rightarrow> (- 1, e\<lparr>errno := n\<rparr>))"

definition log_or_die :: "(bool \<times> log_env) outcome \<Rightarrow> log_env outcome" where
  "log_or_die m = bindO m (\<lambda>(aborted, e). if aborted then Inl Abort else Inr e)"

definition SocketsOps_cc :: string where
  "SocketsOps_cc = ''SocketsOps.cc''"

datatype fcntl_cmd = F_GETFL | F_SETFL | F_GETFD | F_SETFD

type_synonym fcntl = "int \<Rightarrow> fcntl_cmd \<Rightarrow> int \<Rightarrow> reply"

definition O_NONBLOCK :: int where "O_NONBLOCK = 2048"
definition FD_CLOEXEC :: int where "FD_CLOEXEC = 1"

definition setNonBlockAndCloseOnExec :: "fcntl \<Rightarrow> int \<Rightarrow> log_env \<Rightarrow> log_env" where
  "setNonBlockAndCloseOnExec fcntl sockfd e =
     (let (flags, e1) = syscall (fcntl sockfd F_GETFL 0) e;
          (ret, e2) = syscall (fcntl sockfd F_SETFL (flags OR O_NONBLOCK)) e1;
          (flags', e3) = syscall (fcntl sockfd F_GETFD 0) e2;
          (ret', e4) = syscall (fcntl sockfd F_SETFD (flags' OR FD_CLOEXEC)) e3
      in e4)"

section \<open>Byte order and addresses\<close>

definition bswap16 :: "16 word \<Rightarrow> 16 word" where
  "bswap16 w = push_bit 8 w OR drop_bit 8 w"

definition bswap32 :: "32 word \<Rightarrow> 32 word" where
  "bswap32 w = push_bit 24 w OR (push_bit 8 w AND 0x00FF0000) OR
     (drop_bit 8 w AND 0x0000FF00) OR drop_bit 24 w"

definition bswap64 :: "64 word \<Rightarrow> 64 word" where
  "bswap64 w = push_bit 32 (ucast (bswap32 (ucast w))) OR ucast (bswap32 (ucast (drop_bit 32 w)))"

definition hostToNetwork16 where "hostToNetwork16 host16 = bswap16 host16"
definition networkToHost16 where "networkToHost16 net16 = bswap16 net16"
definition hostToNetwork32 where "hostToNetwork32 host32 = bswap32 host32"
definition networkToHost32 where "networkToHost32 net32 = bswap32 net32"
definition hostToNetwork64 where "hostToNetwork64 host64 = bswap64 host64"
definition networkToHost64 where "networkToHost64 net64 = bswap64 net64"

definition AF_INET :: "16 word" where "AF_INET = 2"
definition INADDR_ANY :: "32 word" where "INADDR_ANY = 0"

record sockaddr_in =
  sin_family :: "16 word"
  sin_port :: "16 word"
  sin_addr :: "32 word"

definition zero_sockaddr :: sockaddr_in where
  "zero_sockaddr = \<lparr>sin_family = 0, sin_port = 0, sin_addr = 0\<rparr>"

text \<open>
  \<open>inet_ntop\<close> and \<open>inet_pton\<close> of the C library for \<open>AF_INET\<close>: the four bytes of the address in
  memory order, in decimal without leading zeros.
\<close>

definition addr_bytes :: "32 word \<Rightarrow> nat list" where
  "addr_bytes w = map (\<lambda>i. unat (take_bit 8 (drop_bit (8 * i) w))) [0, 1, 2, 3]"

definition addr_of_bytes :: "nat list \<Rightarrow> 32 word" where
  "addr_of_bytes bs = of_nat (foldr (\<lambda>b n. b + 256 * n) bs 0)"

fun join_dots :: "string list \<Rightarrow> string" where
  "join_dots [] = []"
| "join_dots [s] = s"
| "join_dots (s # t # ss) = s @ ''.'' @ join_dots (t # ss)"

fun split_dots :: "string \<Rightarrow> string list" where
  "split_dots [] = [[]]"
| "split_dots (c # cs) =
     (if c = CHR ''.'' then [] # split_dots cs
      else (case split_dots cs of [] \<Rightarrow> [[c]] | s # ss \<Rightarrow> (c # s) # ss))"

definition octet :: "string \<Rightarrow> bool" where
  "octet s \<longleftrightarrow> s \<noteq> [] \<and> length s \<le> 3 \<and> (\<forall>c \<in> set s. c \<in> set ''0123456789'') \<and>
     (length s > 1 \<longrightarrow> hd s \<noteq> CHR ''0'') \<and> undec s \<le> 255"

definition inet_ntop :: "32 word \<Rightarrow> string" where
  "inet_ntop w = join_dots (map dec_nat (addr_bytes w))"

definition inet_pton :: "string \<Rightarrow> 32 word option" where
  "inet_pton s =
     (let parts = split_dots s
      in if length parts = 4 \<and> list_all octet parts then Some (addr_of_bytes (map undec parts)) else None)"

definition toHostPort :: "nat \<Rightarrow> sockaddr_in \<Rightarrow> string" where
  "toHostPort bufsize addr =
     (let host = inet_ntop (sin_addr addr);
          port = networkToHost16 (sin_port addr)
      in snprintf bufsize (host @ '':'' @ dec_nat (unat port)))"

definition fromHostPort ::
    "string \<Rightarrow> 16 word \<Rightarrow> sockaddr_in \<Rightarrow> log_env \<Rightarrow> (sockaddr_in \<times> log_env) outcome" where
  "fromHostPort ip port addr e =
     (let addr1 = addr\<lparr>sin_family := AF_INET, sin_port := hostToNetwork16 port\<rparr>
      in case inet_pton ip of
           Some a \<Rightarrow> Inr (addr1\<lparr>sin_addr := a\<rparr>, e)
         | None \<Rightarrow> bindO (log_or_die (LOG_SYSERR SocketsOps_cc 138 [Chars ''sockets::fromHostPort''] e))
                    (\<lambda>e1. Inr (addr1, e1)))"

text \<open>\<open>InetAddress\<close>.\<close>

definition InetAddress_port :: "16 word \<Rightarrow> sockaddr_in" where
  "InetAddress_port port =
     zero_sockaddr\<lparr>sin_family := AF_INET, sin_addr := hostToNetwork32 INADDR_ANY,
                   sin_port := hostToNetwork16 port\<rparr>"

definition InetAddress_ip :: "string \<Rightarrow> 16 word \<Rightarrow> log_env \<Rightarrow> (sockaddr_in \<times> log_env) outcome" where
  "InetAddress_ip ip port e = fromHostPort ip port zero_sockaddr e"

definition InetAddress_toHostPort :: "sockaddr_in \<Rightarrow> string" where
  "InetAddress_toHostPort addr = toHostPort 32 addr"

section \<open>The wrappers\<close>

definition createNonblockingOrDie :: "fcntl \<Rightarrow> reply \<Rightarrow> log_env \<Rightarrow> (int \<times> log_env) outcome" where
  "createNonblockingOrDie fcntl socket_reply e =
     (let (sockfd, e1) = syscall socket_reply e
      in bindO (if sockfd < 0
                then log_or_die (LOG_SYSFATAL SocketsOps_cc 42 [Chars ''sockets::createNonblockingOrDie''] e1)
                else Inr e1) (\<lambda>e2.
           Inr (sockfd, setNonBlockAndCloseOnExec fcntl sockfd e2)))"

definition sockets_connect :: "reply \<Rightarrow> log_env \<Rightarrow> int \<times> log_env" where
  "sockets_connect r e = syscall r e"

definition bindOrDie :: "reply \<Rightarrow> log_env \<Rightarrow> log_env outcome" where
  "bindOrDie r e =
     (let (ret, e1) = syscall r e
      in if ret < 0 then log_or_die (LOG_SYSFATAL SocketsOps_cc 58 [Chars ''sockets::bindOrDie''] e1)
         else Inr e1)"

definition listenOrDie :: "reply \<Rightarrow> log_env \<Rightarrow> log_env outcome" where
  "listenOrDie r e =
     (let (ret, e1) = syscall r e
      in if ret < 0 then log_or_die (LOG_SYSFATAL SocketsOps_cc 67 [Chars ''sockets::listenOrDie''] e1)
         else Inr e1)"

definition EPERM :: int where "EPERM = 1"
definition EINTR :: int where "EINTR = 4"
definition EBADF :: int where "EBADF = 9"
definition EAGAIN :: int where "EAGAIN = 11"
definition ENOMEM :: int where "ENOMEM = 12"
definition EFAULT :: int where "EFAULT = 14"
definition EINVAL :: int where "EINVAL = 22"
definition ENFILE :: int where "ENFILE = 23"
definition EMFILE :: int where "EMFILE = 24"
definition EPROTO :: int where "EPROTO = 71"
definition ENOTSOCK :: int where "ENOTSOCK = 88"
definition EOPNOTSUPP :: int where "EOPNOTSUPP = 95"
definition ECONNABORTED :: int where "ECONNABORTED = 103"
definition ENOBUFS :: int where "ENOBUFS = 105"

lemmas errno_defs = EPERM_def EINTR_def EBADF_def EAGAIN_def ENOMEM_def EFAULT_def EINVAL_def
  ENFILE_def EMFILE_def EPROTO_def ENOTSOCK_def EOPNOTSUPP_def ECONNABORTED_def ENOBUFS_def

definition accept_transient :: "int set" where
  "accept_transient = {EAGAIN, ECONNABORTED, EINTR, EPROTO, EPERM, EMFILE}"

definition accept_unexpected :: "int set" where
  "accept_unexpected = {EBADF, EFAULT, EINVAL, ENFILE, ENOBUFS, ENOMEM, ENOTSOCK, EOPNOTSUPP}"

text \<open>\<open>accept(2)\<close> also fills in the address of the peer.\<close>

definition sockets_accept ::
    "fcntl \<Rightarrow> reply \<Rightarrow> sockaddr_in \<Rightarrow> sockaddr_in \<Rightarrow> log_env \<Rightarrow> (int \<times> sockaddr_in \<times> log_env) outcome" where
  "sockets_accept fcntl accept_reply peer addr e =
     (let (connfd, e1) = syscall accept_reply e;
          addr1 = (case accept_reply of Ok _ \<Rightarrow> peer | Err _ \<Rightarrow> addr);
          e2 = setNonBlockAndCloseOnExec fcntl connfd e1
      in bindO
           (if connfd < 0
            then let savedErrno = errno e2
                 in bindO (log_or_die (LOG_SYSERR SocketsOps_cc 78 [Chars ''Socket::accept''] e2)) (\<lambda>e3.
                      if savedErrno \<in> accept_transient then Inr (e3\<lparr>errno := savedErrno\<rparr>)
                      else if savedErrno \<in> accept_unexpected
                      then log_or_die (LOG_FATAL SocketsOps_cc 97
                             [Chars ''unexpected error of ::accept '', Number savedErrno] e3)
                      else log_or_die (LOG_FATAL SocketsOps_cc 100
                             [Chars ''unknown error of ::accept '', Number savedErrno] e3))
            else Inr e2) (\<lambda>e4. Inr (connfd, addr1, e4)))"

definition sockets_close :: "reply \<Rightarrow> log_env \<Rightarrow> log_env outcome" where
  "sockets_close r e =
     (let (ret, e1) = syscall r e
      in if ret < 0 then log_or_die (LOG_SYSERR SocketsOps_cc 110 [Chars ''sockets::close''] e1) else Inr e1)"

definition sockets_shutdownWrite :: "reply \<Rightarrow> log_env \<Rightarrow> log_env outcome" where
  "sockets_shutdownWrite r e =
     (let (ret, e1) = syscall r e
      in if ret < 0 then log_or_die (LOG_SYSERR SocketsOps_cc 118 [Chars ''sockets::shutdownWrite''] e1)
         else Inr e1)"

text \<open>\<open>getsockname\<close> and \<open>getpeername\<close> store an address where they succeed.\<close>

definition getLocalAddr :: "reply \<Rightarrow> sockaddr_in \<Rightarrow> log_env \<Rightarrow> (sockaddr_in \<times> log_env) outcome" where
  "getLocalAddr r name e =
     (let (ret, e1) = syscall r e
      in if ret < 0
         then bindO (log_or_die (LOG_SYSERR SocketsOps_cc 149 [Chars ''sockets::getLocalAddr''] e1))
                (\<lambda>e2. Inr (zero_sockaddr, e2))
         else Inr (name, e1))"

definition getPeerAddr :: "reply \<Rightarrow> sockaddr_in \<Rightarrow> log_env \<Rightarrow> (sockaddr_in \<times> log_env) outcome" where
  "getPeerAddr r name e =
     (let (ret, e1) = syscall r e
      in if ret < 0
         then bindO (log_or_die (LOG_SYSERR SocketsOps_cc 161 [Chars ''sockets::getPeerAddr''] e1))
                (\<lambda>e2. Inr (zero_sockaddr, e2))
         else Inr (name, e1))"

definition getSocketError :: "reply \<Rightarrow> int \<Rightarrow> log_env \<Rightarrow> int \<times> log_env" where
  "getSocketError r optval e =
     (let (ret, e1) = syscall r e in if ret < 0 then (errno e1, e1) else (optval, e1))"

definition isSelfConnect ::
    "reply \<Rightarrow> sockaddr_in \<Rightarrow> reply \<Rightarrow> sockaddr_in \<Rightarrow> log_env \<Rightarrow> (bool \<times> log_env) outcome" where
  "isSelfConnect r1 name1 r2 name2 e =
     bindO (getLocalAddr r1 name1 e) (\<lambda>(localaddr, e1).
     bindO (getPeerAddr r2 name2 e1) (\<lambda>(peeraddr, e2).
       Inr (sin_port localaddr = sin_port peeraddr \<and> sin_addr localaddr = sin_addr peeraddr, e2)))"

text \<open>\<open>Socket\<close> owns a descriptor; \<open>accept\<close> passes the peer's address on only when it succeeded.\<close>

definition Socket_accept ::
    "fcntl \<Rightarrow> reply \<Rightarrow> sockaddr_in \<Rightarrow> sockaddr_in \<Rightarrow> log_env \<Rightarrow> (int \<times> sockaddr_in \<times> log_env) outcome" where
  "Socket_accept fcntl accept_reply peer peeraddr e =
     bindO (sockets_accept fcntl accept_reply peer zero_sockaddr e) (\<lambda>(connfd, addr, e1).
       Inr (connfd, if connfd \<ge> 0 then addr else peeraddr, e1))"

section \<open>Swapping bytes\<close>

lemma bswap16_involution: "bswap16 (bswap16 w) = w"
proof (rule bit_word_eqI)
  fix n assume "n < LENGTH(16)"
  then have "n < 8 \<or> 8 \<le> n \<and> n < 16" by auto
  then show "bit (bswap16 (bswap16 w)) n = bit w n"
    by (auto simp: bswap16_def bit_simps dest: bit_imp_le_length)
qed

lemma less_32_cases:
  "n < 32 \<Longrightarrow> n \<in> {0, 1, 2, 3, 4, 5, 6, 7, 8, 9, 10, 11, 12, 13, 14, 15, 16, 17, 18, 19, 20, 21, 22, 23,
    24, 25, 26, 27, 28, 29, 30, 31 :: nat}"
proof -
  assume "n < 32"
  then have "n \<in> set [0..<32]" by simp
  also have "[0..<32] = [0, 1, 2, 3, 4, 5, 6, 7, 8, 9, 10, 11, 12, 13, 14, 15, 16, 17, 18, 19, 20, 21,
      22, 23, 24, 25, 26, 27, 28, 29, 30, 31]" by code_simp
  finally show ?thesis by simp
qed

lemma bit_beyond_32: "32 \<le> n \<Longrightarrow> \<not> bit (w :: 32 word) n"
  using bit_imp_le_length [of w n] by auto

lemma bswap32_bits: "n < 32 \<Longrightarrow> bit (bswap32 w) n = bit w (n mod 8 + 8 * (3 - n div 8))"
  by (drule less_32_cases, elim insertE emptyE) (simp_all add: bswap32_def bit_simps bit_beyond_32)

lemma bswap32_involution: "bswap32 (bswap32 w) = w"
proof (rule bit_word_eqI)
  fix n assume "n < LENGTH(32)"
  then have n: "n < 32" by simp
  let ?m = "n mod 8 + 8 * (3 - n div 8)"
  have q: "n div 8 \<le> 3" using n by auto
  have m: "?m < 32" "?m mod 8 = n mod 8" "?m div 8 = 3 - n div 8"
    using pos_mod_bound [of 8 "int n"] q mod_less_divisor [of 8 n] by simp_all
  have "n mod 8 + 8 * (3 - (3 - n div 8)) = n" using q by simp
  then show "bit (bswap32 (bswap32 w)) n = bit w n"
    unfolding bswap32_bits [OF n] bswap32_bits [OF m(1)] m(2,3) by simp
qed

lemma bswap64_involution: "bswap64 (bswap64 w) = w"
proof -
  have hi: "(ucast (drop_bit 32 (bswap64 w)) :: 32 word) = bswap32 (ucast w)" for w
    by (rule bit_word_eqI) (auto simp: bswap64_def bit_simps dest: bit_imp_le_length)
  have lo: "(ucast (bswap64 w) :: 32 word) = bswap32 (ucast (drop_bit 32 w))" for w
    by (rule bit_word_eqI) (auto simp: bswap64_def bit_simps)
  show ?thesis
  proof (rule bit_word_eqI)
    fix n assume "n < LENGTH(64)"
    then show "bit (bswap64 (bswap64 w)) n = bit w n"
      unfolding bswap64_def [of "bswap64 w"] hi lo bswap32_involution
      by (cases "n < 32") (auto simp: bit_simps)
  qed
qed

section \<open>Dotted decimal\<close>

lemma split_dots_nonempty [simp]: "split_dots s \<noteq> []"
  by (cases s) (auto split: list.splits)

lemma split_dots_plain: "CHR ''.'' \<notin> set s \<Longrightarrow> split_dots s = [s]"
  by (induction s) auto

lemma split_dots_append:
  "CHR ''.'' \<notin> set s \<Longrightarrow> split_dots (s @ CHR ''.'' # t) = s # split_dots t"
  by (induction s) auto

lemma split_join:
  "ss \<noteq> [] \<Longrightarrow> \<forall>s \<in> set ss. CHR ''.'' \<notin> set s \<Longrightarrow> split_dots (join_dots ss) = ss"
  by (induction ss rule: join_dots.induct) (simp_all add: split_dots_plain split_dots_append)

lemma join_split: "join_dots (split_dots s) = s"
proof (induction s)
  case (Cons c s)
  obtain x xs where x: "split_dots s = x # xs" by (cases "split_dots s") auto
  with Cons show ?case by (cases xs) auto
qed simp

lemma digit_of_char:
  "c \<in> set ''0123456789'' \<Longrightarrow> digit (digit_val c) = c \<and> digit_val c < 10 \<and>
    (digit_val c = 0 \<longleftrightarrow> c = CHR ''0'')"
  by (auto simp: digit_val_def)

lemma dec_nat_undec:
  "s \<noteq> [] \<Longrightarrow> \<forall>c \<in> set s. c \<in> set ''0123456789'' \<Longrightarrow> (length s > 1 \<longrightarrow> hd s \<noteq> CHR ''0'') \<Longrightarrow>
   dec_nat (undec s) = s \<and> (hd s \<noteq> CHR ''0'' \<longrightarrow> 0 < undec s)"
proof (induction s rule: rev_induct)
  case (snoc c s)
  from snoc.prems(2) have c: "digit (digit_val c) = c" "digit_val c < 10"
    "digit_val c = 0 \<longleftrightarrow> c = CHR ''0''" using digit_of_char [of c] by auto
  show ?case
  proof (cases "s = []")
    case True
    with c show ?thesis by (auto simp: undec_def dec_nat_small)
  next
    case False
    with snoc.prems have hd: "hd s \<noteq> CHR ''0''" by simp
    from snoc.IH [OF False] snoc.prems(2) hd have ih: "dec_nat (undec s) = s" "0 < undec s" by auto
    then have ge: "10 \<le> undec (s @ [c])" by (simp add: undec_snoc)
    have "undec (s @ [c]) div 10 = undec s" "undec (s @ [c]) mod 10 = digit_val c"
      using c(2) by (simp_all add: undec_snoc)
    with ih c(1) show ?thesis using ge by (simp add: dec_nat_ge)
  qed
qed simp

lemma hd_dec_nat: "0 < n \<Longrightarrow> hd (dec_nat n) \<noteq> CHR ''0''"
proof (induction n rule: dec_nat.induct)
  case (1 n)
  show ?case
  proof (cases "n < 10")
    case True
    with "1.prems" digit_inj [of n 0] show ?thesis by (simp add: dec_nat_small)
  next
    case False
    then have "0 < n div 10" by simp
    with "1.IH" [OF False] False show ?thesis by (simp add: dec_nat_ge)
  qed
qed

lemma octet_dec_nat:
  assumes "n \<le> 255"
  shows "octet (dec_nat n)"
proof -
  have len: "length (dec_nat n) \<le> 3" using assms by (intro length_dec_nat) simp_all
  have digs: "\<forall>c \<in> set (dec_nat n). c \<in> set ''0123456789''"
  proof
    fix c assume "c \<in> set (dec_nat n)"
    then obtain d where "d < 10" "c = digit d" using dec_nat_digits by blast
    then have "d \<in> {0, 1, 2, 3, 4, 5, 6, 7, 8, 9}" "c = digit d" by auto
    then show "c \<in> set ''0123456789''" by auto
  qed
  have hd: "length (dec_nat n) > 1 \<longrightarrow> hd (dec_nat n) \<noteq> CHR ''0''"
    using hd_dec_nat [of n] by (cases "n = 0") (simp_all add: dec_nat_small)
  have "undec (dec_nat n) \<le> 255" "dec_nat n \<noteq> []" using assms by simp_all
  with len digs hd show ?thesis unfolding octet_def by blast
qed

lemma unat_byte:
  assumes "n < 2 ^ 32"
  shows "unat (take_bit 8 (drop_bit k (of_nat n :: 32 word))) = n div 2 ^ k mod 2 ^ 8"
proof -
  have n: "unat (of_nat n :: 32 word) = n" "take_bit 32 n = n"
    using assms by (simp_all add: unsigned_of_nat take_bit_nat_eq_self)
  have "unat (take_bit 8 (drop_bit k (of_nat n :: 32 word))) = take_bit 8 (drop_bit k n)"
    by (simp only: unsigned_take_bit_eq unsigned_drop_bit_eq n) (simp add: n)
  then show ?thesis by (simp only: take_bit_eq_mod drop_bit_eq_div)
qed

lemma peel_byte: "a \<le> 255 \<Longrightarrow> (a + 256 * n) mod 256 = a \<and> (a + 256 * n) div 256 = (n :: nat)"
  by simp

lemma addr_bytes_of_bytes:
  assumes "list_all (\<lambda>b. b \<le> 255) bs" "length bs = 4"
  shows "addr_bytes (addr_of_bytes bs) = bs"
proof -
  obtain a b c d where bs: "bs = [a, b, c, d]" "a \<le> 255" "b \<le> 255" "c \<le> 255" "d \<le> 255"
    using assms by (auto simp: length_Suc_conv numeral_eq_Suc)
  define n3 where "n3 = c + 256 * d"
  define n2 where "n2 = b + 256 * n3"
  define n where "n = a + 256 * n2"
  have lt: "n < 2 ^ 32" using bs unfolding n_def n2_def n3_def by simp
  note p = peel_byte [OF bs(2), of n2, folded n_def] peel_byte [OF bs(3), of n3, folded n2_def]
    peel_byte [OF bs(4), of d, folded n3_def]
  have "n div 65536 = n div 256 div 256" "n div 16777216 = n div 256 div 256 div 256"
    by (simp_all add: div_mult2_eq [symmetric])
  then have "n mod 256 = a" "n div 256 mod 256 = b" "n div 65536 mod 256 = c"
    "n div 16777216 mod 256 = d" using p bs(5) by simp_all
  moreover have "addr_of_bytes bs = of_nat n" by (simp add: addr_of_bytes_def bs(1) n_def n2_def n3_def)
  ultimately show ?thesis
    using unat_byte [OF lt, of 0] unat_byte [OF lt, of 8] unat_byte [OF lt, of 16]
      unat_byte [OF lt, of 24] by (simp add: addr_bytes_def bs(1))
qed

lemma length_addr_bytes [simp]: "length (addr_bytes w) = 4"
  by (simp add: addr_bytes_def)

lemma addr_bytes_bound: "b \<in> set (addr_bytes w) \<Longrightarrow> b \<le> 255"
proof -
  have "unat (take_bit 8 (v :: 32 word)) \<le> 255" for v
    using take_bit_nat_less_exp [of 8 "unat v"] by (simp add: unsigned_take_bit_eq)
  then show "b \<in> set (addr_bytes w) \<Longrightarrow> b \<le> 255" by (auto simp: addr_bytes_def)
qed

lemma inet_ntop_pton:
  assumes "inet_pton s = Some w"
  shows "inet_ntop w = s"
proof -
  let ?ps = "split_dots s"
  from assms have ps: "length ?ps = 4" "list_all octet ?ps" "w = addr_of_bytes (map undec ?ps)"
    by (auto simp: inet_pton_def Let_def split: if_splits)
  have "addr_bytes w = map undec ?ps"
    unfolding ps(3)
  proof (rule addr_bytes_of_bytes)
    show "list_all (\<lambda>b. b \<le> 255) (map undec ?ps)"
      using ps(2) unfolding list_all_iff octet_def set_map by blast
  qed (simp add: ps(1))
  moreover have "map dec_nat (map undec ?ps) = ?ps"
  proof -
    have "dec_nat (undec p) = p" if "p \<in> set ?ps" for p
    proof -
      have "octet p" using ps(2) that by (simp add: list_all_iff)
      then show ?thesis using dec_nat_undec [of p] unfolding octet_def by blast
    qed
    then show ?thesis by (simp add: map_idI)
  qed
  ultimately show ?thesis by (simp add: inet_ntop_def join_split del: map_map)
qed

lemma length_inet_ntop: "length (inet_ntop w) \<le> 15"
proof -
  obtain a b c d where w: "addr_bytes w = [a, b, c, d]"
    by (simp add: addr_bytes_def)
  then have "a \<le> 255" "b \<le> 255" "c \<le> 255" "d \<le> 255" using addr_bytes_bound [of _ w] by simp_all
  then have "length (dec_nat a) \<le> 3" "length (dec_nat b) \<le> 3" "length (dec_nat c) \<le> 3"
    "length (dec_nat d) \<le> 3" by (simp_all add: length_dec_nat)
  then show ?thesis by (simp add: inet_ntop_def w)
qed

lemma addr_of_addr_bytes: "addr_of_bytes (addr_bytes w) = w"
proof -
  let ?n = "unat w"
  have b: "unat (take_bit 8 (drop_bit k w)) = ?n div 2 ^ k mod 2 ^ 8" for k
    using unat_byte [of ?n k] unsigned_less [of w] by simp
  have n: "?n < 2 ^ 32" using unsigned_less [of w] by simp
  have "?n div 65536 = ?n div 256 div 256" "?n div 16777216 = ?n div 256 div 256 div 256"
    by (simp_all add: div_mult2_eq [symmetric])
  moreover have "?n div 256 div 256 div 256 < 256" using n by (simp add: div_mult2_eq [symmetric])
  moreover have "?n div 256 div 256 div 256 mod 256 = ?n div 256 div 256 div 256"
    using calculation(3) by simp
  ultimately have "foldr (\<lambda>b n. b + 256 * n) (addr_bytes w) 0 = ?n"
    using b [of 0] b [of 8] b [of 16] b [of 24] mult_div_mod_eq [of 256 ?n]
      mult_div_mod_eq [of 256 "?n div 256"] mult_div_mod_eq [of 256 "?n div 256 div 256"]
    by (simp add: addr_bytes_def)
  then show ?thesis by (simp add: addr_of_bytes_def)
qed

lemma inet_pton_ntop: "inet_pton (inet_ntop w) = Some w"
proof -
  let ?ps = "map dec_nat (addr_bytes w)"
  have oct: "list_all octet ?ps"
    using addr_bytes_bound octet_dec_nat unfolding list_all_iff set_map by blast
  have "?ps \<noteq> []" by (simp add: addr_bytes_def)
  moreover have "\<forall>s \<in> set ?ps. CHR ''.'' \<notin> set s"
    using dec_nat_no_char [of "CHR ''.''"] by auto
  ultimately have "split_dots (inet_ntop w) = ?ps" unfolding inet_ntop_def by (rule split_join)
  moreover have "map undec ?ps = addr_bytes w" by (simp add: comp_def)
  ultimately show ?thesis using oct by (simp add: inet_pton_def addr_of_addr_bytes del: map_map)
qed

section \<open>Logging from the wrappers\<close>

text \<open>The logger works for every later clock reading and error number, too.\<close>

definition logs_ok :: "log_env \<Rightarrow> bool" where
  "logs_ok e \<longleftrightarrow> in_i32 (errno e) \<and>
     (\<forall>n err. in_i32 err \<longrightarrow> env_ok (e\<lparr>readings := n, errno := err\<rparr>))"

lemma logs_ok_env: "logs_ok e \<Longrightarrow> env_ok e"
proof -
  assume e: "logs_ok e"
  then have "env_ok (e\<lparr>readings := readings e, errno := errno e\<rparr>)" unfolding logs_ok_def by blast
  then show ?thesis by simp
qed

lemma logs_ok_errno: "logs_ok e \<Longrightarrow> in_i32 err \<Longrightarrow> logs_ok (e\<lparr>errno := err\<rparr>)"
  by (simp add: logs_ok_def)

lemma logs_ok_printed: "logs_ok e \<Longrightarrow> logs_ok (snd (printed_line level e b))"
  by (simp add: logs_ok_def printed_line_def env_ok_def)

lemma errno_printed [simp]: "errno (snd (printed_line level e b)) = errno e"
  by (simp add: printed_line_def)

lemma file_length: "length SocketsOps_cc < 2 ^ 31"
  by (simp add: SocketsOps_cc_def)

text \<open>What the statements do, in any file.\<close>

lemma when_level_continues:
  assumes e: "logs_ok e" and "builds ctor level err pre file line e" "err = 0 \<or> err = errno e"
    and "\<forall>x \<in> set (pre @ body). item_ok x" "in_i32 line" "length file < 2 ^ 31" "level \<noteq> FATAL"
  shows "\<exists>e'. log_or_die (when_level l (log_statement ctor body) e) = Inr e' \<and> logs_ok e' \<and> errno e' = errno e"
proof -
  obtain b where b: "log_statement ctor body e = Inr (printed_line level e b)"
    using statement_prints [OF logs_ok_env [OF e] assms(4,3,5,6,2)] by blast
  have "log_or_die (Inr (printed_line level e b)) = Inr (snd (printed_line level e b))"
    using assms(7) by (simp add: log_or_die_def printed_line_def)
  with b logs_ok_printed [OF e] e show ?thesis
    by (auto simp: when_level_def log_or_die_def)
qed

lemma LOG_INFO_continues:
  assumes "logs_ok e" "\<forall>x \<in> set body. item_ok x" "in_i32 line" "length file < 2 ^ 31"
  shows "\<exists>e'. log_or_die (LOG_INFO file line body e) = Inr e' \<and> logs_ok e' \<and> errno e' = errno e"
  unfolding LOG_INFO_def using when_level_continues [OF assms(1) ctors_build(2)] assms(2-4) by simp

lemma LOG_TRACE_continues:
  assumes "logs_ok e" "\<forall>x \<in> set body. item_ok x" "in_i32 line" "length file < 2 ^ 31" "length func < 2 ^ 31"
  shows "\<exists>e'. log_or_die (LOG_TRACE file line func body e) = Inr e' \<and> logs_ok e' \<and> errno e' = errno e"
  unfolding LOG_TRACE_def using when_level_continues [OF assms(1) ctors_build(1)] assms(2-5) by simp

lemma SYSERR_continues:
  assumes e: "logs_ok e" and "\<forall>x \<in> set body. item_ok x" "in_i32 line" "length file < 2 ^ 31"
  shows "\<exists>e'. log_or_die (LOG_SYSERR file line body e) = Inr e' \<and> logs_ok e' \<and> errno e' = errno e"
proof -
  obtain b where b: "LOG_SYSERR file line body e = Inr (printed_line ERROR e b)"
    using statement_prints [OF logs_ok_env [OF e] _ _ assms(3,4) ctors_build(4) [of _ _ False],
        of body] assms(2) by (auto simp: LOG_SYSERR_def)
  have "log_or_die (Inr (printed_line ERROR e b)) = Inr (snd (printed_line ERROR e b))"
    by (simp add: log_or_die_def printed_line_def)
  with b logs_ok_printed [OF e] show ?thesis by simp
qed

lemma SYSFATAL_aborts:
  assumes e: "logs_ok e" and "\<forall>x \<in> set body. item_ok x" "in_i32 line" "length file < 2 ^ 31"
  shows "log_or_die (LOG_SYSFATAL file line body e) = Inl Abort"
proof -
  obtain b where "LOG_SYSFATAL file line body e = Inr (printed_line FATAL e b)"
    using statement_prints [OF logs_ok_env [OF e] _ _ assms(3,4) ctors_build(4) [of _ _ True],
        of body] assms(2) by (auto simp: LOG_SYSFATAL_def)
  then show ?thesis by (simp add: log_or_die_def printed_line_def)
qed

lemmas LOG_SYSERR_continues = SYSERR_continues [OF _ _ _ file_length]

lemmas LOG_SYSFATAL_aborts = SYSFATAL_aborts [OF _ _ _ file_length]

lemma LOG_FATAL_aborts:
  assumes e: "logs_ok e" and "\<forall>x \<in> set body. item_ok x" "in_i32 line"
  shows "log_or_die (LOG_FATAL SocketsOps_cc line body e) = Inl Abort"
proof -
  obtain b where "LOG_FATAL SocketsOps_cc line body e = Inr (printed_line FATAL e b)"
    using statement_prints [OF logs_ok_env [OF e] _ _ assms(3) file_length ctors_build(3) [of _ _ FATAL],
        of body] assms(2) by (auto simp: LOG_FATAL_def)
  then show ?thesis by (simp add: log_or_die_def printed_line_def)
qed

text \<open>
  What \<open>fcntl(2)\<close> documents: on a number that is no open descriptor every command fails with
  \<open>EBADF\<close>.
\<close>

definition fcntl_rejects :: "fcntl \<Rightarrow> int \<Rightarrow> bool" where
  "fcntl_rejects fcntl fd \<longleftrightarrow> (\<forall>cmd arg. fcntl fd cmd arg = Err EBADF)"

lemma setNonBlock_rejected:
  "fcntl_rejects fcntl fd \<Longrightarrow> setNonBlockAndCloseOnExec fcntl fd e = e\<lparr>errno := EBADF\<rparr>"
  by (simp add: setNonBlockAndCloseOnExec_def fcntl_rejects_def syscall_def Let_def)

section \<open>Properties\<close>

definition demo_fcntl :: fcntl where
  "demo_fcntl fd cmd arg = (if fd < 0 then Err EBADF else Ok 0)"

lemma demo_logs_ok: "logs_ok demo_env"
  by (simp add: logs_ok_def env_ok_def demo_env_def in_i32_def year_10000_def)

text \<open>
  Every failure of \<open>accept(2)\<close>, the transient ones included, ends the program.  The
  descriptor \<open>- 1\<close> is made non-blocking before it is checked; the failing \<open>fcntl\<close> replaces
  \<open>errno\<close> by \<open>EBADF\<close>, and the \<open>switch\<close> takes that for an unexpected error.
\<close>

lemma accept_failed:
  assumes "logs_ok e" and "in_i32 n" and "fcntl_rejects fcntl (- 1)"
  shows "Socket_accept fcntl (Err n) peer peeraddr e = Inl Abort"
proof -
  let ?e = "e\<lparr>errno := EBADF\<rparr>"
  have e: "logs_ok ?e" using assms(1) by (rule logs_ok_errno) (simp add: EBADF_def in_i32_def)
  have s: "setNonBlockAndCloseOnExec fcntl (- 1) (e\<lparr>errno := n\<rparr>) = ?e"
    using setNonBlock_rejected [OF assms(3), of "e\<lparr>errno := n\<rparr>"] by simp
  obtain e3 where e3: "log_or_die (LOG_SYSERR SocketsOps_cc 78 [Chars ''Socket::accept''] ?e) = Inr e3"
    "logs_ok e3" using LOG_SYSERR_continues [OF e, of "[Chars ''Socket::accept'']" 78]
    by (auto simp: in_i32_def)
  have "log_or_die (LOG_FATAL SocketsOps_cc 97
      [Chars ''unexpected error of ::accept '', Number EBADF] e3) = Inl Abort"
    by (rule LOG_FATAL_aborts [OF e3(2)]) (simp_all add: in_i32_def EBADF_def)
  moreover have "EBADF \<notin> accept_transient" "EBADF \<in> accept_unexpected"
    by (simp_all add: accept_transient_def accept_unexpected_def errno_defs)
  ultimately show ?thesis
    by (simp add: Socket_accept_def sockets_accept_def syscall_def Let_def s e3(1))
qed

lemma toHostPort_text:
  "InetAddress_toHostPort addr = inet_ntop (sin_addr addr) @ '':'' @
     dec_nat (unat (networkToHost16 (sin_port addr)))"
proof -
  have "unat (networkToHost16 (sin_port addr)) < 2 ^ LENGTH(16)" by (rule unsigned_less)
  then have "unat (networkToHost16 (sin_port addr)) < 10 ^ 5" by simp
  then have "length (dec_nat (unat (networkToHost16 (sin_port addr)))) \<le> 5"
    by (intro length_dec_nat) simp_all
  then show ?thesis
    using length_inet_ntop [of "sin_addr addr"]
    by (simp add: InetAddress_toHostPort_def toHostPort_def Let_def snprintf_def)
qed

text \<open>
  C31.  An \<open>InetAddress\<close> made from a dotted address and a port prints as exactly that address
  and port: the 32-byte buffer never cuts the text short, and the byte order is undone.
\<close>

theorem host_port_roundtrip:
  assumes "inet_pton ip = Some a"
  shows "\<exists>addr. InetAddress_ip ip port e = Inr (addr, e) \<and>
    InetAddress_toHostPort addr = ip @ '':'' @ dec_nat (unat port)"
  using assms inet_ntop_pton [OF assms]
  by (simp add: InetAddress_ip_def fromHostPort_def Let_def toHostPort_text hostToNetwork16_def
      networkToHost16_def bswap16_involution)

theorem host_port_roundtrip_witness:
  "\<exists>addr. InetAddress_ip ''127.0.0.1'' 8888 demo_env = Inr (addr, demo_env) \<and>
    InetAddress_toHostPort addr = ''127.0.0.1:8888''"
proof -
  have "inet_pton ''127.0.0.1'' = Some 0x0100007F"
    by (simp add: inet_pton_def octet_def undec_def digit_val_def addr_of_bytes_def)
  moreover have "dec_nat (unat (8888 :: 16 word)) = ''8888''" by (simp add: dec_nat_ge dec_nat_small)
  ultimately show ?thesis
    using host_port_roundtrip [of "''127.0.0.1''" "0x0100007F" 8888 demo_env] by simp
qed

text \<open>
  An \<open>InetAddress\<close> made from a text that is no dotted address is the wildcard address: the
  failure is only logged, and the zeroed address means every interface.
\<close>

theorem invalid_ip_is_wildcard:
  assumes "logs_ok e" and "inet_pton ip = None"
  shows "\<exists>e'. InetAddress_ip ip port e = Inr (InetAddress_port port, e')"
proof -
  obtain e' where "log_or_die (LOG_SYSERR SocketsOps_cc 138 [Chars ''sockets::fromHostPort''] e) = Inr e'"
    using LOG_SYSERR_continues [OF assms(1), of "[Chars ''sockets::fromHostPort'']" 138]
    by (auto simp: in_i32_def)
  with assms(2) show ?thesis
    by (simp add: InetAddress_ip_def fromHostPort_def Let_def InetAddress_port_def zero_sockaddr_def
        hostToNetwork32_def INADDR_ANY_def bswap32_def)
qed

theorem invalid_ip_is_wildcard_witness:
  "\<exists>e'. InetAddress_ip ''localhost'' 80 demo_env = Inr (InetAddress_port 80, e')"
  by (rule invalid_ip_is_wildcard [OF demo_logs_ok]) (simp add: inet_pton_def)

end
