(* ===== verification/TcpConnection.thy ===== *)
theory TcpConnection
  imports Buffers Pollers Sockets
begin

text \<open>
  \<open>TcpConnection.h\<close>, \<open>TcpConnection.cc\<close>: one connection together with what its operations
  touch: the poller of its loop, on whose heap its channel lives, the functors it queued in the
  loop, and the kernel.  The kernel's answers to \<open>write\<close> and \<open>readv\<close> are functions of the
  system calls made so far (\<open>io\<close>, with the total length that \<open>readv\<close> may fill); the results of \<open>shutdown\<close> and \<open>getsockopt\<close> are only logged.
  Log statements below \<open>FATAL\<close> leave no trace in this state and are not repeated here.

  What the constructor leaves uninitialised depends on the memory of the new object, an argument of it:
  \<open>state_\<close> (\<open>None\<close> until it is first set; comparing it is undefined), \<open>peerAddr_\<close>, which is initialised
  from itself, and the indices of the two buffers.  \<open>mem_peer\<close> is what the memory of \<open>peerAddr_\<close>
  holds: \<open>None\<close> for an indeterminate value, which to copy is undefined behaviour, and \<open>Some a\<close>
  where the memory happens to hold an address that can be copied.
\<close>

section \<open>Data\<close>

datatype StateE = kConnecting | kConnected | kDisconnecting | kDisconnected

datatype conn_callback = ReadCb | WriteCb | CloseCb | ErrorCb

datatype conn_functor = ShutdownInLoop | SendInLoop "byte list"

datatype io_call = WriteCall int "byte list" | ReadCall int nat | ShutdownCall int | GetErrorCall int

record tcp_conn =
  state :: "StateE option"
  name :: string
  socket :: int
  chan_ptr :: cptr
  localAddr :: sockaddr_in
  peerAddr :: sockaddr_in
  inputBuffer :: buffer
  outputBuffer :: buffer
  loop_poller :: "conn_callback poller"
  loop_functors :: "conn_functor list"
  io :: "io_call list"
  kwrite :: "io_call list \<Rightarrow> int"
  kread :: "io_call list \<Rightarrow> readv_reply"

record conn_memory =
  mem_peer :: "sockaddr_in option"
  mem_in :: "size_t \<times> size_t"
  mem_out :: "size_t \<times> size_t"

definition conn_channel :: "int \<Rightarrow> conn_callback channel" where
  "conn_channel sockfd =
     (channel_new sockfd)\<lparr>readCallback := Some ReadCb, writeCallback := Some WriteCb,
       closeCallback := Some CloseCb, errorCallback := Some ErrorCb\<rparr>"

definition TcpConnection_new ::
    "string \<Rightarrow> int \<Rightarrow> sockaddr_in \<Rightarrow> sockaddr_in \<Rightarrow> conn_memory \<Rightarrow> cptr \<Rightarrow> conn_callback poller \<Rightarrow>
     (io_call list \<Rightarrow> int) \<Rightarrow> (io_call list \<Rightarrow> readv_reply) \<Rightarrow> tcp_conn outcome" where
  "TcpConnection_new nameArg sockfd local peer mem p pl kw kr =
     bindO (case mem_peer mem of None \<Rightarrow> Inl UB | Some a \<Rightarrow> Inr a) (\<lambda>own_peer.
     bindO (buffer_new (fst (mem_in mem)) (snd (mem_in mem))) (\<lambda>inb.
     bindO (buffer_new (fst (mem_out mem)) (snd (mem_out mem))) (\<lambda>outb.
       Inr \<lparr>state = None, name = nameArg, socket = sockfd, chan_ptr = p, localAddr = local,
            peerAddr = own_peer, inputBuffer = inb, outputBuffer = outb,
            loop_poller = pl\<lparr>chs := (chs pl)(p \<mapsto> conn_channel sockfd)\<rparr>, loop_functors = [],
            io = [], kwrite = kw, kread = kr\<rparr>)))"

section \<open>Operations\<close>

definition get_chan :: "tcp_conn \<Rightarrow> conn_callback channel option" where
  "get_chan s = chs (loop_poller s) (chan_ptr s)"

definition upd_chan :: "(conn_callback channel \<Rightarrow> conn_callback channel) \<Rightarrow> tcp_conn \<Rightarrow> tcp_conn" where
  "upd_chan f s =
     s\<lparr>loop_poller := (loop_poller s)\<lparr>chs :=
         (chs (loop_poller s))(chan_ptr s := map_option f (get_chan s))\<rparr>\<rparr>"

definition the_chan :: "tcp_conn \<Rightarrow> conn_callback channel outcome" where
  "the_chan s = deref (chs (loop_poller s)) (chan_ptr s)"

definition on_poller ::
    "(cptr \<Rightarrow> conn_callback poller \<Rightarrow> conn_callback poller outcome) \<Rightarrow> tcp_conn \<Rightarrow> tcp_conn outcome" where
  "on_poller f s = bindO (f (chan_ptr s) (loop_poller s)) (\<lambda>pl. Inr (s\<lparr>loop_poller := pl\<rparr>))"

definition sys_write :: "int \<Rightarrow> byte list \<Rightarrow> tcp_conn \<Rightarrow> int \<times> tcp_conn" where
  "sys_write sockfd bytes s =
     (let s1 = s\<lparr>io := io s @ [WriteCall sockfd bytes]\<rparr> in (kwrite s1 (io s1), s1))"

definition state_is :: "StateE \<Rightarrow> tcp_conn \<Rightarrow> bool outcome" where
  "state_is st s = (case state s of None \<Rightarrow> Inl UB | Some st' \<Rightarrow> Inr (st' = st))"

definition setState :: "StateE \<Rightarrow> tcp_conn \<Rightarrow> tcp_conn" where
  "setState st s = s\<lparr>state := Some st\<rparr>"

definition shutdownInLoop :: "tcp_conn \<Rightarrow> tcp_conn outcome" where
  "shutdownInLoop s =
     bindO (the_chan s) (\<lambda>c.
       if \<not> isWriting c then Inr (s\<lparr>io := io s @ [ShutdownCall (socket s)]\<rparr>) else Inr s)"

text \<open>The log statement of \<open>handleClose\<close> reads \<open>state_\<close>.\<close>

definition handleClose :: "tcp_conn \<Rightarrow> tcp_conn outcome" where
  "handleClose s = bindO (state_is kConnected s) (\<lambda>_. on_poller disableAll s)"

definition handleError :: "tcp_conn \<Rightarrow> tcp_conn outcome" where
  "handleError s = bindO (the_chan s) (\<lambda>c. Inr (s\<lparr>io := io s @ [GetErrorCall (fd c)]\<rparr>))"

definition handleRead :: "timestamp \<Rightarrow> tcp_conn \<Rightarrow> tcp_conn outcome" where
  "handleRead receiveTime s =
     bindO (the_chan s) (\<lambda>c.
       let s1 = s\<lparr>io := io s @
                    [ReadCall (fd c) (unat (writableBytes (inputBuffer s)) + 65536)]\<rparr> in
       bindO (readFd (kread s1 (io s1)) (inputBuffer s1)) (\<lambda>r.
         let s2 = s1\<lparr>inputBuffer := rd_buffer r\<rparr>; n = rd_n r in
         if n > 0 then Inr s2
         else if n = 0 then handleClose s2
         else handleError s2))"

definition handleWrite :: "tcp_conn \<Rightarrow> tcp_conn outcome" where
  "handleWrite s =
     bindO (the_chan s) (\<lambda>c.
       if isWriting c
       then bindO (peek_bytes (outputBuffer s)) (\<lambda>bytes.
              let (n, s1) = sys_write (fd c) bytes s in
              if n > 0
              then let s2 = s1\<lparr>outputBuffer := retrieve (of_int n) (outputBuffer s1)\<rparr> in
                   if readableBytes (outputBuffer s2) = 0
                   then bindO (on_poller disableWriting s2) (\<lambda>s3.
                        bindO (state_is kDisconnecting s3) (\<lambda>b.
                          if b then shutdownInLoop s3 else Inr s3))
                   else Inr s2
              else Inr s1)
       else Inr s)"

definition sendInLoop :: "byte list \<Rightarrow> tcp_conn \<Rightarrow> tcp_conn outcome" where
  "sendInLoop message s =
     bindO (the_chan s) (\<lambda>c.
       let (nwrote, s1) =
         (if \<not> isWriting c \<and> readableBytes (outputBuffer s) = 0
          then let (n, s') = sys_write (fd c) message s in (if n \<ge> 0 then n else 0, s')
          else (0, s))
       in if nwrote < int (length message)
          then let s2 = s1\<lparr>outputBuffer :=
                     append_chars (drop (nat nwrote) message) (of_nat (length message) - of_int nwrote)
                       (outputBuffer s1)\<rparr> in
               bindO (the_chan s2) (\<lambda>c'.
                 if \<not> isWriting c' then on_poller enableWriting s2 else Inr s2)
          else Inr s1)"

text \<open>\<open>EventLoop::runInLoop\<close>: at once in the loop's thread, queued from another one.\<close>

fun run_conn_functor :: "conn_functor \<Rightarrow> tcp_conn \<Rightarrow> tcp_conn outcome" where
  "run_conn_functor ShutdownInLoop s = shutdownInLoop s"
| "run_conn_functor (SendInLoop m) s = sendInLoop m s"

definition conn_runInLoop :: "bool \<Rightarrow> conn_functor \<Rightarrow> tcp_conn \<Rightarrow> tcp_conn outcome" where
  "conn_runInLoop in_loop f s =
     (if in_loop then run_conn_functor f s else Inr (s\<lparr>loop_functors := loop_functors s @ [f]\<rparr>))"

definition shutdown :: "bool \<Rightarrow> tcp_conn \<Rightarrow> tcp_conn outcome" where
  "shutdown in_loop s =
     bindO (state_is kConnected s) (\<lambda>b.
       if b then conn_runInLoop in_loop ShutdownInLoop (setState kDisconnecting s) else Inr s)"

definition send :: "bool \<Rightarrow> byte list \<Rightarrow> tcp_conn \<Rightarrow> tcp_conn outcome" where
  "send in_loop message s =
     bindO (state_is kConnected s) (\<lambda>b.
       if b then (if in_loop then sendInLoop message s
                  else conn_runInLoop in_loop (SendInLoop message) s)
       else Inr s)"

text \<open>
  The connection callback is user code; an empty \<open>std::function\<close> (\<open>None\<close>) throws.
\<close>

type_synonym conn_user = "(tcp_conn \<Rightarrow> tcp_conn outcome) option"

definition call_user :: "conn_user \<Rightarrow> tcp_conn \<Rightarrow> tcp_conn outcome" where
  "call_user cb s = (case cb of None \<Rightarrow> Inl Abort | Some f \<Rightarrow> f s)"

definition connectEstablished :: "conn_user \<Rightarrow> tcp_conn \<Rightarrow> tcp_conn outcome" where
  "connectEstablished connectionCallback s =
     bindO (on_poller enableReading (setState kConnected s)) (\<lambda>s1. call_user connectionCallback s1)"

definition connectDestroyed :: "conn_user \<Rightarrow> tcp_conn \<Rightarrow> tcp_conn outcome" where
  "connectDestroyed connectionCallback s =
     bindO (on_poller disableAll (setState kDisconnected s)) (\<lambda>s1.
     bindO (call_user connectionCallback s1) (\<lambda>s2.
       on_poller removeChannel s2))"

text \<open>The channel's callbacks, as the constructor binds them.\<close>

fun run_callback :: "conn_callback \<Rightarrow> timestamp \<Rightarrow> tcp_conn \<Rightarrow> tcp_conn outcome" where
  "run_callback ReadCb t s = handleRead t s"
| "run_callback WriteCb t s = handleWrite s"
| "run_callback CloseCb t s = handleClose s"
| "run_callback ErrorCb t s = handleError s"

fun conn_invoke :: "conn_callback event_call \<Rightarrow> tcp_conn \<Rightarrow> tcp_conn outcome" where
  "conn_invoke (OnClose cb) s = run_callback cb invalid s"
| "conn_invoke (OnError cb) s = run_callback cb invalid s"
| "conn_invoke (OnRead cb t) s = run_callback cb t s"
| "conn_invoke (OnWrite cb) s = run_callback cb invalid s"

definition conn_event :: "timestamp \<Rightarrow> tcp_conn \<Rightarrow> tcp_conn outcome" where
  "conn_event receiveTime = handleEvent get_chan upd_chan conn_invoke receiveTime"

section \<open>The channel survives its callbacks\<close>

lemma the_chan_get: "the_chan s = (case get_chan s of None \<Rightarrow> Inl UB | Some c \<Rightarrow> Inr c)"
  by (simp add: the_chan_def get_chan_def deref_def)

text \<open>
  \<open>near p pl pl'\<close>: a change of the poller on behalf of channel \<open>p\<close> only.  It leaves the other channels
  and the registrations of other descriptors alone.
\<close>

definition near :: "cptr \<Rightarrow> 'cb poller \<Rightarrow> 'cb poller \<Rightarrow> bool" where
  "near p pl pl' \<longleftrightarrow>
     (\<forall>q. q \<noteq> p \<longrightarrow> chs pl' q = chs pl q) \<and>
     (\<forall>c. chs pl p = Some c \<longrightarrow>
        (\<exists>c'. chs pl' p = Some c' \<and> fd c' = fd c) \<and> (\<forall>f. f \<noteq> fd c \<longrightarrow> channels pl' f = channels pl f))"

lemma near_refl [simp]: "near p pl pl"
  by (simp add: near_def)

lemma near_trans: "near p a b \<Longrightarrow> near p b c \<Longrightarrow> near p a c"
  by (fastforce simp: near_def)

lemma updateChannel_near: "updateChannel p pl = Inr pl' \<Longrightarrow> near p pl pl'"
  by (auto simp: near_def updateChannel_def Let_def outcome_simps set_index_def split: if_splits)

lemma setter_near:
  assumes "set_and_update f p pl = Inr pl'" "\<And>c. fd (f c) = fd c"
  shows "near p pl pl'"
proof -
  obtain c where c: "chs pl p = Some c" "updateChannel p (pl\<lparr>chs := (chs pl)(p \<mapsto> f c)\<rparr>) = Inr pl'"
    using assms(1) by (auto simp: set_and_update_def outcome_simps)
  have "near p pl (pl\<lparr>chs := (chs pl)(p \<mapsto> f c)\<rparr>)" using c(1) assms(2) by (simp add: near_def)
  with updateChannel_near [OF c(2)] show ?thesis by (blast intro: near_trans)
qed

definition keeps_dispatch :: "(conn_callback channel \<Rightarrow> conn_callback channel) \<Rightarrow> bool" where
  "keeps_dispatch f \<longleftrightarrow> (\<forall>c. same_dispatch c (f c) \<and> fd (f c) = fd c)"

lemma setters_keep_dispatch [simp]:
  "keeps_dispatch want_reading" "keeps_dispatch want_writing" "keeps_dispatch unwant_writing"
  "keeps_dispatch want_nothing"
  by (simp_all add: keeps_dispatch_def same_dispatch_def want_reading_def want_writing_def
      unwant_writing_def want_nothing_def)

text \<open>
  \<open>ident\<close>: the connection is the same one, and not less initialised; \<open>chan_kept\<close>: moreover its
  channel is there and dispatches as before.
\<close>

definition ident :: "tcp_conn \<Rightarrow> tcp_conn \<Rightarrow> bool" where
  "ident s s' \<longleftrightarrow> chan_ptr s' = chan_ptr s \<and> name s' = name s \<and> (state s \<noteq> None \<longrightarrow> state s' \<noteq> None)"

lemma ident_refl [simp]: "ident s s"
  by (simp add: ident_def)

lemma ident_trans: "ident s t \<Longrightarrow> ident t u \<Longrightarrow> ident s u"
  by (simp add: ident_def)

lemma ident_upd_chan [simp]: "ident s (upd_chan f s)"
  by (simp add: ident_def upd_chan_def)

definition chan_kept :: "tcp_conn \<Rightarrow> tcp_conn \<Rightarrow> bool" where
  "chan_kept s s' \<longleftrightarrow> ident s s' \<and> near (chan_ptr s) (loop_poller s) (loop_poller s') \<and>
     (\<forall>c. get_chan s = Some c \<longrightarrow> (\<exists>c'. get_chan s' = Some c' \<and> same_dispatch c c'))"

lemma chan_kept_refl [simp]: "chan_kept s s"
  by (auto simp: chan_kept_def)

lemma chan_kept_trans: "chan_kept s t \<Longrightarrow> chan_kept t u \<Longrightarrow> chan_kept s u"
  unfolding chan_kept_def by (metis ident_def ident_trans near_trans same_dispatch_trans)

lemma chan_kept_same:
  "loop_poller s' = loop_poller s \<Longrightarrow> chan_ptr s' = chan_ptr s \<Longrightarrow> name s' = name s \<Longrightarrow>
   (state s \<noteq> None \<longrightarrow> state s' \<noteq> None) \<Longrightarrow> chan_kept s s'"
  by (auto simp: chan_kept_def ident_def get_chan_def)

lemma updateChannel_keeps:
  "updateChannel p s = Inr s' \<Longrightarrow> chs s p = Some c \<Longrightarrow>
   \<exists>c'. chs s' p = Some c' \<and> same_dispatch c c'"
  by (auto simp: updateChannel_def Let_def outcome_simps same_dispatch_def set_index_def split: if_splits)

lemma on_poller_setter_kept:
  assumes f: "keeps_dispatch f" and run: "on_poller (set_and_update f) s = Inr s'"
  shows "chan_kept s s'"
proof -
  from run obtain c pl where c: "chs (loop_poller s) (chan_ptr s) = Some c"
    and pl: "updateChannel (chan_ptr s)
      ((loop_poller s)\<lparr>chs := (chs (loop_poller s))(chan_ptr s \<mapsto> f c)\<rparr>) = Inr pl"
    and s': "s' = s\<lparr>loop_poller := pl\<rparr>"
    by (auto simp: on_poller_def set_and_update_def outcome_simps)
  have "\<exists>c'. chs pl (chan_ptr s) = Some c' \<and> same_dispatch (f c) c'"
    by (rule updateChannel_keeps [OF pl]) simp
  moreover have "same_dispatch c (f c)" using f by (simp add: keeps_dispatch_def)
  moreover have near: "near (chan_ptr s) (loop_poller s) pl"
    by (rule setter_near [of f]) (use pl c f in \<open>simp_all add: set_and_update_def keeps_dispatch_def\<close>)
  ultimately show ?thesis
    using c near by (auto simp: chan_kept_def ident_def get_chan_def s' intro: same_dispatch_trans)
qed

lemmas setter_defs = enableReading_def enableWriting_def disableWriting_def disableAll_def

lemma sys_write_kept: "sys_write d bs s = (n, s') \<Longrightarrow> chan_kept s s'"
  by (intro chan_kept_same) (auto simp: sys_write_def Let_def)

lemma shutdownInLoop_kept: "shutdownInLoop s = Inr s' \<Longrightarrow> chan_kept s s'"
  by (intro chan_kept_same) (auto simp: shutdownInLoop_def outcome_simps split: if_splits)

lemma handleError_kept: "handleError s = Inr s' \<Longrightarrow> chan_kept s s'"
  by (intro chan_kept_same) (auto simp: handleError_def outcome_simps)

lemma handleClose_kept: "handleClose s = Inr s' \<Longrightarrow> chan_kept s s'"
  by (auto simp: handleClose_def outcome_simps setter_defs
      intro: on_poller_setter_kept [OF setters_keep_dispatch(4)])

lemma handleRead_kept: "handleRead t s = Inr s' \<Longrightarrow> chan_kept s s'"
proof -
  assume run: "handleRead t s = Inr s'"
  then obtain calls and r :: readFd_result where run':
    "(let s2 = s\<lparr>io := calls, inputBuffer := rd_buffer r\<rparr> in
      if rd_n r > 0 then Inr s2 else if rd_n r = 0 then handleClose s2 else handleError s2) = Inr s'"
    unfolding handleRead_def Let_def bindO_Inr_conv by blast
  let ?s2 = "s\<lparr>io := calls, inputBuffer := rd_buffer r\<rparr>"
  have "chan_kept s ?s2" by (rule chan_kept_same) simp_all
  moreover have "chan_kept ?s2 s'"
    using run' by (auto simp: Let_def split: if_splits intro: handleClose_kept handleError_kept)
  ultimately show ?thesis by (rule chan_kept_trans)
qed

lemma handleWrite_kept: "handleWrite s = Inr s' \<Longrightarrow> chan_kept s s'"
proof -
  assume run: "handleWrite s = Inr s'"
  obtain c where c: "the_chan s = Inr c" using run by (auto simp: handleWrite_def outcome_simps)
  show ?thesis
  proof (cases "isWriting c")
    case False
    with run c show ?thesis by (simp add: handleWrite_def)
  next
    case True
    with run c obtain bs where bs: "peek_bytes (outputBuffer s) = Inr bs"
      by (auto simp: handleWrite_def outcome_simps)
    obtain n s1 where w: "sys_write (fd c) bs s = (n, s1)" by fastforce
    let ?s2 = "s1\<lparr>outputBuffer := retrieve (of_int n) (outputBuffer s1)\<rparr>"
    have k: "chan_kept s s1" "chan_kept s1 ?s2"
      using sys_write_kept [OF w] by (auto intro: chan_kept_same)
    show ?thesis
    proof (cases "n > 0 \<and> readableBytes (outputBuffer ?s2) = 0")
      case True
      with run c bs w \<open>isWriting c\<close> obtain s3 b where s3: "on_poller disableWriting ?s2 = Inr s3"
        "(if b then shutdownInLoop s3 else Inr s3) = Inr s'"
        by (auto simp: handleWrite_def outcome_simps)
      have "chan_kept ?s2 s3"
        using s3(1) unfolding setter_defs by (intro on_poller_setter_kept) auto
      moreover have "chan_kept s3 s'" using s3(2) shutdownInLoop_kept by (auto split: if_splits)
      ultimately show ?thesis using k by (blast intro: chan_kept_trans)
    next
      case False
      with run c bs w \<open>isWriting c\<close> have "s' = s1 \<or> s' = ?s2"
        by (auto simp: handleWrite_def Let_def split: if_splits)
      with k show ?thesis by (blast intro: chan_kept_trans)
    qed
  qed
qed

lemma sendInLoop_kept: "sendInLoop m s = Inr s' \<Longrightarrow> chan_kept s s'"
proof -
  assume run: "sendInLoop m s = Inr s'"
  obtain c where c: "the_chan s = Inr c" using run by (auto simp: sendInLoop_def outcome_simps)
  obtain n s1 where w: "(if \<not> isWriting c \<and> readableBytes (outputBuffer s) = 0
      then let (n, s') = sys_write (fd c) m s in (if n \<ge> 0 then n else 0, s') else (0, s)) = (n, s1)"
    by fastforce
  then have k1: "chan_kept s s1"
    by (auto split: if_splits prod.splits intro: sys_write_kept)
  let ?s2 = "s1\<lparr>outputBuffer := append_chars (drop (nat n) m) (of_nat (length m) - of_int n) (outputBuffer s1)\<rparr>"
  have k2: "chan_kept s1 ?s2" by (rule chan_kept_same) simp_all
  have rest: "(if n < int (length m)
      then bindO (the_chan ?s2) (\<lambda>c'. if \<not> isWriting c' then on_poller enableWriting ?s2 else Inr ?s2)
      else Inr s1) = Inr s'"
    using run unfolding sendInLoop_def c bindO.simps Let_def w [unfolded Let_def] by simp
  consider "s' = s1" | "s' = ?s2" | "on_poller enableWriting ?s2 = Inr s'"
  proof (cases "n < int (length m)")
    case True
    with rest obtain c' :: "conn_callback channel" where "(if \<not> isWriting c' then on_poller enableWriting ?s2 else Inr ?s2) = Inr s'"
      unfolding if_P [OF True] bindO_Inr_conv by blast
    with that show ?thesis by (cases "isWriting c'") auto
  next
    case False
    with rest that show ?thesis by simp
  qed
  then show ?thesis
  proof cases
    case 3
    then have "chan_kept ?s2 s'"
      unfolding setter_defs by (rule on_poller_setter_kept [OF setters_keep_dispatch(2)])
    with k1 k2 show ?thesis by (blast intro: chan_kept_trans)
  qed (use k1 k2 in \<open>auto intro: chan_kept_trans\<close>)
qed

lemma functor_kept: "run_conn_functor f s = Inr s' \<Longrightarrow> chan_kept s s'"
  by (cases f) (auto intro: shutdownInLoop_kept sendInLoop_kept)

lemma runInLoop_kept: "conn_runInLoop in_loop f s = Inr s' \<Longrightarrow> chan_kept s s'"
  by (auto simp: conn_runInLoop_def intro: functor_kept chan_kept_same split: if_splits)

lemma send_kept: "send in_loop m s = Inr s' \<Longrightarrow> chan_kept s s'"
  by (auto simp: send_def outcome_simps intro: sendInLoop_kept runInLoop_kept split: if_splits)

lemma setState_kept: "chan_kept s (setState st s)"
  by (rule chan_kept_same) (simp_all add: setState_def)

lemma shutdown_kept: "shutdown in_loop s = Inr s' \<Longrightarrow> chan_kept s s'"
  by (auto simp: shutdown_def outcome_simps split: if_splits
      intro: chan_kept_trans [OF setState_kept runInLoop_kept])

lemma run_callback_kept: "run_callback cb t s = Inr s' \<Longrightarrow> chan_kept s s'"
  by (cases cb) (auto intro: handleRead_kept handleWrite_kept handleClose_kept handleError_kept)

lemma conn_invoke_kept: "conn_invoke call s = Inr s' \<Longrightarrow> chan_kept s s'"
  by (cases call) (auto intro: run_callback_kept)

lemma run_calls_kept: "run_calls conn_invoke calls s = Inr s' \<Longrightarrow> chan_kept s s'"
proof (induction calls arbitrary: s)
  case (Cons k calls)
  then show ?case by (auto simp: outcome_simps intro: chan_kept_trans conn_invoke_kept)
qed simp

interpretation own: channel_owner get_chan upd_chan conn_invoke
proof
  show "get_chan s = Some c \<Longrightarrow> get_chan (upd_chan f s) = Some (f c)" for s c f
    by (simp add: get_chan_def upd_chan_def)
  show "get_chan s = Some c \<Longrightarrow> conn_invoke call s = Inr s' \<Longrightarrow>
      \<exists>c'. get_chan s' = Some c' \<and> same_dispatch c c'" for s c call s'
    using conn_invoke_kept [of call s s'] by (simp add: chan_kept_def)
qed

lemma upd_chan_near: "(\<And>c. fd (f c) = fd c) \<Longrightarrow> near (chan_ptr s) (loop_poller s) (loop_poller (upd_chan f s))"
  by (auto simp: near_def upd_chan_def get_chan_def)

lemma conn_event_near:
  assumes run: "conn_event t s = Inr s'"
  shows "ident s s' \<and> near (chan_ptr s) (loop_poller s) (loop_poller s')"
proof -
  from run obtain c where c: "get_chan s = Some c"
    by (auto simp: conn_event_def handleEvent_def outcome_simps)
  let ?s0 = "upd_chan (eventHandling_update (\<lambda>_. True)) s"
  from run obtain s1 where s1: "run_calls conn_invoke (dispatch t c) ?s0 = Inr s1"
    and s': "s' = upd_chan (eventHandling_update (\<lambda>_. False)) s1"
    unfolding conn_event_def own.handleEvent_dispatch [OF c] bindO_Inr_conv by blast
  have k: "ident ?s0 s1" "near (chan_ptr ?s0) (loop_poller ?s0) (loop_poller s1)"
    using run_calls_kept [OF s1] by (simp_all add: chan_kept_def)
  have p: "chan_ptr ?s0 = chan_ptr s" "chan_ptr s1 = chan_ptr s" using k(1) by (simp_all add: upd_chan_def ident_def)
  have "near (chan_ptr s) (loop_poller s) (loop_poller ?s0)" by (rule upd_chan_near) simp
  moreover have "near (chan_ptr s1) (loop_poller s1) (loop_poller s')" unfolding s' by (rule upd_chan_near) simp
  ultimately have "near (chan_ptr s) (loop_poller s) (loop_poller s')"
    using k(2) p by (metis near_trans)
  moreover have "ident s s'" unfolding s' using k(1) by (blast intro: ident_trans ident_upd_chan)
  ultimately show ?thesis by blast
qed

end
