(* ===== verification/Connections.thy ===== *)
theory Connections
  imports TcpConnection
begin

unbundle bit_operations_syntax

text \<open>
  What a \<open>TcpConnection\<close> guarantees and what it does not: the invariant of an established
  connection, the effect of each of its operations, and its behaviour over arbitrary sequences
  of events, calls and queued functors.
\<close>

section \<open>The invariant of an established connection\<close>

definition chan_ok :: "tcp_conn \<Rightarrow> bool" where
  "chan_ok s \<longleftrightarrow> poller_inv (loop_poller s) \<and> registered (chan_ptr s) (loop_poller s)"

text \<open>What the kernel documents: it writes at most the bytes it was given, and reads at most the
  room it was given.\<close>

definition kernel_ok :: "tcp_conn \<Rightarrow> bool" where
  "kernel_ok s \<longleftrightarrow>
     (\<forall>h d bs. kwrite s (h @ [WriteCall d bs]) \<le> int (length bs)) \<and>
     (\<forall>h d len bs. kread s (h @ [ReadCall d len]) = ReadvBytes bs \<longrightarrow> length bs \<le> len)"

definition conn_ok :: "tcp_conn \<Rightarrow> bool" where
  "conn_ok s \<longleftrightarrow> chan_ok s \<and> kernel_ok s \<and> state s \<noteq> None \<and>
     wf_buffer (inputBuffer s) \<and> wf_buffer (outputBuffer s) \<and> contents (outputBuffer s) = []"

definition writing :: "tcp_conn \<Rightarrow> bool" where
  "writing s = (case get_chan s of None \<Rightarrow> False | Some c \<Rightarrow> isWriting c)"

lemma chan_ok_get: "chan_ok s \<Longrightarrow> \<exists>c. get_chan s = Some c"
  by (auto simp: chan_ok_def registered_def get_chan_def split: option.splits)

lemma conn_ok_frame:
  assumes "conn_ok s"
  shows "conn_ok (s\<lparr>io := h\<rparr>)" and "conn_ok (s\<lparr>loop_functors := fs\<rparr>)"
    and "conn_ok (s\<lparr>state := Some st\<rparr>)"
    and "wf_buffer b \<Longrightarrow> conn_ok (s\<lparr>inputBuffer := b\<rparr>)"
  using assms by (simp_all add: conn_ok_def chan_ok_def kernel_ok_def)

lemma get_chan_frame [simp]:
  "get_chan (s\<lparr>io := h\<rparr>) = get_chan s" "get_chan (s\<lparr>loop_functors := fs\<rparr>) = get_chan s"
  "get_chan (s\<lparr>state := st\<rparr>) = get_chan s" "get_chan (s\<lparr>inputBuffer := b\<rparr>) = get_chan s"
  "get_chan (s\<lparr>outputBuffer := b\<rparr>) = get_chan s"
  by (simp_all add: get_chan_def)

text \<open>A flag setter of the connection's channel: the state changes in the poller only.\<close>

lemma on_poller_ok:
  assumes ok: "chan_ok s" and c: "get_chan s = Some c" and f: "setter f"
  shows "\<exists>pl. on_poller (set_and_update f) s = Inr (s\<lparr>loop_poller := pl\<rparr>) \<and>
    chan_ok (s\<lparr>loop_poller := pl\<rparr>) \<and> get_chan (s\<lparr>loop_poller := pl\<rparr>) = Some (f c) \<and>
    (isNoneEvent (f c) \<longrightarrow> watched pl (fd c) = None)"
proof -
  let ?p = "chan_ptr s" and ?pl = "loop_poller s"
  have inv: "poller_inv ?pl" and reg: "registered ?p ?pl" using ok by (simp_all add: chan_ok_def)
  have ch: "chs ?pl ?p = Some c" using c by (simp add: get_chan_def)
  with reg have "channels ?pl (fd c) = Some ?p" by (simp add: registered_def)
  from update_registered_inv [OF inv ch this f] obtain pl pfd where pl:
    "set_and_update f ?p ?pl = Inr pl" "poller_inv pl" "channels pl = channels ?pl"
    "chs pl = (chs ?pl)(?p \<mapsto> f c)" "pollfds pl = (pollfds ?pl)[nat (index c) := pfd]"
    "nat (index c) < length (pollfds ?pl)" "real_fd (pfd_fd pfd) = fd c"
    "pfd_fd pfd = (if isNoneEvent (f c) then - fd c - 1 else pfd_fd (pollfds ?pl ! nat (index c)))"
    by blast
  have fc: "fd (f c) = fd c" using f by (simp add: setter_def)
  have pos: "0 \<le> fd c" by (rule poller_invD(3) [OF inv ch])
  have "watched pl (fd c) = None" if "isNoneEvent (f c)"
    using watched_at [OF pl(2), of "nat (index c)" "fd c"] pl(5,6,7,8) that pos by simp
  then show ?thesis
    using pl(1-4) \<open>channels ?pl (fd c) = Some ?p\<close> fc
    by (intro exI [of _ pl]) (simp add: on_poller_def chan_ok_def get_chan_def registered_def)
qed

lemma setter_on_poller:
  assumes ok: "conn_ok s" and c: "get_chan s = Some c" and f: "setter f"
  shows "\<exists>pl. on_poller (set_and_update f) s = Inr (s\<lparr>loop_poller := pl\<rparr>) \<and>
    conn_ok (s\<lparr>loop_poller := pl\<rparr>) \<and> get_chan (s\<lparr>loop_poller := pl\<rparr>) = Some (f c) \<and>
    (isNoneEvent (f c) \<longrightarrow> watched pl (fd c) = None)"
proof -
  have "chan_ok s" using ok by (simp add: conn_ok_def)
  from on_poller_ok [OF this c f] ok show ?thesis
    by (auto simp: conn_ok_def kernel_ok_def)
qed

lemma conn_okD:
  assumes "conn_ok s"
  shows "chan_ok s" "kernel_ok s" "state s \<noteq> None" "wf_buffer (inputBuffer s)"
    "wf_buffer (outputBuffer s)" "contents (outputBuffer s) = []" "readableBytes (outputBuffer s) = 0"
  using assms readable_zero [of "outputBuffer s"] by (auto simp: conn_ok_def)

lemma state_is_ok: "conn_ok s \<Longrightarrow> state_is st s = Inr (state s = Some st)"
  by (auto simp: conn_ok_def state_is_def)

section \<open>Every operation\<close>

lemma the_chan_ok: "get_chan s = Some c \<Longrightarrow> the_chan s = Inr c"
  by (simp add: the_chan_get)

lemma shutdownInLoop_run:
  "get_chan s = Some c \<Longrightarrow> shutdownInLoop s =
     Inr (if isWriting c then s else s\<lparr>io := io s @ [ShutdownCall (socket s)]\<rparr>)"
  by (simp add: shutdownInLoop_def the_chan_ok)

lemma handleClose_run:
  assumes ok: "conn_ok s" and c: "get_chan s = Some c"
  shows "\<exists>pl. handleClose s = Inr (s\<lparr>loop_poller := pl\<rparr>) \<and> conn_ok (s\<lparr>loop_poller := pl\<rparr>) \<and>
    get_chan (s\<lparr>loop_poller := pl\<rparr>) = Some (want_nothing c) \<and> watched pl (fd c) = None"
proof -
  have "isNoneEvent (want_nothing c)" by (simp add: isNoneEvent_def want_nothing_def)
  with setter_on_poller [OF ok c setters(4)] show ?thesis
    by (auto simp: handleClose_def state_is_ok [OF ok] disableAll_def)
qed

lemma handleError_run:
  "get_chan s = Some c \<Longrightarrow> handleError s = Inr (s\<lparr>io := io s @ [GetErrorCall (fd c)]\<rparr>)"
  by (simp add: handleError_def the_chan_ok)

lemma handleRead_run:
  assumes ok: "conn_ok s" and c: "get_chan s = Some c"
  defines "h \<equiv> io s @ [ReadCall (fd c) (unat (writableBytes (inputBuffer s)) + 65536)]"
  shows "case kread s h of
      ReadvError err \<Rightarrow> handleRead t s = Inr (s\<lparr>io := h @ [GetErrorCall (fd c)]\<rparr>)
    | ReadvBytes bs \<Rightarrow> \<exists>b. wf_buffer b \<and>
        contents b = contents (inputBuffer s) @ take (unat (writableBytes (inputBuffer s))) bs \<and>
        handleRead t s = (if bs = [] then handleClose (s\<lparr>io := h, inputBuffer := b\<rparr>)
                          else Inr (s\<lparr>io := h, inputBuffer := b\<rparr>))"
proof (cases "kread s h")
  case (ReadvError err)
  have "writerIndex (inputBuffer s) \<le> vector_size (inputBuffer s)"
    using conn_okD(4) [OF ok] by (simp add: word_le_nat_alt unat_vector_size wf_bufferD)
  then have "readFd (ReadvError err) (inputBuffer s) =
      Inr \<lparr>rd_n = - 1, rd_savedErrno = Some err, rd_buffer = inputBuffer s\<rparr>"
    by (simp add: readFd_def)
  with ReadvError c show ?thesis
    by (simp add: handleRead_def the_chan_ok Let_def h_def handleError_run)
next
  case (ReadvBytes bs)
  with conn_okD(2) [OF ok] have "length bs \<le> unat (writableBytes (inputBuffer s)) + 65536"
    unfolding kernel_ok_def h_def by blast
  from readFd_wf [OF conn_okD(4) [OF ok] this] obtain r where
    r: "readFd (ReadvBytes bs) (inputBuffer s) = Inr r" "rd_n r = int (length bs)" "wf_buffer (rd_buffer r)"
    "contents (rd_buffer r) = contents (inputBuffer s) @ take (unat (writableBytes (inputBuffer s))) bs"
    by blast
  then have "handleRead t s = (if bs = [] then handleClose (s\<lparr>io := h, inputBuffer := rd_buffer r\<rparr>)
      else Inr (s\<lparr>io := h, inputBuffer := rd_buffer r\<rparr>))"
    using ReadvBytes c by (simp add: handleRead_def the_chan_ok Let_def h_def)
  with ReadvBytes r show ?thesis by auto
qed

text \<open>
  The output buffer of a connection is always empty, so a write event finds nothing to send:
  the kernel gets an empty write and the channel goes on waiting to write.
\<close>

lemma handleWrite_run:
  assumes ok: "conn_ok s" and c: "get_chan s = Some c"
  shows "handleWrite s =
    Inr (if isWriting c then s\<lparr>io := io s @ [WriteCall (fd c) []]\<rparr> else s)"
proof (cases "isWriting c")
  case True
  have "kwrite s (io s @ [WriteCall (fd c) []]) \<le> int (length ([] :: byte list))"
    using conn_okD(2) [OF ok] unfolding kernel_ok_def by blast
  with True c show ?thesis
    using peek_bytes_contents [OF conn_okD(5) [OF ok]] conn_okD(6) [OF ok]
    by (simp add: handleWrite_def the_chan_ok sys_write_def Let_def)
qed (simp add: handleWrite_def the_chan_ok c)

lemma sendInLoop_run:
  assumes ok: "conn_ok s" and c: "get_chan s = Some c"
    and s1: "s1 = s\<lparr>io := io s @ [WriteCall (fd c) message]\<rparr>"
  shows "sendInLoop message s =
    (if isWriting c then Inr s
     else if int (length message) \<le> kwrite s (io s1) \<or> message = [] then Inr s1
     else on_poller enableWriting s1)"
proof -
  have c1: "get_chan s1 = Some c" using c by (simp add: s1)
  show ?thesis
    using c c1 conn_okD(7) [OF ok]
    by (auto simp: sendInLoop_def the_chan_ok sys_write_def append_chars_def s1 Let_def
        split: prod.splits)
qed

text \<open>The invariant survives every callback, functor and call of the interface.\<close>

definition runs_ok :: "tcp_conn outcome \<Rightarrow> bool" where
  "runs_ok m \<longleftrightarrow> (\<exists>s'. m = Inr s' \<and> conn_ok s')"

lemma runs_ok_Inr [simp]: "runs_ok (Inr s) = conn_ok s"
  by (simp add: runs_ok_def)

lemma conn_ok_chan: "conn_ok s \<Longrightarrow> \<exists>c. get_chan s = Some c"
  using chan_ok_get conn_okD(1) by blast

lemma shutdownInLoop_ok: "conn_ok s \<Longrightarrow> runs_ok (shutdownInLoop s)"
  using conn_ok_chan [of s] shutdownInLoop_run by (auto simp: conn_ok_frame)

lemma handleClose_ok: "conn_ok s \<Longrightarrow> runs_ok (handleClose s)"
  using conn_ok_chan [of s] handleClose_run [of s] by (auto simp: runs_ok_def)

lemma handleRead_ok:
  assumes ok: "conn_ok s"
  shows "runs_ok (handleRead t s)"
proof -
  obtain c where c: "get_chan s = Some c" using conn_ok_chan [OF ok] by blast
  let ?h = "io s @ [ReadCall (fd c) (unat (writableBytes (inputBuffer s)) + 65536)]"
  show ?thesis
  proof (cases "kread s ?h")
    case (ReadvError err)
    with handleRead_run [OF ok c, of t] ok show ?thesis by (simp add: conn_ok_frame)
  next
    case (ReadvBytes bs)
    with handleRead_run [OF ok c, of t] obtain b where b: "wf_buffer b"
      "handleRead t s = (if bs = [] then handleClose (s\<lparr>io := ?h, inputBuffer := b\<rparr>)
        else Inr (s\<lparr>io := ?h, inputBuffer := b\<rparr>))" by auto
    have "conn_ok (s\<lparr>io := ?h, inputBuffer := b\<rparr>)"
      by (intro conn_ok_frame(1,4) ok b(1))
    then show ?thesis unfolding b(2) by (simp add: handleClose_ok)
  qed
qed

lemma handleWrite_ok: "conn_ok s \<Longrightarrow> runs_ok (handleWrite s)"
  using conn_ok_chan [of s] handleWrite_run [of s] by (auto simp: conn_ok_frame)

lemma handleError_ok: "conn_ok s \<Longrightarrow> runs_ok (handleError s)"
  using conn_ok_chan [of s] handleError_run [of s] by (auto simp: conn_ok_frame)

lemma sendInLoop_ok:
  assumes ok: "conn_ok s"
  shows "runs_ok (sendInLoop m s)"
proof -
  obtain c where c: "get_chan s = Some c" using conn_ok_chan [OF ok] by blast
  let ?s1 = "s\<lparr>io := io s @ [WriteCall (fd c) m]\<rparr>"
  have s1: "conn_ok ?s1" "get_chan ?s1 = Some c" using ok c by (simp_all add: conn_ok_frame)
  have "runs_ok (on_poller enableWriting ?s1)"
    using setter_on_poller [OF s1 setters(2)] by (auto simp: runs_ok_def enableWriting_def)
  with s1 ok show ?thesis unfolding sendInLoop_run [OF ok c refl] by simp
qed

lemma run_callback_ok: "conn_ok s \<Longrightarrow> runs_ok (run_callback cb t s)"
  by (cases cb) (simp_all add: handleRead_ok handleWrite_ok handleClose_ok handleError_ok)

lemma conn_invoke_ok: "conn_ok s \<Longrightarrow> runs_ok (conn_invoke call s)"
  by (cases call) (simp_all add: run_callback_ok)

lemma run_conn_functor_ok: "conn_ok s \<Longrightarrow> runs_ok (run_conn_functor f s)"
  by (cases f) (simp_all add: shutdownInLoop_ok sendInLoop_ok)

lemma conn_runInLoop_ok: "conn_ok s \<Longrightarrow> runs_ok (conn_runInLoop in_loop f s)"
  by (simp add: conn_runInLoop_def run_conn_functor_ok conn_ok_frame)

lemma send_ok: "conn_ok s \<Longrightarrow> runs_ok (send in_loop m s)"
  by (simp add: send_def state_is_ok sendInLoop_ok conn_runInLoop_ok)

lemma shutdown_ok: "conn_ok s \<Longrightarrow> runs_ok (shutdown in_loop s)"
  by (simp add: shutdown_def state_is_ok conn_runInLoop_ok setState_def conn_ok_frame)

text \<open>\<open>set_revents\<close> and the \<open>eventHandling_\<close> flag do not concern the poller's tables.\<close>

lemma upd_chan_ok:
  assumes ok: "conn_ok s" and f: "\<And>c. index (f c) = index c \<and> fd (f c) = fd c \<and> events (f c) = events c"
  shows "conn_ok (upd_chan f s)"
proof -
  let ?pl = "loop_poller s" and ?p = "chan_ptr s"
  obtain c where c: "chs ?pl ?p = Some c" using conn_ok_chan [OF ok] by (auto simp: get_chan_def)
  let ?h = "(chs ?pl)(?p \<mapsto> f c)"
  have inv: "poller_inv ?pl" and reg: "registered ?p ?pl"
    using ok by (simp_all add: conn_ok_def chan_ok_def)
  have "poller_inv (?pl\<lparr>chs := ?h\<rparr>)"
  proof (rule poller_invI)
    fix i assume "i < length (pollfds (?pl\<lparr>chs := ?h\<rparr>))"
    then have "entry_ok ?pl i" using poller_invD(1) [OF inv] by simp
    then show "entry_ok (?pl\<lparr>chs := ?h\<rparr>) i"
      using c f [of c] by (auto simp: entry_ok_def split: option.splits)
  next
    fix g q assume "channels (?pl\<lparr>chs := ?h\<rparr>) g = Some q"
    then have "channel_ok ?pl g q" using poller_invD(2) [OF inv] by simp
    then show "channel_ok (?pl\<lparr>chs := ?h\<rparr>) g q"
      using c f [of c] by (auto simp: channel_ok_def split: option.splits)
  next
    fix q d assume "chs (?pl\<lparr>chs := ?h\<rparr>) q = Some d"
    then show "0 \<le> fd d" using poller_invD(3) [OF inv] c f [of c] by (auto split: if_splits)
  qed (use poller_invD(4) [OF inv] in simp)
  moreover have "registered ?p (?pl\<lparr>chs := ?h\<rparr>)"
    using reg c f [of c] by (simp add: registered_def)
  ultimately show ?thesis
    using ok c by (simp add: conn_ok_def chan_ok_def kernel_ok_def upd_chan_def get_chan_def)
qed

lemma run_calls_ok: "conn_ok s \<Longrightarrow> runs_ok (run_calls conn_invoke calls s)"
proof (induction calls arbitrary: s)
  case (Cons k calls)
  from conn_invoke_ok [OF Cons.prems, of k] obtain s1 where "conn_invoke k s = Inr s1" "conn_ok s1"
    by (auto simp: runs_ok_def)
  with Cons.IH show ?case by simp
qed simp

lemma conn_event_run:
  assumes ok: "conn_ok s" and c: "get_chan s = Some c"
  shows "conn_event t s = bindO (run_calls conn_invoke (dispatch t c)
      (upd_chan (eventHandling_update (\<lambda>_. True)) s))
      (\<lambda>s'. Inr (upd_chan (eventHandling_update (\<lambda>_. False)) s'))"
  unfolding conn_event_def by (rule own.handleEvent_dispatch [OF c])

lemma conn_event_ok:
  assumes ok: "conn_ok s"
  shows "runs_ok (conn_event t s)"
proof -
  obtain c where c: "get_chan s = Some c" using conn_ok_chan [OF ok] by blast
  have "conn_ok (upd_chan (eventHandling_update (\<lambda>_. True)) s)" by (rule upd_chan_ok [OF ok]) simp
  from run_calls_ok [OF this, of "dispatch t c"] obtain s' where
    s': "run_calls conn_invoke (dispatch t c) (upd_chan (eventHandling_update (\<lambda>_. True)) s) = Inr s'"
    "conn_ok s'" by (auto simp: runs_ok_def)
  have "conn_ok (upd_chan (eventHandling_update (\<lambda>_. False)) s')" by (rule upd_chan_ok [OF s'(2)]) simp
  then show ?thesis unfolding conn_event_run [OF ok c] s'(1) by simp
qed

section \<open>The life of a connection\<close>

text \<open>
  What can happen to an established connection, in any order: the poller reports events, the
  user calls \<open>send\<close> or \<open>shutdown\<close> in some thread, the loop runs a queued functor.
\<close>

datatype conn_op = Events flags timestamp | Send bool "byte list" | Shutdown bool | RunFunctor

fun conn_do :: "conn_op \<Rightarrow> tcp_conn \<Rightarrow> tcp_conn outcome" where
  "conn_do (Events r t) s = conn_event t (upd_chan (set_revents r) s)"
| "conn_do (Send in_loop m) s = send in_loop m s"
| "conn_do (Shutdown in_loop) s = shutdown in_loop s"
| "conn_do RunFunctor s =
     (case loop_functors s of [] \<Rightarrow> Inr s
      | f # fs \<Rightarrow> run_conn_functor f (s\<lparr>loop_functors := fs\<rparr>))"

fun conn_run :: "conn_op list \<Rightarrow> tcp_conn \<Rightarrow> tcp_conn outcome" where
  "conn_run [] s = Inr s"
| "conn_run (x # xs) s = bindO (conn_do x s) (conn_run xs)"

lemma conn_do_ok: "conn_ok s \<Longrightarrow> runs_ok (conn_do x s)"
proof (cases x)
  case (Events r t)
  assume "conn_ok s"
  then have "conn_ok (upd_chan (set_revents r) s)" by (rule upd_chan_ok) (simp add: set_revents_def)
  with Events show ?thesis by (simp add: conn_event_ok)
qed (auto simp: send_ok shutdown_ok run_conn_functor_ok conn_ok_frame split: list.split)

lemma conn_run_ok: "conn_ok s \<Longrightarrow> runs_ok (conn_run xs s)"
proof (induction xs arbitrary: s)
  case (Cons x xs)
  from conn_do_ok [OF Cons.prems, of x] obtain s1 where "conn_do x s = Inr s1" "conn_ok s1"
    by (auto simp: runs_ok_def)
  with Cons.IH show ?case by simp
qed simp

section \<open>A connection that waits to write\<close>

text \<open>
  Operations that neither report a hang-up nor, by the kernel's replies, an end of input: the
  channel is not disabled by them.
\<close>

fun quiet :: "conn_op \<Rightarrow> bool" where
  "quiet (Events r t) = (\<not> on_hangup r)"
| "quiet _ = True"

definition never_eof :: "tcp_conn \<Rightarrow> bool" where
  "never_eof s \<longleftrightarrow> (\<forall>h. kread s h \<noteq> ReadvBytes [])"

text \<open>System calls that move no data to the peer.\<close>

fun silent :: "io_call \<Rightarrow> bool" where
  "silent (WriteCall d bs) = (bs = [])"
| "silent (ShutdownCall d) = False"
| "silent _ = True"

definition stuck :: "io_call list \<Rightarrow> tcp_conn \<Rightarrow> bool" where
  "stuck h0 s \<longleftrightarrow> conn_ok s \<and> never_eof s \<and> writing s \<and> (\<exists>calls. io s = h0 @ calls \<and> list_all silent calls)"

definition stays_stuck :: "io_call list \<Rightarrow> tcp_conn outcome \<Rightarrow> bool" where
  "stays_stuck h0 m \<longleftrightarrow> (\<exists>s'. m = Inr s' \<and> stuck h0 s')"

lemma stays_stuck_Inr [simp]: "stays_stuck h0 (Inr s) = stuck h0 s"
  by (simp add: stays_stuck_def)

lemma stuckD: "stuck h0 s \<Longrightarrow> conn_ok s \<and> (\<exists>c. get_chan s = Some c \<and> isWriting c)"
  by (auto simp: stuck_def writing_def split: option.splits)

lemma stuck_call:
  assumes "stuck h0 s" "silent call"
  shows "stuck h0 (s\<lparr>io := io s @ [call]\<rparr>)"
  using assms by (auto simp: stuck_def conn_ok_frame never_eof_def writing_def)

lemma stuck_frame:
  assumes "stuck h0 s"
  shows "stuck h0 (s\<lparr>loop_functors := fs\<rparr>)" and "stuck h0 (s\<lparr>state := Some st\<rparr>)"
    and "wf_buffer b \<Longrightarrow> stuck h0 (s\<lparr>inputBuffer := b\<rparr>)"
  using assms by (auto simp: stuck_def conn_ok_frame never_eof_def writing_def)

lemma stuck_upd_chan:
  assumes st: "stuck h0 s"
    and f: "\<And>c. index (f c) = index c \<and> fd (f c) = fd c \<and> events (f c) = events c"
  shows "stuck h0 (upd_chan f s)"
proof -
  obtain c where c: "get_chan s = Some c" "isWriting c" using stuckD [OF st] by blast
  have "get_chan (upd_chan f s) = Some (f c)" using c(1) by (rule own.get_upd)
  then have "writing (upd_chan f s)" using c(2) f [of c] by (simp add: writing_def isWriting_def)
  moreover have "conn_ok (upd_chan f s)" using stuckD [OF st] f by (intro upd_chan_ok) auto
  ultimately show ?thesis using st by (auto simp: stuck_def never_eof_def upd_chan_def)
qed

lemma stuck_shutdownInLoop: "stuck h0 s \<Longrightarrow> stays_stuck h0 (shutdownInLoop s)"
  using stuckD [of h0 s] by (auto simp: shutdownInLoop_run)

lemma stuck_sendInLoop: "stuck h0 s \<Longrightarrow> stays_stuck h0 (sendInLoop m s)"
  using stuckD [of h0 s] by (auto simp: sendInLoop_run)

lemma stuck_functor: "stuck h0 s \<Longrightarrow> stays_stuck h0 (run_conn_functor f s)"
  by (cases f) (simp_all add: stuck_shutdownInLoop stuck_sendInLoop)

lemma stuck_handleWrite: "stuck h0 s \<Longrightarrow> stays_stuck h0 (handleWrite s)"
  using stuckD [of h0 s] stuck_call [of h0 s] by (auto simp: handleWrite_run)

lemma stuck_handleError: "stuck h0 s \<Longrightarrow> stays_stuck h0 (handleError s)"
  using stuckD [of h0 s] stuck_call [of h0 s] by (auto simp: handleError_run)

lemma stuck_handleRead:
  assumes st: "stuck h0 s"
  shows "stays_stuck h0 (handleRead t s)"
proof -
  obtain c where ok: "conn_ok s" and c: "get_chan s = Some c" using stuckD [OF st] by blast
  let ?r = "ReadCall (fd c) (unat (writableBytes (inputBuffer s)) + 65536)"
  have r: "stuck h0 (s\<lparr>io := io s @ [?r]\<rparr>)" by (rule stuck_call [OF st]) simp
  show ?thesis
  proof (cases "kread s (io s @ [?r])")
    case (ReadvError err)
    with handleRead_run [OF ok c, of t] stuck_call [OF r, of "GetErrorCall (fd c)"]
    show ?thesis by simp
  next
    case (ReadvBytes bs)
    have "bs \<noteq> []" using st ReadvBytes by (auto simp: stuck_def never_eof_def)
    with handleRead_run [OF ok c, of t] ReadvBytes stuck_frame(3) [OF r] show ?thesis by auto
  qed
qed

lemma stuck_calls:
  "stuck h0 s \<Longrightarrow> \<forall>k \<in> set calls. case k of OnClose cb \<Rightarrow> False | OnError cb \<Rightarrow> cb \<noteq> CloseCb
     | OnRead cb t \<Rightarrow> cb \<noteq> CloseCb | OnWrite cb \<Rightarrow> cb \<noteq> CloseCb \<Longrightarrow>
   stays_stuck h0 (run_calls conn_invoke calls s)"
proof (induction calls arbitrary: s)
  case (Cons k calls)
  have cb: "stays_stuck h0 (run_callback cb t s)" if "cb \<noteq> CloseCb" for cb t
    using that stuck_handleRead [OF Cons.prems(1)] stuck_handleWrite [OF Cons.prems(1)]
      stuck_handleError [OF Cons.prems(1)] by (cases cb) simp_all
  have "stays_stuck h0 (conn_invoke k s)" using Cons.prems(2) cb by (cases k) auto
  then obtain s1 where "conn_invoke k s = Inr s1" "stuck h0 s1" by (auto simp: stays_stuck_def)
  with Cons.IH [of s1] Cons.prems(2) show ?case by simp
qed simp

text \<open>The callbacks of the channel are those the constructor bound.\<close>

definition bound :: "tcp_conn \<Rightarrow> bool" where
  "bound s \<longleftrightarrow> (\<exists>c. get_chan s = Some c \<and> readCallback c = Some ReadCb \<and> writeCallback c = Some WriteCb \<and>
     closeCallback c = Some CloseCb \<and> errorCallback c = Some ErrorCb)"

lemma bound_kept: "bound s \<Longrightarrow> chan_kept s s' \<Longrightarrow> bound s'"
  by (auto simp: bound_def chan_kept_def same_dispatch_def)

lemma bound_upd:
  assumes "bound s" and "\<And>c. readCallback (f c) = readCallback c \<and> writeCallback (f c) = writeCallback c \<and>
    closeCallback (f c) = closeCallback c \<and> errorCallback (f c) = errorCallback c"
  shows "bound (upd_chan f s)"
  using assms own.get_upd by (fastforce simp: bound_def)

text \<open>The conditions of \<open>handleEvent\<close> bit by bit, and its stages for the bound callbacks.\<close>

lemma mask_bit: "(r :: flags) AND 2 ^ n = 0 \<longleftrightarrow> \<not> bit r n"
  by (simp add: and_exp_eq_0_iff_not_bit)
lemma and_or_zero: "(r :: flags) AND (x OR y) = 0 \<longleftrightarrow> r AND x = 0 \<and> r AND y = 0"
  by (simp add: bit.conj_disj_distrib or_eq_0_iff)
lemma mask_bits:
  "(r :: flags) AND POLLIN = 0 \<longleftrightarrow> \<not> bit r 0" "r AND POLLPRI = 0 \<longleftrightarrow> \<not> bit r 1"
  "r AND POLLOUT = 0 \<longleftrightarrow> \<not> bit r 2" "r AND POLLERR = 0 \<longleftrightarrow> \<not> bit r 3"
  "r AND POLLHUP = 0 \<longleftrightarrow> \<not> bit r 4" "r AND POLLNVAL = 0 \<longleftrightarrow> \<not> bit r 5"
  "r AND POLLRDHUP = 0 \<longleftrightarrow> \<not> bit r 13"
  using mask_bit [of r 0] mask_bit [of r 1] mask_bit [of r 2] mask_bit [of r 3] mask_bit [of r 4] mask_bit [of r 5] mask_bit [of r 13]
  by (simp_all add: poll_bits)
lemma event_bits:
  "on_hangup r \<longleftrightarrow> bit r 4 \<and> \<not> bit r 0"
  "on_error r \<longleftrightarrow> bit r 3 \<or> bit r 5"
  "on_readable r \<longleftrightarrow> bit r 0 \<or> bit r 1 \<or> bit r 13"
  "on_writable r \<longleftrightarrow> bit r 2"
  by (simp_all add: on_hangup_def on_error_def on_readable_def on_writable_def and_or_zero mask_bits)

lemma conn_event_stages:
  assumes c: "get_chan s = Some c" and b: "bound s"
  shows "conn_event t s =
    bindO (if bit (revents c) 4 \<and> \<not> bit (revents c) 0
           then handleClose (upd_chan (eventHandling_update (\<lambda>_. True)) s)
           else Inr (upd_chan (eventHandling_update (\<lambda>_. True)) s)) (\<lambda>s1.
    bindO (if bit (revents c) 3 \<or> bit (revents c) 5 then handleError s1 else Inr s1) (\<lambda>s2.
    bindO (if bit (revents c) 0 \<or> bit (revents c) 1 \<or> bit (revents c) 13
           then handleRead t s2 else Inr s2) (\<lambda>s3.
    bindO (if bit (revents c) 2 then handleWrite s3 else Inr s3) (\<lambda>s4.
      Inr (upd_chan (eventHandling_update (\<lambda>_. False)) s4)))))"
proof -
  have k: "run_calls conn_invoke (if p then [k] else []) s' = (if p then conn_invoke k s' else Inr s')" for p k s'
    by simp
  have "dispatch t c = (if on_hangup (revents c) then [OnClose CloseCb] else []) @
      (if on_error (revents c) then [OnError ErrorCb] else []) @
      (if on_readable (revents c) then [OnRead ReadCb t] else []) @
      (if on_writable (revents c) then [OnWrite WriteCb] else [])"
    using b c by (auto simp: bound_def dispatch_def)
  then show ?thesis
    unfolding conn_event_def own.handleEvent_dispatch [OF c]
    by (simp only: run_calls_append bindO_assoc k conn_invoke.simps run_callback.simps event_bits)
qed

lemma stuck_event:
  assumes st: "stuck h0 s" and b: "bound s" and q: "\<not> on_hangup r"
  shows "\<exists>s'. conn_event t (upd_chan (set_revents r) s) = Inr s' \<and> stuck h0 s' \<and> bound s'"
proof -
  let ?s = "upd_chan (set_revents r) s"
  let ?on = "upd_chan (eventHandling_update (\<lambda>_. True))" and ?off = "upd_chan (eventHandling_update (\<lambda>_. False))"
  have s: "stuck h0 ?s" "bound ?s"
    by (rule stuck_upd_chan [OF st], simp add: set_revents_def) (rule bound_upd [OF b], simp add: set_revents_def)
  have s1: "stuck h0 (?on ?s)" "bound (?on ?s)"
    by (rule stuck_upd_chan [OF s(1)], simp) (rule bound_upd [OF s(2)], simp)
  obtain c where c: "get_chan ?s = Some c" "readCallback c = Some ReadCb" "writeCallback c = Some WriteCb"
    "errorCallback c = Some ErrorCb" using s(2) by (auto simp: bound_def)
  obtain c0 where c0: "get_chan s = Some c0" using b by (auto simp: bound_def)
  from own.get_upd [OF this, of "set_revents r"] c(1) have "revents c = r" by (auto simp: set_revents_def)
  with q c(2-4) have "\<forall>k \<in> set (dispatch t c). case k of OnClose cb \<Rightarrow> False | OnError cb \<Rightarrow> cb \<noteq> CloseCb
     | OnRead cb t \<Rightarrow> cb \<noteq> CloseCb | OnWrite cb \<Rightarrow> cb \<noteq> CloseCb"
    by (auto simp: dispatch_def)
  from stuck_calls [OF s1(1) this] obtain s' where
    s': "run_calls conn_invoke (dispatch t c) (?on ?s) = Inr s'" "stuck h0 s'"
    by (auto simp: stays_stuck_def)
  have b': "bound s'" by (rule bound_kept [OF s1(2) run_calls_kept [OF s'(1)]])
  have "stuck h0 (?off s')" "bound (?off s')"
    by (rule stuck_upd_chan [OF s'(2)], simp) (rule bound_upd [OF b'], simp)
  moreover have "conn_event t ?s = Inr (?off s')"
    using conn_event_run [OF _ c(1), of t] stuckD [OF s(1)] s'(1) by simp
  ultimately show ?thesis by blast
qed

lemma stuck_do:
  assumes st: "stuck h0 s" and b: "bound s" and q: "quiet x"
  shows "\<exists>s'. conn_do x s = Inr s' \<and> stuck h0 s' \<and> bound s'"
proof (cases x)
  case (Events r t)
  with stuck_event [OF st b, of r t] q show ?thesis by simp
next
  case (Send in_loop m)
  have ok: "conn_ok s" using stuckD [OF st] by blast
  have "stays_stuck h0 (send in_loop m s)"
    using st by (simp add: send_def state_is_ok [OF ok] stuck_sendInLoop conn_runInLoop_def stuck_frame)
  with Send show ?thesis using send_kept bound_kept [OF b] by (auto simp: stays_stuck_def)
next
  case (Shutdown in_loop)
  have ok: "conn_ok s" using stuckD [OF st] by blast
  have "stays_stuck h0 (shutdown in_loop s)"
    using st stuck_frame(2) [OF st, of kDisconnecting]
    by (auto simp: shutdown_def state_is_ok [OF ok] stuck_shutdownInLoop conn_runInLoop_def stuck_frame
        setState_def)
  with Shutdown show ?thesis using shutdown_kept bound_kept [OF b] by (auto simp: stays_stuck_def)
next
  case RunFunctor
  show ?thesis
  proof (cases "loop_functors s")
    case (Cons f fs)
    let ?s = "s\<lparr>loop_functors := fs\<rparr>"
    have s: "stuck h0 ?s" by (rule stuck_frame(1) [OF st])
    then have "conn_ok ?s" using stuckD by blast
    moreover have "bound ?s" using b by (simp add: bound_def)
    ultimately show ?thesis
      using RunFunctor Cons stuck_functor [OF s, of f] functor_kept [of f ?s] bound_kept [of ?s]
      by (auto simp: stays_stuck_def)
  qed (use RunFunctor st b in simp)
qed

lemma stuck_run:
  "stuck h0 s \<Longrightarrow> bound s \<Longrightarrow> list_all quiet xs \<Longrightarrow>
   \<exists>s'. conn_run xs s = Inr s' \<and> stuck h0 s' \<and> bound s'"
proof (induction xs arbitrary: s)
  case (Cons x xs)
  from stuck_do [OF Cons.prems(1,2), of x] Cons.prems(3) obtain s1 where
    "conn_do x s = Inr s1" "stuck h0 s1" "bound s1" by auto
  with Cons.IH [of s1] Cons.prems(3) show ?case by simp
qed simp

text \<open>A write event of a stuck connection: whatever else it reports, it ends in an empty write.\<close>

lemma stuck_write_event:
  assumes st: "stuck h0 s" and b: "bound s" and q: "\<not> on_hangup r" and w: "bit r 2"
    and c: "get_chan s = Some c"
  shows "\<exists>s' calls. conn_event t (upd_chan (set_revents r) s) = Inr s' \<and>
    io s' = io s @ calls @ [WriteCall (fd c) []]"
proof -
  let ?s = "upd_chan (set_revents r) s"
  let ?on = "upd_chan (eventHandling_update (\<lambda>_. True))" and ?off = "upd_chan (eventHandling_update (\<lambda>_. False))"
  have io: "io (upd_chan f u) = io u" "chan_ptr (upd_chan f u) = chan_ptr u" for f u by (simp_all add: upd_chan_def)
  have st0: "stuck (io s) s" using st by (simp add: stuck_def)
  have s: "stuck (io s) ?s" "bound ?s"
    by (rule stuck_upd_chan [OF st0], simp add: set_revents_def) (rule bound_upd [OF b], simp add: set_revents_def)
  have s1: "stuck (io s) (?on ?s)" by (rule stuck_upd_chan [OF s(1)]) simp
  have cs: "get_chan ?s = Some (set_revents r c)" using c by (rule own.get_upd)
  have r: "revents (set_revents r c) = r" "fd (set_revents r c) = fd c" by (simp_all add: set_revents_def)
  have c1: "\<exists>c'. get_chan (?on ?s) = Some c' \<and> fd c' = fd c" using own.get_upd [OF cs] r(2) by simp
  have fd_kept: "\<exists>c'. get_chan v = Some c' \<and> fd c' = fd c"
    if "chan_kept u v" "\<exists>c'. get_chan u = Some c' \<and> fd c' = fd c" for u v
    using that by (auto simp: chan_kept_def near_def get_chan_def ident_def)
  have pick: "\<exists>v. (if p then m else Inr u) = Inr v \<and> stuck (io s) v" if "stays_stuck (io s) m" "stuck (io s) u"
    for p m u using that by (cases p) (auto simp: stays_stuck_def)
  obtain s2 where s2: "(if bit r 3 \<or> bit r 5 then handleError (?on ?s) else Inr (?on ?s)) = Inr s2"
    "stuck (io s) s2" using pick [OF stuck_handleError [OF s1] s1] by blast
  have c2: "\<exists>c'. get_chan s2 = Some c' \<and> fd c' = fd c"
    using s2(1) c1 fd_kept [OF handleError_kept [of "?on ?s" s2]] by (auto split: if_splits)
  obtain s3 where s3: "(if bit r 0 \<or> bit r 1 \<or> bit r 13 then handleRead t s2 else Inr s2) = Inr s3"
    "stuck (io s) s3" using pick [OF stuck_handleRead [OF s2(2), of t] s2(2)] by blast
  obtain c' where c': "get_chan s3 = Some c'" "fd c' = fd c"
    using s3(1) c2 fd_kept [OF handleRead_kept [of t s2 s3]] by (auto split: if_splits)
  from stuckD [OF s3(2)] c'(1) have ok: "conn_ok s3" "isWriting c'" by auto
  have w3: "handleWrite s3 = Inr (s3\<lparr>io := io s3 @ [WriteCall (fd c) []]\<rparr>)"
    using handleWrite_run [OF ok(1) c'(1)] ok(2) c'(2) by simp
  obtain calls where calls: "io s3 = io s @ calls" using s3(2) by (auto simp: stuck_def)
  have "conn_event t ?s = Inr (?off (s3\<lparr>io := io s3 @ [WriteCall (fd c) []]\<rparr>))"
    using q w unfolding conn_event_stages [OF cs s(2), of t] r event_bits(1)
    by (simp only: if_False if_True bindO.simps s2(1) s3(1) w3)
  then show ?thesis using calls io(1) by fastforce
qed

section \<open>Properties\<close>

definition demo_conn :: tcp_conn where
  "demo_conn =
     \<lparr>state = Some kConnected, name = ''srv#1'', socket = 5, chan_ptr = 0,
      localAddr = zero_sockaddr, peerAddr = zero_sockaddr,
      inputBuffer = \<lparr>buffer_data = replicate 16 0, readerIndex = 8, writerIndex = 8\<rparr>,
      outputBuffer = \<lparr>buffer_data = replicate 16 0, readerIndex = 8, writerIndex = 8\<rparr>,
      loop_poller = \<lparr>pollfds = [\<lparr>pfd_fd = 5, pfd_events = 3, pfd_revents = 0\<rparr>],
        channels = [5 \<mapsto> 0], chs = [0 \<mapsto> (conn_channel 5)\<lparr>index := 0, events := 3\<rparr>]\<rparr>,
      loop_functors = [], io = [],
      kwrite = (\<lambda>h. case last h of WriteCall d bs \<Rightarrow> min 2 (int (length bs)) | _ \<Rightarrow> - 1),
      kread = (\<lambda>h. ReadvError 11)\<rparr>"

lemma demo_chan: "get_chan demo_conn = Some ((conn_channel 5)\<lparr>index := 0, events := 3\<rparr>)"
  by (simp add: demo_conn_def get_chan_def)

lemma demo_conn_ok: "conn_ok demo_conn"
proof -
  have "poller_inv (loop_poller demo_conn)"
    by (simp add: poller_inv_def demo_conn_def entry_ok_def channel_ok_def conn_channel_def channel_new_def
        real_fd_def)
  then show ?thesis
    by (simp add: conn_ok_def chan_ok_def registered_def kernel_ok_def demo_conn_def conn_channel_def
        channel_new_def wf_buffer_def contents_def)
qed

lemma demo_conn_writing: "\<not> isWriting ((conn_channel 5)\<lparr>index := 0, events := 3\<rparr>)"
  by (simp add: isWriting_def event_masks poll_bits)

text \<open>
  An established connection is safe: whatever events its channel gets, whatever is sent or
  shut down from any thread and in any order, no operation meets undefined behaviour or ends
  the process, the poller's tables stay consistent, and the output buffer is empty throughout.
\<close>

theorem connection_safe:
  assumes "conn_ok s"
  shows "\<exists>s'. conn_run ops s = Inr s' \<and> poller_inv (loop_poller s') \<and>
    registered (chan_ptr s') (loop_poller s') \<and> contents (outputBuffer s') = []"
  using conn_run_ok [OF assms, of ops] by (auto simp: runs_ok_def conn_ok_def chan_ok_def)

theorem connection_safe_witness:
  "\<exists>s'. conn_run [Send True [1, 2, 3], Events POLLOUT invalid, Shutdown False, RunFunctor] demo_conn = Inr s' \<and>
    poller_inv (loop_poller s') \<and> registered (chan_ptr s') (loop_poller s') \<and> contents (outputBuffer s') = []"
  by (rule connection_safe [OF demo_conn_ok])



text \<open>
  C35.  Once a connection waits to write it never sends again, as long as the peer neither hangs up
  nor ends its input: over any sequence of sends, shutdowns, queued functors and such events,
  every \<open>write\<close> the kernel sees is empty, the connection is never shut down, the output buffer
  stays empty and the channel still waits to write; and each further write event, whatever else
  it reports, ends in another empty write (so that \<open>poll\<close> returns at once, every time).
\<close>

theorem waiting_connection_is_stuck:
  assumes "conn_ok s" and "writing s" and "bound s" and "never_eof s" and "list_all quiet ops"
  shows "\<exists>s' calls. conn_run ops s = Inr s' \<and> writing s' \<and> io s' = io s @ calls \<and> list_all silent calls \<and>
    contents (outputBuffer s') = [] \<and>
    (\<forall>r t. quiet (Events r t) \<and> r AND POLLOUT \<noteq> 0 \<longrightarrow>
      (\<exists>c s'' more. get_chan s' = Some c \<and> conn_do (Events r t) s' = Inr s'' \<and> writing s'' \<and>
        contents (outputBuffer s'') = [] \<and> io s'' = io s' @ more @ [WriteCall (fd c) []]))"
proof -
  have "stuck (io s) s" using assms by (simp add: stuck_def)
  from stuck_run [OF this assms(3,5)] obtain s' where s': "conn_run ops s = Inr s'" "stuck (io s) s'" "bound s'"
    by blast
  have "\<exists>c s'' more. get_chan s' = Some c \<and> conn_do (Events r t) s' = Inr s'' \<and> writing s'' \<and>
      contents (outputBuffer s'') = [] \<and> io s'' = io s' @ more @ [WriteCall (fd c) []]"
    if q: "quiet (Events r t)" and w: "r AND POLLOUT \<noteq> 0" for r t
  proof -
    obtain c where c: "get_chan s' = Some c" using s'(3) by (auto simp: bound_def)
    have "bit r 2" using w by (simp add: mask_bits)
    from stuck_write_event [OF s'(2,3) _ this c, of t] q obtain s'' more where
      "conn_event t (upd_chan (set_revents r) s') = Inr s''" "io s'' = io s' @ more @ [WriteCall (fd c) []]" by auto
    moreover from stuck_do [OF s'(2,3) q] this(1) have "stuck (io s) s''" by auto
    then have "writing s''" "contents (outputBuffer s'') = []" by (simp_all add: stuck_def conn_ok_def)
    ultimately show ?thesis using c by auto
  qed
  with s' show ?thesis by (auto simp: stuck_def conn_ok_def)
qed

theorem waiting_connection_is_stuck_witness:
  "\<exists>s s' calls. send True [1, 2, 3] demo_conn = Inr s \<and>
    conn_run [Send True [9], Events POLLOUT invalid, Shutdown True] s = Inr s' \<and> writing s' \<and>
    io s' = io s @ calls \<and> list_all silent calls"
proof -
  have st: "state demo_conn = Some kConnected" by (simp add: demo_conn_def)
  have "bound demo_conn" by (simp add: bound_def demo_chan conn_channel_def)
  let ?s1 = "demo_conn\<lparr>io := io demo_conn @ [WriteCall (fd ((conn_channel 5)\<lparr>index := 0, events := 3\<rparr>)) [1, 2, 3]]\<rparr>"
  have s1: "conn_ok ?s1" "get_chan ?s1 = Some ((conn_channel 5)\<lparr>index := 0, events := 3\<rparr>)"
    using demo_conn_ok demo_chan by (simp_all add: conn_ok_frame)
  have "kwrite demo_conn (io ?s1) < 3" by (simp add: demo_conn_def)
  then have "send True [1, 2, 3] demo_conn = on_poller enableWriting ?s1"
    using st demo_conn_writing by (simp add: send_def state_is_def sendInLoop_run [OF demo_conn_ok demo_chan refl])
  moreover obtain pl where pl: "on_poller enableWriting ?s1 = Inr (?s1\<lparr>loop_poller := pl\<rparr>)"
    "conn_ok (?s1\<lparr>loop_poller := pl\<rparr>)"
    "get_chan (?s1\<lparr>loop_poller := pl\<rparr>) = Some (want_writing ((conn_channel 5)\<lparr>index := 0, events := 3\<rparr>))"
    using setter_on_poller [OF s1 setters(2)] by (auto simp: enableWriting_def)
  moreover have "writing (?s1\<lparr>loop_poller := pl\<rparr>)" using pl(3) by (simp add: writing_def)
  moreover have "bound (?s1\<lparr>loop_poller := pl\<rparr>)"
    using pl(3) by (simp add: bound_def conn_channel_def want_writing_def)
  moreover have "never_eof (?s1\<lparr>loop_poller := pl\<rparr>)" by (simp add: never_eof_def demo_conn_def)
  moreover have "list_all quiet [Send True [9], Events POLLOUT invalid, Shutdown True]"
    by (simp add: on_hangup_def poll_bits)
  ultimately show ?thesis using waiting_connection_is_stuck by metis
qed

text \<open>
  Input reaches the input buffer and nothing else: the bytes that fit are appended in
  order, and no callback, no state and no queued functor changes (\<open>messageCallback_\<close> is never
  called).  At the end of input the channel is taken from the poller's watch and that is all:
  the connection stays \<open>kConnected\<close>, and its owner is not told.
\<close>

theorem handleRead_stops_at_buffer:
  assumes ok: "conn_ok s" and c: "get_chan s = Some c"
    and k: "kread s (io s @ [ReadCall (fd c) (unat (writableBytes (inputBuffer s)) + 65536)]) = ReadvBytes bs"
  shows "\<exists>b pl h. handleRead t s = Inr (s\<lparr>io := h, inputBuffer := b, loop_poller := pl\<rparr>) \<and>
    contents b = contents (inputBuffer s) @ take (unat (writableBytes (inputBuffer s))) bs \<and>
    (if bs = [] then watched pl (fd c) = None else pl = loop_poller s)"
proof -
  from handleRead_run [OF ok c, of t] k obtain b where b: "wf_buffer b"
    "contents b = contents (inputBuffer s) @ take (unat (writableBytes (inputBuffer s))) bs"
    "handleRead t s = (if bs = [] then
        handleClose (s\<lparr>io := io s @ [ReadCall (fd c) (unat (writableBytes (inputBuffer s)) + 65536)], inputBuffer := b\<rparr>)
      else Inr (s\<lparr>io := io s @ [ReadCall (fd c) (unat (writableBytes (inputBuffer s)) + 65536)], inputBuffer := b\<rparr>))"
    by auto
  let ?h = "io s @ [ReadCall (fd c) (unat (writableBytes (inputBuffer s)) + 65536)]"
  let ?s = "s\<lparr>io := ?h, inputBuffer := b\<rparr>"
  have s: "conn_ok ?s" "get_chan ?s = Some c"
    using ok c b(1) by (auto intro!: conn_ok_frame(1,4))
  show ?thesis
  proof (cases "bs = []")
    case True
    from handleClose_run [OF s] obtain pl where "handleClose ?s = Inr (?s\<lparr>loop_poller := pl\<rparr>)"
      "watched pl (fd c) = None" by blast
    with True b(2,3) show ?thesis
      by (intro exI [of _ b] exI [of _ pl] exI [of _ ?h]) simp
  next
    case False
    with b(2,3) show ?thesis
      by (intro exI [of _ b] exI [of _ "loop_poller s"] exI [of _ ?h]) simp
  qed
qed

theorem handleRead_stops_at_buffer_witness:
  "\<exists>b pl h. handleRead invalid (demo_conn\<lparr>kread := \<lambda>h. ReadvBytes []\<rparr>) =
     Inr (demo_conn\<lparr>kread := \<lambda>h. ReadvBytes [], io := h, inputBuffer := b, loop_poller := pl\<rparr>) \<and>
    watched pl 5 = None"
proof -
  let ?s = "demo_conn\<lparr>kread := \<lambda>h. ReadvBytes []\<rparr>"
  have "conn_ok ?s" using demo_conn_ok by (simp add: conn_ok_def chan_ok_def kernel_ok_def)
  moreover have "get_chan ?s = Some ((conn_channel 5)\<lparr>index := 0, events := 3\<rparr>)"
    using demo_chan by (simp add: get_chan_def)
  ultimately obtain b pl h where r:
    "handleRead invalid ?s = Inr (?s\<lparr>io := h, inputBuffer := b, loop_poller := pl\<rparr>)"
    "if ([] :: byte list) = [] then watched pl (fd ((conn_channel 5)\<lparr>index := 0, events := 3\<rparr>)) = None
     else pl = loop_poller ?s"
    using handleRead_stops_at_buffer [of ?s _ "[]" invalid] by fastforce
  then show ?thesis by (intro exI [of _ b] exI [of _ pl] exI [of _ h]) (simp add: conn_channel_def channel_new_def)
qed

definition as_constructed :: "conn_callback channel \<Rightarrow> bool" where
  "as_constructed c \<longleftrightarrow> (let d = conn_channel (fd c) in
     readCallback c = readCallback d \<and> writeCallback c = writeCallback d \<and>
     closeCallback c = closeCallback d \<and> errorCallback c = errorCallback d)"

lemma as_constructed_bound: "get_chan s = Some c \<Longrightarrow> as_constructed c \<Longrightarrow> bound s"
  by (simp add: bound_def as_constructed_def conn_channel_def Let_def)

text \<open>
  C20.  An event on the connection's channel, its callbacks as the constructor binds them, runs
  exactly the handlers its event mask calls for, in this order: \<open>handleClose\<close> for a hang-up without
  input (\<open>POLLHUP\<close>, bit 4, without \<open>POLLIN\<close>, bit 0); \<open>handleError\<close> for \<open>POLLERR\<close> (bit 3) or \<open>POLLNVAL\<close>
  (bit 5); \<open>handleRead\<close> for \<open>POLLIN\<close>, \<open>POLLPRI\<close> (bit 1) or \<open>POLLRDHUP\<close> (bit 13), with the time of the
  poll; and \<open>handleWrite\<close> for \<open>POLLOUT\<close> (bit 2).  \<open>eventHandling_\<close> is set meanwhile.
\<close>

theorem connection_event_dispatch:
  assumes "get_chan s = Some c" and "as_constructed c"
  shows "conn_event t s =
    bindO (if bit (revents c) 4 \<and> \<not> bit (revents c) 0
           then handleClose (upd_chan (eventHandling_update (\<lambda>_. True)) s)
           else Inr (upd_chan (eventHandling_update (\<lambda>_. True)) s)) (\<lambda>s1.
    bindO (if bit (revents c) 3 \<or> bit (revents c) 5 then handleError s1 else Inr s1) (\<lambda>s2.
    bindO (if bit (revents c) 0 \<or> bit (revents c) 1 \<or> bit (revents c) 13
           then handleRead t s2 else Inr s2) (\<lambda>s3.
    bindO (if bit (revents c) 2 then handleWrite s3 else Inr s3) (\<lambda>s4.
      Inr (upd_chan (eventHandling_update (\<lambda>_. False)) s4)))))"
  using assms(1) as_constructed_bound [OF assms] by (rule conn_event_stages)

theorem connection_event_dispatch_witness:
  "conn_event invalid (upd_chan (set_revents (POLLIN OR POLLOUT)) demo_conn) =
    bindO (handleRead invalid (upd_chan (eventHandling_update (\<lambda>_. True))
      (upd_chan (set_revents (POLLIN OR POLLOUT)) demo_conn))) (\<lambda>s1.
    bindO (handleWrite s1) (\<lambda>s2. Inr (upd_chan (eventHandling_update (\<lambda>_. False)) s2)))"
proof -
  let ?c = "set_revents (POLLIN OR POLLOUT) ((conn_channel 5)\<lparr>index := 0, events := 3\<rparr>)"
  have c: "get_chan (upd_chan (set_revents (POLLIN OR POLLOUT)) demo_conn) = Some ?c"
    by (rule own.get_upd [OF demo_chan])
  have "as_constructed ?c" by (simp add: as_constructed_def set_revents_def conn_channel_def Let_def)
  moreover have "revents ?c = 5" by (simp add: set_revents_def poll_bits)
  then have "bit (revents ?c) 4 = False" "bit (revents ?c) 3 = False" "bit (revents ?c) 5 = False"
    "bit (revents ?c) 0 = True" "bit (revents ?c) 2 = True" by simp_all
  ultimately show ?thesis
    using connection_event_dispatch [OF c, of invalid] by (simp only: simp_thms if_False if_True bindO.simps)
qed

end
