(* ===== verification/Acceptors.thy ===== *)
theory Acceptors
  imports Connections
begin

text \<open>
  \<open>Socket.h\<close>, \<open>Socket.cc\<close>: an owned descriptor; \<open>Acceptor.h\<close>, \<open>Acceptor.cc\<close>: the listening
  socket, its channel in the poller of the loop, and the delivery of each accepted connection to
  \<open>newConnectionCallback_\<close>.

  The callback is an argument; an empty \<open>std::function\<close> is \<open>None\<close>.  It works on a state \<open>'s\<close>
  (the server's) and on the logger's environment, in which \<open>errno\<close> lives.  The replies of the
  kernel are arguments, as in the theory of the socket wrappers.
\<close>

section \<open>Socket\<close>

definition Socket_destroy :: "reply \<Rightarrow> log_env \<Rightarrow> log_env outcome" where
  "Socket_destroy close_reply e = sockets_close close_reply e"

definition Socket_bindAddress :: "reply \<Rightarrow> log_env \<Rightarrow> log_env outcome" where
  "Socket_bindAddress bind_reply e = bindOrDie bind_reply e"

definition Socket_listen :: "reply \<Rightarrow> log_env \<Rightarrow> log_env outcome" where
  "Socket_listen listen_reply e = listenOrDie listen_reply e"

text \<open>The results of \<open>setsockopt\<close> are not looked at.\<close>

definition setReuseAddr :: "(int \<Rightarrow> reply) \<Rightarrow> bool \<Rightarrow> log_env \<Rightarrow> log_env" where
  "setReuseAddr setsockopt on e = (let optval = (if on then 1 else 0) in snd (syscall (setsockopt optval) e))"

definition setTcpNoDelay :: "(int \<Rightarrow> reply) \<Rightarrow> bool \<Rightarrow> log_env \<Rightarrow> log_env" where
  "setTcpNoDelay setsockopt on e = (let optval = (if on then 1 else 0) in snd (syscall (setsockopt optval) e))"

definition Socket_shutdownWrite :: "reply \<Rightarrow> log_env \<Rightarrow> log_env outcome" where
  "Socket_shutdownWrite r e = sockets_shutdownWrite r e"

section \<open>Acceptor\<close>

record acceptor =
  acceptSocket :: int
  acceptChannel :: cptr
  listenning :: bool

text \<open>
  The constructor: \<open>p\<close> is the address of the channel member and \<open>cb\<close> the bound \<open>handleRead\<close>.
\<close>

definition Acceptor_new ::
    "fcntl \<Rightarrow> reply \<Rightarrow> (int \<Rightarrow> reply) \<Rightarrow> reply \<Rightarrow> cptr \<Rightarrow> 'cb \<Rightarrow> 'cb poller \<Rightarrow> log_env \<Rightarrow>
     (acceptor \<times> 'cb poller \<times> log_env) outcome" where
  "Acceptor_new fcntl socket_reply setsockopt bind_reply p cb pl e =
     bindO (createNonblockingOrDie fcntl socket_reply e) (\<lambda>(sockfd, e1).
     bindO (Socket_bindAddress bind_reply (setReuseAddr setsockopt True e1)) (\<lambda>e2.
       Inr (\<lparr>acceptSocket = sockfd, acceptChannel = p, listenning = False\<rparr>,
            pl\<lparr>chs := (chs pl)(p \<mapsto> (channel_new sockfd)\<lparr>readCallback := Some cb\<rparr>)\<rparr>, e2)))"

definition Acceptor_listen ::
    "reply \<Rightarrow> acceptor \<Rightarrow> 'cb poller \<Rightarrow> log_env \<Rightarrow> (acceptor \<times> 'cb poller \<times> log_env) outcome" where
  "Acceptor_listen listen_reply a pl e =
     (let a1 = a\<lparr>listenning := True\<rparr> in
      bindO (Socket_listen listen_reply e) (\<lambda>e1.
      bindO (enableReading (acceptChannel a1) pl) (\<lambda>pl1. Inr (a1, pl1, e1))))"

type_synonym 's new_connection = "int \<Rightarrow> sockaddr_in \<Rightarrow> 's \<times> log_env \<Rightarrow> ('s \<times> log_env) outcome"

definition Acceptor_handleRead ::
    "fcntl \<Rightarrow> reply \<Rightarrow> sockaddr_in \<Rightarrow> reply \<Rightarrow> 's new_connection option \<Rightarrow> 's \<Rightarrow> log_env \<Rightarrow>
     ('s \<times> log_env) outcome" where
  "Acceptor_handleRead fcntl accept_reply peer close_reply cb s e =
     bindO (Socket_accept fcntl accept_reply peer (InetAddress_port 0) e) (\<lambda>(connfd, peerAddr, e1).
       if connfd \<ge> 0
       then (case cb of
               Some newConnectionCallback \<Rightarrow> newConnectionCallback connfd peerAddr (s, e1)
             | None \<Rightarrow> bindO (sockets_close close_reply e1) (\<lambda>e2. Inr (s, e2)))
       else Inr (s, e1))"

section \<open>Properties\<close>

text \<open>\<open>fcntl\<close> on an open descriptor changes nothing that the logger looks at but \<open>errno\<close>.\<close>

definition errno_valid :: "reply \<Rightarrow> bool" where
  "errno_valid r = (case r of Ok v \<Rightarrow> True | Err n \<Rightarrow> in_i32 n)"

lemma syscall_logs: "logs_ok e \<Longrightarrow> errno_valid r \<Longrightarrow> logs_ok (snd (syscall r e))"
  by (cases r) (simp_all add: syscall_def errno_valid_def logs_ok_errno)

lemma setNonBlock_logs:
  assumes "logs_ok e" "\<forall>cmd arg. errno_valid (fcntl d cmd arg)"
  shows "logs_ok (setNonBlockAndCloseOnExec fcntl d e)"
proof -
  obtain f1 e1 where 1: "syscall (fcntl d F_GETFL 0) e = (f1, e1)" by fastforce
  obtain f2 e2 where 2: "syscall (fcntl d F_SETFL (f1 OR O_NONBLOCK)) e1 = (f2, e2)" by fastforce
  obtain f3 e3 where 3: "syscall (fcntl d F_GETFD 0) e2 = (f3, e3)" by fastforce
  obtain f4 e4 where 4: "syscall (fcntl d F_SETFD (f3 OR FD_CLOEXEC)) e3 = (f4, e4)" by fastforce
  have "logs_ok e1" using syscall_logs [OF assms(1)] assms(2) 1 by (metis snd_conv)
  then have "logs_ok e2" using syscall_logs assms(2) 2 by (metis snd_conv)
  then have "logs_ok e3" using syscall_logs assms(2) 3 by (metis snd_conv)
  then have "logs_ok e4" using syscall_logs assms(2) 4 by (metis snd_conv)
  with 1 2 3 4 show ?thesis by (simp add: setNonBlockAndCloseOnExec_def Let_def)
qed

text \<open>
  A connection that the kernel accepts is delivered once, with its own descriptor and its
  peer's address: the callback runs with exactly these; where no callback is set the descriptor
  is closed and the server's state is untouched.
\<close>

theorem acceptor_delivers:
  assumes "0 \<le> connfd"
  shows "Acceptor_handleRead fcntl (Ok connfd) peer close_reply cb s e =
    (let e1 = setNonBlockAndCloseOnExec fcntl connfd e in
     case cb of Some f \<Rightarrow> f connfd peer (s, e1)
     | None \<Rightarrow> bindO (sockets_close close_reply e1) (\<lambda>e2. Inr (s, e2)))"
  using assms
  by (simp add: Acceptor_handleRead_def Socket_accept_def sockets_accept_def syscall_def Let_def)

theorem acceptor_delivers_witness:
  "Acceptor_handleRead demo_fcntl (Ok 7) zero_sockaddr (Ok 0)
     (Some (\<lambda>connfd peer (s, e). Inr (connfd # s, e))) [] demo_env = Inr ([7], demo_env)"
proof -
  have "setNonBlockAndCloseOnExec demo_fcntl 7 demo_env = demo_env"
    by (simp add: setNonBlockAndCloseOnExec_def demo_fcntl_def syscall_def Let_def)
  then show ?thesis
    unfolding acceptor_delivers [of 7, simplified] by (simp add: Let_def)
qed

text \<open>
  A server that cannot get a socket, bind its address or listen does not start: the process
  ends with a fatal message.
\<close>

theorem setup_failure_aborts:
  assumes e: "logs_ok e" and err: "in_i32 err" and "0 \<le> sockfd"
    and "\<forall>cmd arg. errno_valid (fcntl sockfd cmd arg)" and "errno_valid (setsockopt 1)"
  shows "Acceptor_new fcntl (Err err) setsockopt bind_reply p cb pl e = Inl Abort \<and>
    Acceptor_new fcntl (Ok sockfd) setsockopt (Err err) p cb pl e = Inl Abort \<and>
    Acceptor_listen (Err err) a pl e = Inl Abort"
proof (intro conjI)
  have die: "log_or_die (LOG_SYSFATAL SocketsOps_cc l [Chars m] (e'\<lparr>errno := err\<rparr>)) = Inl Abort"
    if "logs_ok e'" "in_i32 l" "length m < 2 ^ 31" for l m e'
    using that err by (intro LOG_SYSFATAL_aborts logs_ok_errno) simp_all
  show "Acceptor_new fcntl (Err err) setsockopt bind_reply p cb pl e = Inl Abort"
    using die [OF e, of 42 "''sockets::createNonblockingOrDie''"]
    by (simp add: Acceptor_new_def createNonblockingOrDie_def syscall_def in_i32_def)
  show "Acceptor_listen (Err err) a pl e = Inl Abort"
    using die [OF e, of 67 "''sockets::listenOrDie''"]
    by (simp add: Acceptor_listen_def Socket_listen_def listenOrDie_def syscall_def in_i32_def)
  let ?e = "setReuseAddr setsockopt True (setNonBlockAndCloseOnExec fcntl sockfd e)"
  have "logs_ok ?e"
    using assms(4,5) setNonBlock_logs [OF e] by (simp add: setReuseAddr_def syscall_logs)
  from die [OF this, of 58 "''sockets::bindOrDie''"] assms(3)
  show "Acceptor_new fcntl (Ok sockfd) setsockopt (Err err) p cb pl e = Inl Abort"
    by (simp add: Acceptor_new_def createNonblockingOrDie_def Socket_bindAddress_def bindOrDie_def
        syscall_def in_i32_def)
qed

theorem setup_failure_aborts_witness:
  "Acceptor_new demo_fcntl (Ok 5) (\<lambda>_. Ok 0) (Err 98) 1 ReadCb (poller_new Map.empty) demo_env = Inl Abort"
proof -
  have "in_i32 98" "\<forall>cmd arg. errno_valid (demo_fcntl 5 cmd arg)" "errno_valid (Ok 0)"
    by (simp_all add: in_i32_def errno_valid_def demo_fcntl_def)
  then show ?thesis
    using setup_failure_aborts [where e = demo_env and err = 98 and sockfd = 5 and fcntl = demo_fcntl
        and setsockopt = "\<lambda>_. Ok 0" and p = 1 and cb = ReadCb and pl = "poller_new Map.empty"] demo_logs_ok
    by simp
qed

text \<open>
  After \<open>listen\<close> the kernel watches the listening socket for reading, in the channel's own
  entry, and the tables of the poller stay consistent; \<open>listenning\<close> is set.  The other channels
  of the loop are watched as before.
\<close>

theorem acceptor_listens:
  assumes new: "Acceptor_new fcntl (Ok sockfd) setsockopt (Ok r) p cb pl e = Inr (a, pl1, e1)"
    and "0 \<le> sockfd" and "0 \<le> r" and inv: "poller_inv pl" and free: "channels pl sockfd = None"
    and heap: "chs pl p = None" and room: "length (pollfds pl) + 1 < 2 ^ 30"
  shows "\<exists>a' pl2. Acceptor_listen (Ok r) a pl1 e1 = Inr (a', pl2, e1) \<and> listenning a' \<and>
    poller_inv pl2 \<and> watched pl2 sockfd = Some (ucast kReadEvent) \<and>
    (\<forall>g. g \<noteq> sockfd \<longrightarrow> watched pl2 g = watched pl g)"
proof -
  let ?c = "(channel_new sockfd)\<lparr>readCallback := Some cb\<rparr>"
  have a: "acceptChannel a = p" and pl1: "pl1 = pl\<lparr>chs := (chs pl)(p \<mapsto> ?c)\<rparr>"
    using new by (auto simp: Acceptor_new_def createNonblockingOrDie_def syscall_def outcome_simps Let_def
        split: if_splits)
  have "chs pl1 p = Some ?c" "fd ?c = sockfd" by (simp_all add: pl1 channel_new_def)
  have inv1: "poller_inv pl1"
    unfolding pl1 by (rule new_channel_inv [OF inv heap]) (use assms(2) in \<open>simp add: channel_new_def\<close>)
  have c: "chs pl1 p = Some ?c" "channels pl1 (fd ?c) = None" "index ?c < 0"
    using free by (simp_all add: pl1 channel_new_def)
  from update_new_inv [OF inv1 c setters(1)] room obtain pl2 where pl2:
    "set_and_update want_reading p pl1 = Inr pl2" "poller_inv pl2"
    "pollfds pl2 = pollfds pl1 @ [\<lparr>pfd_fd = fd ?c, pfd_events = ucast (events (want_reading ?c)), pfd_revents = 0\<rparr>]"
    by (auto simp: pl1)
  have "watched pl2 = (watched pl1)(sockfd \<mapsto> ucast kReadEvent)"
    using watched_new_entry [OF inv1 c(1,2) pl2(3)] by (simp add: want_reading_def channel_new_def)
  moreover have "watched pl1 = watched pl" by (simp add: watched_def pl1 fun_eq_iff)
  ultimately show ?thesis
    using pl2(1,2) assms(3)
    by (simp add: Acceptor_listen_def Socket_listen_def listenOrDie_def syscall_def Let_def a enableReading_def)
qed

theorem acceptor_listens_witness:
  "\<exists>a pl1 a' pl2. Acceptor_new demo_fcntl (Ok 5) (\<lambda>_. Ok 0) (Ok 0) 1 ReadCb (poller_new Map.empty) demo_env =
       Inr (a, pl1, demo_env) \<and>
     Acceptor_listen (Ok 0) a pl1 demo_env = Inr (a', pl2, demo_env) \<and> watched pl2 5 = Some 3"
proof -
  let ?pl = "poller_new Map.empty :: conn_callback poller"
  have inv: "poller_inv ?pl" by (simp add: poller_inv_def poller_new_def)
  have e: "setNonBlockAndCloseOnExec demo_fcntl 5 demo_env = demo_env"
    by (simp add: setNonBlockAndCloseOnExec_def demo_fcntl_def syscall_def Let_def)
  obtain a pl1 where new: "Acceptor_new demo_fcntl (Ok 5) (\<lambda>_. Ok 0) (Ok 0) 1 ReadCb ?pl demo_env =
      Inr (a, pl1, demo_env)"
    by (simp add: Acceptor_new_def createNonblockingOrDie_def syscall_def e Socket_bindAddress_def
        bindOrDie_def setReuseAddr_def)
  from acceptor_listens [OF new _ _ inv] obtain a' pl2 where
    "Acceptor_listen (Ok 0) a pl1 demo_env = Inr (a', pl2, demo_env)" "watched pl2 5 = Some (ucast kReadEvent)"
    by (auto simp: poller_new_def)
  moreover have "ucast kReadEvent = (3 :: 16 word)" by (simp add: event_masks poll_bits)
  ultimately show ?thesis using new by auto
qed

end
