(* ===== verification/EventLoop.thy ===== *)
theory EventLoop
  imports Prelude
begin

text \<open>
  \<open>EventLoop.h\<close>, \<open>EventLoop.cc\<close>: one event loop and the threads around it.  The loop's own
  thread is a sequential program, of which \<open>pc\<close> is the position; all other threads use the loop
  through \<open>queueInLoop\<close>, \<open>runInLoop\<close> and \<open>quit\<close>, and what matters of them is how many are
  between their change of the shared fields and the \<open>wakeup()\<close> that follows it (\<open>wakers\<close>).
  The steps are those of the code: a critical section of the mutex, an access to \<open>quit_\<close>, a
  system call on the wakeup descriptor.  Accesses to \<open>quitFlag\<close> are taken to be atomic.

  User code runs in the loop's thread inside channel handlers and functors.  What a functor
  does with its loop is a parameter \<open>body\<close>: the calls it makes, in order.  The kernel decides
  when \<open>poll\<close> returns and which channels it reports; it reports the wakeup descriptor exactly
  when its counter is not zero.

  The fields \<open>queued\<close>, \<open>ran\<close> and \<open>early\<close> record the past: every functor put into the queue,
  every functor that \<open>doPendingFunctors\<close> called, and how many of the functors that wait now
  the loop's thread itself queued before it entered \<open>loop()\<close>.
\<close>

section \<open>State\<close>

datatype 'f call = QueueInLoop 'f | RunInLoop 'f | Quit

datatype 'f active = WakeupChannel | UserChannel "'f call list"

datatype 'f pc =
    BeforeLoop
  | AtWhile
  | AtPoll
  | Handling "'f active list"
  | Swapping
  | Calling "'f list"
  | AfterLoop

record 'f loop =
  looping :: bool
  quitFlag :: bool
  callingPendingFunctors :: bool
  pendingFunctors :: "'f list"
  wakeupCount :: nat
  pc :: "'f pc"
  todo :: "'f call list"
  wakers :: nat
  queued :: "'f list"
  ran :: "'f list"
  early :: nat

section \<open>Operations\<close>

definition EventLoop_new :: "'f loop" where
  "EventLoop_new =
     \<lparr>looping = False, quitFlag = False, callingPendingFunctors = False, pendingFunctors = [],
      wakeupCount = 0, pc = BeforeLoop, todo = [], wakers = 0, queued = [], ran = [], early = 0\<rparr>"

text \<open>
  An \<open>eventfd\<close> counts up to \<open>2 ^ 64 - 2\<close>; a non-blocking write that would pass the limit fails,
  and the result is not looked at.
\<close>

definition wakeup :: "'f loop \<Rightarrow> 'f loop" where
  "wakeup s = s\<lparr>wakeupCount := min (2 ^ 64 - 2) (wakeupCount s + 1)\<rparr>"

definition handleRead :: "'f loop \<Rightarrow> 'f loop" where
  "handleRead s = s\<lparr>wakeupCount := 0\<rparr>"

definition push_back :: "'f \<Rightarrow> 'f loop \<Rightarrow> 'f loop" where
  "push_back f s = s\<lparr>pendingFunctors := pendingFunctors s @ [f], queued := queued s @ [f]\<rparr>"

text \<open>\<open>queueInLoop\<close> in the loop's own thread; from another thread the wakeup is a later step.\<close>

definition queueInLoop :: "'f \<Rightarrow> 'f loop \<Rightarrow> 'f loop" where
  "queueInLoop f s =
     (let s1 = push_back f s in if callingPendingFunctors s1 then wakeup s1 else s1)"

definition queueInLoop_remote :: "'f \<Rightarrow> 'f loop \<Rightarrow> 'f loop" where
  "queueInLoop_remote f s = (push_back f s)\<lparr>wakers := Suc (wakers s)\<rparr>"

definition quit :: "'f loop \<Rightarrow> 'f loop" where
  "quit s = s\<lparr>quitFlag := True\<rparr>"

definition quit_remote :: "'f loop \<Rightarrow> 'f loop" where
  "quit_remote s = s\<lparr>quitFlag := True, wakers := Suc (wakers s)\<rparr>"

text \<open>A call that user code makes in the loop's thread; \<open>runInLoop\<close> runs the functor in place.\<close>

fun do_call :: "('f \<Rightarrow> 'f call list) \<Rightarrow> 'f call \<Rightarrow> 'f loop \<Rightarrow> 'f loop" where
  "do_call body (QueueInLoop f) s = queueInLoop f s"
| "do_call body (RunInLoop f) s = s\<lparr>todo := body f @ todo s\<rparr>"
| "do_call body Quit s = quit s"

text \<open>The two halves of \<open>doPendingFunctors\<close> around the calls of the functors.\<close>

definition doPendingFunctors_swap :: "'f loop \<Rightarrow> 'f loop" where
  "doPendingFunctors_swap s =
     s\<lparr>callingPendingFunctors := True, pendingFunctors := [], pc := Calling (pendingFunctors s), early := 0\<rparr>"

definition doPendingFunctors_end :: "'f loop \<Rightarrow> 'f loop" where
  "doPendingFunctors_end s = s\<lparr>callingPendingFunctors := False, pc := AtWhile\<rparr>"

definition enter_loop :: "'f loop \<Rightarrow> 'f loop" where
  "enter_loop s = s\<lparr>looping := True, quitFlag := False, pc := AtWhile\<rparr>"

definition check_while :: "'f loop \<Rightarrow> 'f loop" where
  "check_while s =
     (if quitFlag s then s\<lparr>pc := AfterLoop, looping := False\<rparr> else s\<lparr>pc := AtPoll\<rparr>)"

text \<open>What \<open>poll\<close> may report.\<close>

definition poll_reports :: "'f active list \<Rightarrow> 'f loop \<Rightarrow> bool" where
  "poll_reports as s \<longleftrightarrow> (WakeupChannel \<in> set as \<longleftrightarrow> 0 < wakeupCount s)"

definition run_active :: "'f active \<Rightarrow> 'f loop \<Rightarrow> 'f loop" where
  "run_active a s =
     (case a of WakeupChannel \<Rightarrow> handleRead s | UserChannel cs \<Rightarrow> s\<lparr>todo := cs\<rparr>)"

section \<open>Steps\<close>

datatype 'f label = LoopThread | RemoteQueue 'f | RemoteQuit | RemoteWakeup | EarlyQueue 'f | EarlyQuit

inductive loop_step :: "('f \<Rightarrow> 'f call list) \<Rightarrow> 'f label \<Rightarrow> 'f loop \<Rightarrow> 'f loop \<Rightarrow> bool"
  for body :: "'f \<Rightarrow> 'f call list" where
  enter: "pc s = BeforeLoop \<Longrightarrow> loop_step body LoopThread s (enter_loop s)"
| check: "pc s = AtWhile \<Longrightarrow> loop_step body LoopThread s (check_while s)"
| poll: "pc s = AtPoll \<Longrightarrow> poll_reports as s \<Longrightarrow> loop_step body LoopThread s (s\<lparr>pc := Handling as\<rparr>)"
| call: "todo s = c # cs \<Longrightarrow> loop_step body LoopThread s (do_call body c (s\<lparr>todo := cs\<rparr>))"
| handle: "pc s = Handling (a # as) \<Longrightarrow> todo s = [] \<Longrightarrow>
    loop_step body LoopThread s (run_active a (s\<lparr>pc := Handling as\<rparr>))"
| handled: "pc s = Handling [] \<Longrightarrow> todo s = [] \<Longrightarrow> loop_step body LoopThread s (s\<lparr>pc := Swapping\<rparr>)"
| swap: "pc s = Swapping \<Longrightarrow> loop_step body LoopThread s (doPendingFunctors_swap s)"
| run_one: "pc s = Calling (f # fs) \<Longrightarrow> todo s = [] \<Longrightarrow>
    loop_step body LoopThread s (s\<lparr>pc := Calling fs, todo := body f, ran := ran s @ [f]\<rparr>)"
| finish: "pc s = Calling [] \<Longrightarrow> todo s = [] \<Longrightarrow> loop_step body LoopThread s (doPendingFunctors_end s)"
| remote_queue: "loop_step body (RemoteQueue f) s (queueInLoop_remote f s)"
| remote_quit: "loop_step body RemoteQuit s (quit_remote s)"
| remote_wakeup: "0 < wakers s \<Longrightarrow> loop_step body RemoteWakeup s (wakeup (s\<lparr>wakers := wakers s - 1\<rparr>))"
| early_queue: "pc s = BeforeLoop \<Longrightarrow>
    loop_step body (EarlyQueue f) s ((queueInLoop f s)\<lparr>early := Suc (early s)\<rparr>)"
| early_quit: "pc s = BeforeLoop \<Longrightarrow> loop_step body EarlyQuit s (quit s)"

inductive_cases loop_thread_step: "loop_step body LoopThread s t"

lemmas loop_ops = wakeup_def handleRead_def push_back_def queueInLoop_def queueInLoop_remote_def quit_def
  quit_remote_def doPendingFunctors_swap_def doPendingFunctors_end_def enter_loop_def check_while_def
  run_active_def EventLoop_new_def

definition any_step :: "('f \<Rightarrow> 'f call list) \<Rightarrow> 'f loop \<Rightarrow> 'f loop \<Rightarrow> bool" where
  "any_step body s t \<longleftrightarrow> (\<exists>l. loop_step body l s t)"

definition fresh :: "'f loop \<Rightarrow> bool" where
  "fresh s \<longleftrightarrow> s = EventLoop_new"

section \<open>The invariant\<close>

fun being_called :: "'f pc \<Rightarrow> 'f list" where
  "being_called (Calling fs) = fs"
| "being_called _ = []"

fun in_handlers :: "'f pc \<Rightarrow> bool" where
  "in_handlers (Handling as) = True"
| "in_handlers Swapping = True"
| "in_handlers _ = False"

fun is_calling :: "'f pc \<Rightarrow> bool" where
  "is_calling (Calling fs) = True"
| "is_calling _ = False"

definition awake :: "'f loop \<Rightarrow> bool" where
  "awake s \<longleftrightarrow> 0 < wakeupCount s \<or> 0 < wakers s"

text \<open>
  A functor in the queue has a wakeup on its way, unless the loop's thread is still on its way
  to \<open>doPendingFunctors\<close>; a wakeup that the handlers consume is followed by the swap.
\<close>

definition loop_inv :: "'f loop \<Rightarrow> bool" where
  "loop_inv s \<longleftrightarrow>
     queued s = ran s @ being_called (pc s) @ pendingFunctors s \<and>
     (callingPendingFunctors s \<longleftrightarrow> is_calling (pc s)) \<and>
     (todo s \<noteq> [] \<longrightarrow> in_handlers (pc s) \<or> is_calling (pc s)) \<and> (pc s = Swapping \<longrightarrow> todo s = []) \<and>
     (early s < length (pendingFunctors s) \<and> \<not> in_handlers (pc s) \<longrightarrow> awake s) \<and>
     (pc s = AtPoll \<and> quitFlag s \<longrightarrow> awake s)"

lemma loop_inv_init: "fresh s \<Longrightarrow> loop_inv s"
  by (simp add: fresh_def loop_inv_def EventLoop_new_def)

lemma do_call_inv: "loop_inv s \<Longrightarrow> todo s = c # cs \<Longrightarrow> loop_inv (do_call body c (s\<lparr>todo := cs\<rparr>))"
  by (cases c; cases "pc s") (auto simp: loop_inv_def loop_ops awake_def Let_def)

lemma loop_step_inv: "loop_step body l s t \<Longrightarrow> loop_inv s \<Longrightarrow> loop_inv t"
proof (induction rule: loop_step.induct)
  case (call s c cs)
  then show ?case by (simp add: do_call_inv)
next
  case (handle s a as)
  then show ?case by (cases a) (auto simp: loop_inv_def loop_ops)
next
  case (remote_wakeup s)
  then show ?case by (cases "pc s") (auto simp: loop_inv_def loop_ops awake_def)
qed (auto simp: loop_inv_def loop_ops awake_def Let_def)

section \<open>The abstract queue\<close>

text \<open>What the loop promises of functors: a first-in first-out queue and the calls it led to.\<close>

inductive queue_step :: "'f list \<times> 'f list \<Rightarrow> 'f list \<times> 'f list \<Rightarrow> bool" where
  enqueue: "queue_step (q, out) (q @ [f], out)"
| dequeue: "queue_step (f # q, out) (q, out @ [f])"

definition queue_of :: "'f loop \<Rightarrow> 'f list \<times> 'f list" where
  "queue_of s = (being_called (pc s) @ pendingFunctors s, ran s)"

lemma enqueue_once:
  "pendingFunctors t = pendingFunctors s @ [f] \<Longrightarrow> pc t = pc s \<Longrightarrow> ran t = ran s \<Longrightarrow>
   queue_step (queue_of s) (queue_of t)"
  using enqueue [of "being_called (pc s) @ pendingFunctors s" "ran s" f] by (simp add: queue_of_def)

lemma loop_step_queue:
  "loop_step body l s t \<Longrightarrow> loop_inv s \<Longrightarrow> queue_of t = queue_of s \<or> queue_step (queue_of s) (queue_of t)"
proof (induction rule: loop_step.induct)
  case (call s c cs)
  show ?case
  proof (cases c)
    case (QueueInLoop f)
    then have "queue_step (queue_of s) (queue_of (do_call body c (s\<lparr>todo := cs\<rparr>)))"
      by (intro enqueue_once) (simp_all add: loop_ops Let_def)
    then show ?thesis ..
  qed (simp_all add: queue_of_def loop_ops)
next
  case (handle s a as)
  then show ?case by (cases a) (simp_all add: queue_of_def loop_ops)
next
  case (run_one s f fs)
  then show ?case using dequeue [of f "fs @ pendingFunctors s" "ran s"] by (simp add: queue_of_def)
next
  case (remote_queue f s)
  have "queue_step (queue_of s) (queue_of (queueInLoop_remote f s))"
    by (rule enqueue_once) (simp_all add: loop_ops)
  then show ?case ..
next
  case (early_queue s f)
  have "queue_step (queue_of s) (queue_of ((queueInLoop f s)\<lparr>early := Suc (early s)\<rparr>))"
    by (rule enqueue_once) (simp_all add: loop_ops Let_def)
  then show ?case ..
qed (simp_all add: queue_of_def loop_ops)

interpretation loopm: refinement fresh "any_step body" loop_inv "\<lambda>q. q = ([], [])" queue_step queue_of
  for body :: "'f \<Rightarrow> 'f call list"
proof
  show "any_step body s t \<Longrightarrow> loop_inv s \<Longrightarrow> loop_inv t" for s t
    unfolding any_step_def using loop_step_inv by blast
  show "fresh s \<Longrightarrow> queue_of s = ([], [])" for s :: "'f loop"
    by (simp add: fresh_def queue_of_def EventLoop_new_def)
  show "loop_inv s \<Longrightarrow> any_step body s t \<Longrightarrow> queue_step\<^sup>*\<^sup>* (queue_of s) (queue_of t)" for s t
    unfolding any_step_def using loop_step_queue by (metis r_into_rtranclp rtranclp.rtrancl_refl)
qed (rule loop_inv_init)

section \<open>One round of pending functors\<close>

text \<open>
  A run of the loop among its other threads, with the number of steps of the loop's own thread.
\<close>

inductive loop_run :: "('f \<Rightarrow> 'f call list) \<Rightarrow> nat \<Rightarrow> 'f loop \<Rightarrow> 'f loop \<Rightarrow> bool"
  for body :: "'f \<Rightarrow> 'f call list" where
  start: "loop_run body 0 s s"
| own: "loop_run body n s t \<Longrightarrow> loop_step body LoopThread t u \<Longrightarrow> loop_run body (Suc n) s u"
| other: "loop_run body n s t \<Longrightarrow> loop_step body l t u \<Longrightarrow> l \<noteq> LoopThread \<Longrightarrow> loop_run body n s u"

text \<open>
  The number of steps that a list of calls takes, where it is finite: a functor that
  \<open>runInLoop\<close> runs in place takes its own calls along.
\<close>

inductive costs :: "('f \<Rightarrow> 'f call list) \<Rightarrow> 'f call list \<Rightarrow> nat \<Rightarrow> bool"
  for body :: "'f \<Rightarrow> 'f call list" where
  cost_none: "costs body [] 0"
| cost_queue: "costs body cs n \<Longrightarrow> costs body (QueueInLoop f # cs) (Suc n)"
| cost_quit: "costs body cs n \<Longrightarrow> costs body (Quit # cs) (Suc n)"
| cost_run: "costs body (body f @ cs) n \<Longrightarrow> costs body (RunInLoop f # cs) (Suc n)"

inductive_cases costs_NilE: "costs body [] n"
inductive_cases costs_ConsE: "costs body (c # cs) n"

text \<open>The steps that are left of a round: the calls at hand, the functors to call, the end.\<close>

inductive steps_left :: "('f \<Rightarrow> 'f call list) \<Rightarrow> 'f list \<Rightarrow> 'f call list \<Rightarrow> nat \<Rightarrow> bool"
  for body :: "'f \<Rightarrow> 'f call list" where
  last: "costs body cs n \<Longrightarrow> steps_left body [] cs (Suc n)"
| more: "costs body cs n \<Longrightarrow> steps_left body fs (body f) m \<Longrightarrow> steps_left body (f # fs) cs (Suc (n + m))"

inductive_cases steps_left_NilE: "steps_left body [] cs n"
inductive_cases steps_left_ConsE: "steps_left body (f # fs) cs n"

lemma steps_left_exist:
  "costs body cs n \<Longrightarrow> \<forall>f \<in> set fs. \<exists>n. costs body (body f) n \<Longrightarrow> \<exists>m. steps_left body fs cs m"
proof (induction fs arbitrary: cs n)
  case (Cons f fs)
  then obtain k where "costs body (body f) k" by auto
  with Cons.IH [of "body f" k] Cons.prems(2) obtain m where "steps_left body fs (body f) m" by auto
  with Cons.prems(1) show ?case by (blast intro: more)
qed (blast intro: last)

text \<open>A state in the middle of the round that is to call \<open>all\<close>, with \<open>n\<close> steps left.\<close>

definition in_round :: "('f \<Rightarrow> 'f call list) \<Rightarrow> 'f list \<Rightarrow> 'f list \<Rightarrow> nat \<Rightarrow> 'f loop \<Rightarrow> bool" where
  "in_round body past all n s \<longleftrightarrow>
     (\<exists>fs. pc s = Calling fs \<and> steps_left body fs (todo s) n \<and> ran s @ fs = past @ all) \<and>
     queued s = past @ all @ pendingFunctors s"

definition round_done :: "'f list \<Rightarrow> 'f list \<Rightarrow> 'f loop \<Rightarrow> bool" where
  "round_done past all s \<longleftrightarrow> pc s = AtWhile \<and> ran s = past @ all \<and> \<not> callingPendingFunctors s \<and>
     queued s = past @ all @ pendingFunctors s"

lemma in_round_call:
  assumes "in_round body past all n s" and "todo s = c # cs"
  shows "\<exists>m. n = Suc m \<and> 0 < m \<and> in_round body past all m (do_call body c (s\<lparr>todo := cs\<rparr>))"
proof -
  from assms obtain fs where fs: "pc s = Calling fs" "steps_left body fs (c # cs) n"
    "ran s @ fs = past @ all" "queued s = past @ all @ pendingFunctors s" by (auto simp: in_round_def)
  let ?t = "do_call body c (s\<lparr>todo := cs\<rparr>)"
  have t: "pc ?t = Calling fs" "ran ?t @ fs = past @ all" "queued ?t = past @ all @ pendingFunctors ?t"
    using fs by (cases c; simp add: loop_ops Let_def)+
  have less: "\<exists>k'. k = Suc k' \<and> costs body (todo ?t) k'" if "costs body (c # cs) k" for k
    using that by (cases rule: costs_ConsE) (auto simp: loop_ops Let_def)
  have "\<exists>m. n = Suc m \<and> 0 < m \<and> steps_left body fs (todo ?t) m"
  proof (cases fs)
    case Nil
    then obtain k where k: "n = Suc k" "costs body (c # cs) k" using fs(2) by (auto elim: steps_left_NilE)
    from less [OF k(2)] obtain k' where "k = Suc k'" "costs body (todo ?t) k'" by blast
    with k Nil show ?thesis by (blast intro: last)
  next
    case (Cons f gs)
    then obtain k m where k: "n = Suc (k + m)" "costs body (c # cs) k" "steps_left body gs (body f) m"
      using fs(2) by (auto elim: steps_left_ConsE)
    from less [OF k(2)] obtain k' where k': "k = Suc k'" "costs body (todo ?t) k'" by blast
    have "steps_left body (f # gs) (todo ?t) (Suc (k' + m))" using k'(2) k(3) by (rule more)
    with k(1) k'(1) Cons show ?thesis by auto
  qed
  with t show ?thesis unfolding in_round_def by blast
qed

lemma in_round_run_one:
  assumes "in_round body past all n s" and "pc s = Calling (f # fs)" and "todo s = []"
  shows "\<exists>m. n = Suc m \<and> 0 < m \<and>
    in_round body past all m (s\<lparr>pc := Calling fs, todo := body f, ran := ran s @ [f]\<rparr>)"
proof -
  have left: "steps_left body (f # fs) [] n" "ran s @ f # fs = past @ all"
    "queued s = past @ all @ pendingFunctors s" using assms by (auto simp: in_round_def)
  from left(1) obtain k m where m: "n = Suc (k + m)" "costs body [] k" "steps_left body fs (body f) m"
    by (rule steps_left_ConsE)
  from m(2) have "k = 0" by (rule costs_NilE)
  moreover have "0 < m" using m(3) by cases auto
  ultimately show ?thesis using m left(2,3) by (auto simp: in_round_def)
qed

lemma in_round_finish:
  assumes "in_round body past all n s" and "pc s = Calling []" and "todo s = []"
  shows "n = Suc 0 \<and> round_done past all (doPendingFunctors_end s)"
proof -
  have "steps_left body [] [] n" using assms by (auto simp: in_round_def)
  then have "n = Suc 0" by (auto elim!: steps_left_NilE costs_NilE)
  with assms show ?thesis by (auto simp: in_round_def round_done_def loop_ops)
qed

lemma in_round_own:
  assumes "loop_step body LoopThread s t" and "in_round body past all n s"
  shows "\<exists>m. n = Suc m \<and> (if m = 0 then round_done past all t else in_round body past all m t)"
proof -
  from assms(2) obtain fs where pc: "pc s = Calling fs" by (auto simp: in_round_def)
  from assms(1) show ?thesis
  proof (cases rule: loop_step.cases)
    case (call c cs)
    then show ?thesis using in_round_call [OF assms(2), of c cs] by auto
  next
    case (run_one f fs)
    then show ?thesis using in_round_run_one [OF assms(2), of f fs] by auto
  next
    case finish
    then show ?thesis using in_round_finish [OF assms(2)] by auto
  qed (simp_all add: pc)
qed

lemma in_round_other:
  "loop_step body l s t \<Longrightarrow> l \<noteq> LoopThread \<Longrightarrow> in_round body past all n s \<Longrightarrow> in_round body past all n t"
  by (induction rule: loop_step.induct) (auto simp: in_round_def loop_ops)

lemma round_done_other:
  "loop_step body l s t \<Longrightarrow> l \<noteq> LoopThread \<Longrightarrow> round_done past all s \<Longrightarrow> round_done past all t"
  by (induction rule: loop_step.induct) (auto simp: round_done_def loop_ops)

lemma in_round_run:
  "loop_run body k s t \<Longrightarrow> in_round body past all n s \<Longrightarrow> 0 < n \<Longrightarrow> k \<le> n \<Longrightarrow>
   (if k = n then round_done past all t else in_round body past all (n - k) t)"
proof (induction rule: loop_run.induct)
  case (own k s t u)
  then have "in_round body past all (n - k) t" by (simp split: if_splits)
  from in_round_own [OF own.hyps(2) this] obtain m where
    m: "n - k = Suc m" "if m = 0 then round_done past all u else in_round body past all m u" by blast
  from m(1) have "m = n - Suc k" and "m = 0 \<longleftrightarrow> Suc k = n" using own.prems by auto
  with m(2) show ?case by (simp split: if_splits)
next
  case (other k s t l u)
  then show ?case using in_round_other [OF other.hyps(2,3)] round_done_other [OF other.hyps(2,3)]
    by (auto split: if_splits)
qed auto

lemma in_round_step:
  assumes "in_round body past all n s"
  shows "\<exists>t. loop_step body LoopThread s t"
proof -
  from assms obtain fs where pc: "pc s = Calling fs" by (auto simp: in_round_def)
  show ?thesis
  proof (cases "todo s")
    case (Cons c cs)
    then show ?thesis by (blast intro: call)
  next
    case Nil
    with pc show ?thesis by (cases fs) (blast intro: run_one finish)+
  qed
qed

section \<open>Properties\<close>

text \<open>
  C3.  The queue of functors refines a first-in first-out queue: in every reachable state, with
  any interleaving of threads, what has been queued is what has been called, then what
  \<open>doPendingFunctors\<close> is about to call, then what waits; so every functor is called at most
  once and in the order of queueing.
\<close>

theorem functors_refine_queue:
  assumes "reach fresh (any_step body) s"
  shows "reach (\<lambda>q. q = ([], [])) queue_step (queue_of s) \<and>
    queued s = ran s @ being_called (pc s) @ pendingFunctors s"
  using loopm.abs_reach [OF assms] loopm.inv_reach [OF assms] by (simp add: loop_inv_def)

theorem functors_refine_queue_witness:
  "queued (queueInLoop_remote (7 :: nat) EventLoop_new) = [7]"
proof -
  have "reach fresh (any_step (\<lambda>_. [])) (queueInLoop_remote (7 :: nat) EventLoop_new)"
    by (rule reach_step [OF reach_init]) (auto simp: fresh_def any_step_def intro: remote_queue)
  from functors_refine_queue [OF this] show ?thesis by (simp add: loop_ops)
qed

text \<open>
  C12.  No wakeup is lost: whenever the loop is about to block in \<open>poll\<close> while \<open>quit\<close> has been
  called, or while more functors wait than those that the loop's own thread queued before it
  entered \<open>loop()\<close>, the wakeup descriptor is readable or another thread is about to make it so.
  Those early functors, which \<open>queueInLoop\<close> gives no wakeup, are the exception, and only until
  the first round of \<open>doPendingFunctors\<close>.
\<close>

theorem no_lost_wakeup:
  assumes "reach fresh (any_step body) s" and "pc s = AtPoll"
    and "early s < length (pendingFunctors s) \<or> quitFlag s"
  shows "0 < wakeupCount s \<or> 0 < wakers s"
  using loopm.inv_reach [OF assms(1)] assms(2,3) by (auto simp: loop_inv_def awake_def)

theorem no_lost_wakeup_witness:
  "0 < wakers (queueInLoop_remote (7 :: nat) (check_while (enter_loop EventLoop_new)))"
proof -
  let ?s = "queueInLoop_remote (7 :: nat) (check_while (enter_loop EventLoop_new))"
  have "any_step (\<lambda>_. []) EventLoop_new (enter_loop (EventLoop_new :: nat loop))"
    unfolding any_step_def by (rule exI, rule enter) (simp add: EventLoop_new_def)
  moreover have "any_step (\<lambda>_. []) (enter_loop (EventLoop_new :: nat loop)) (check_while (enter_loop EventLoop_new))"
    unfolding any_step_def by (rule exI, rule check) (simp add: enter_loop_def)
  moreover have "any_step (\<lambda>_. []) (check_while (enter_loop EventLoop_new)) ?s"
    unfolding any_step_def by (rule exI, rule remote_queue)
  moreover have "reach fresh (any_step (\<lambda>_. [])) (EventLoop_new :: nat loop)"
    by (rule reach_init) (simp add: fresh_def)
  ultimately have "reach fresh (any_step (\<lambda>_. [])) ?s" by (blast intro: reach_step)
  from no_lost_wakeup [OF this] show ?thesis by (simp add: loop_ops)
qed

text \<open>
  A functor that the loop's own thread queues before it enters \<open>loop()\<close> gets no wakeup: the
  loop can block in \<open>poll\<close>, for its whole timeout, with that functor waiting.
\<close>

theorem early_functor_waits:
  "\<exists>s. reach fresh (any_step body) s \<and> pc s = AtPoll \<and> pendingFunctors s = [f] \<and>
     wakeupCount s = 0 \<and> wakers s = 0"
proof -
  let ?s1 = "(queueInLoop f EventLoop_new)\<lparr>early := Suc 0\<rparr>"
  let ?s2 = "enter_loop ?s1" and ?s3 = "check_while (enter_loop ?s1)"
  have "any_step body EventLoop_new ?s1"
    using early_queue [of EventLoop_new body f] unfolding any_step_def by (auto simp: EventLoop_new_def)
  moreover have "any_step body ?s1 ?s2"
    unfolding any_step_def by (rule exI, rule enter) (simp add: loop_ops Let_def)
  moreover have "any_step body ?s2 ?s3"
    unfolding any_step_def by (rule exI, rule check) (simp add: loop_ops Let_def)
  moreover have "reach fresh (any_step body) EventLoop_new" by (rule reach_init) (simp add: fresh_def)
  ultimately have "reach fresh (any_step body) ?s3" by (blast intro: reach_step)
  then show ?thesis by (intro exI [of _ ?s3]) (simp add: loop_ops Let_def)
qed

definition noquit_step :: "('f \<Rightarrow> 'f call list) \<Rightarrow> 'f loop \<Rightarrow> 'f loop \<Rightarrow> bool" where
  "noquit_step body s t \<longleftrightarrow>
     (\<exists>l. loop_step body l s t \<and> l \<noteq> RemoteQuit \<and> l \<noteq> EarlyQuit) \<and> Quit \<notin> set (todo t)"

definition runs_on :: "'f loop \<Rightarrow> bool" where
  "runs_on s \<longleftrightarrow> Quit \<notin> set (todo s) \<and> pc s \<noteq> AfterLoop \<and> (pc s = BeforeLoop \<or> \<not> quitFlag s)"

lemma noquit_runs_on: "noquit_step body s t \<Longrightarrow> runs_on s \<Longrightarrow> runs_on t"
proof -
  assume "noquit_step body s t" and on: "runs_on s"
  then obtain l where l: "loop_step body l s t" "l \<noteq> RemoteQuit" "l \<noteq> EarlyQuit" "Quit \<notin> set (todo t)"
    by (auto simp: noquit_step_def)
  from l(1) l(2-) on show ?thesis
  proof (induction rule: loop_step.induct)
    case (call s c cs)
    then show ?case by (cases c) (auto simp: runs_on_def loop_ops Let_def)
  next
    case (handle s a as)
    then show ?case by (cases a) (auto simp: runs_on_def loop_ops)
  qed (auto simp: runs_on_def loop_ops Let_def split: if_splits)
qed

text \<open>
  A \<open>quit\<close> that comes before the loop's thread has entered \<open>loop()\<close> is lost: \<open>loop()\<close> clears
  the flag, and unless somebody calls \<open>quit\<close> again the loop never ends.
\<close>

theorem quit_before_loop_lost:
  assumes "pc s = BeforeLoop" and "todo s = []" and "quitFlag s" and "(noquit_step body)\<^sup>*\<^sup>* s t"
  shows "pc t \<noteq> AfterLoop"
proof -
  have "runs_on s" using assms(1,2) by (simp add: runs_on_def)
  with assms(4) have "runs_on t" by (induction rule: rtranclp_induct) (auto intro: noquit_runs_on)
  then show ?thesis by (simp add: runs_on_def)
qed

theorem quit_before_loop_lost_witness:
  "quitFlag (quit_remote (EventLoop_new :: nat loop)) \<and>
   pc (check_while (enter_loop (quit_remote (EventLoop_new :: nat loop)))) \<noteq> AfterLoop"
proof -
  let ?s = "quit_remote (EventLoop_new :: nat loop)"
  have "noquit_step (\<lambda>_. []) ?s (enter_loop ?s)"
    using enter [of ?s "\<lambda>_. []"] by (auto simp: noquit_step_def loop_ops)
  moreover have "noquit_step (\<lambda>_. []) (enter_loop ?s) (check_while (enter_loop ?s))"
    using check [of "enter_loop ?s" "\<lambda>_. []"] by (auto simp: noquit_step_def loop_ops)
  ultimately have "(noquit_step (\<lambda>_. []))\<^sup>*\<^sup>* ?s (check_while (enter_loop ?s))" by simp
  from quit_before_loop_lost [OF _ _ _ this] show ?thesis by (simp add: loop_ops)
qed

text \<open>
  C25.  \<open>doPendingFunctors\<close> comes to an end and calls exactly the functors that waited when it
  swapped the queue, in order: there is a number of steps of the loop's thread after which, with
  any steps of other threads in between, it has called them all and is back at the loop test;
  before that the loop's thread can always take a step.  What is queued meanwhile, by the
  functors themselves or by other threads, waits for the next round.  The assumption is that
  the functors themselves come to an end: none of them runs, by \<open>runInLoop\<close>, functors without end.
\<close>

theorem one_round_calls_all:
  assumes "reach fresh (any_step body) s" and "pc s = Swapping"
    and "\<forall>f \<in> set (pendingFunctors s). \<exists>n. costs body (body f) n"
  shows "\<exists>N. \<forall>n t. loop_run body n (doPendingFunctors_swap s) t \<longrightarrow>
    (n = N \<longrightarrow> pc t = AtWhile \<and> ran t = ran s @ pendingFunctors s \<and> \<not> callingPendingFunctors t \<and>
       queued t = queued s @ pendingFunctors t) \<and>
    (n < N \<longrightarrow> (\<exists>u. loop_step body LoopThread t u))"
proof -
  let ?past = "ran s" and ?all = "pendingFunctors s" and ?s1 = "doPendingFunctors_swap s"
  from loopm.inv_reach [OF assms(1)] assms(2)
  have s: "todo s = []" "queued s = ?past @ ?all" by (auto simp: loop_inv_def)
  from steps_left_exist [OF cost_none assms(3)] obtain N where N: "steps_left body ?all [] N" by blast
  then have pos: "0 < N" by cases auto
  have round: "in_round body ?past ?all N ?s1" using s N by (simp add: in_round_def loop_ops)
  show ?thesis
  proof (intro exI [of _ N] allI impI)
    fix n t
    assume run: "loop_run body n ?s1 t"
    from in_round_run [OF run round pos] in_round_step s(2)
    show "(n = N \<longrightarrow> pc t = AtWhile \<and> ran t = ran s @ pendingFunctors s \<and> \<not> callingPendingFunctors t \<and>
       queued t = queued s @ pendingFunctors t) \<and> (n < N \<longrightarrow> (\<exists>u. loop_step body LoopThread t u))"
      by (auto simp: round_done_def)
  qed
qed

definition demo_body :: "nat \<Rightarrow> nat call list" where
  "demo_body f = (if f = 0 then [RunInLoop 1, QueueInLoop 7] else [])"

definition demo_swapping :: "nat loop" where
  "demo_swapping = (queueInLoop_remote 1 (queueInLoop_remote 0 (check_while (enter_loop EventLoop_new))))
     \<lparr>pc := Swapping\<rparr>"

lemma demo_swapping_reach: "reach fresh (any_step demo_body) demo_swapping"
proof -
  let ?e = "enter_loop EventLoop_new :: nat loop"
  let ?q = "queueInLoop_remote 1 (queueInLoop_remote 0 (check_while ?e))"
  have 0: "reach fresh (any_step demo_body) (EventLoop_new :: nat loop)"
    by (rule reach_init) (simp add: fresh_def)
  have 1: "any_step demo_body EventLoop_new ?e"
    unfolding any_step_def by (rule exI, rule enter) (simp add: EventLoop_new_def)
  have 2: "any_step demo_body ?e (check_while ?e)"
    unfolding any_step_def by (rule exI, rule check) (simp add: enter_loop_def)
  have 3: "any_step demo_body s (queueInLoop_remote f s)" for f s
    unfolding any_step_def by (rule exI, rule remote_queue)
  have 4: "any_step demo_body ?q (?q\<lparr>pc := Handling []\<rparr>)"
    unfolding any_step_def by (rule exI, rule poll) (simp_all add: loop_ops poll_reports_def)
  have 5: "any_step demo_body (?q\<lparr>pc := Handling []\<rparr>) demo_swapping"
    using handled [of "?q\<lparr>pc := Handling []\<rparr>" demo_body]
    by (auto simp: any_step_def demo_swapping_def loop_ops)
  show ?thesis
    by (rule reach_step [OF reach_step [OF reach_step [OF reach_step [OF reach_step [OF
          reach_step [OF 0 1] 2] 3] 3] 4] 5])
qed

theorem one_round_calls_all_witness:
  "\<exists>N. \<forall>n t. loop_run demo_body n (doPendingFunctors_swap demo_swapping) t \<longrightarrow> n = N \<longrightarrow> ran t = [0, 1]"
proof -
  have "costs demo_body [RunInLoop 1, QueueInLoop 7] (Suc (Suc 0))"
    by (intro cost_run) (simp add: demo_body_def cost_queue cost_none)
  then have "\<forall>f. \<exists>n. costs demo_body (demo_body f) n"
    by (auto simp: demo_body_def intro: cost_none)
  then have "\<forall>f \<in> set (pendingFunctors demo_swapping). \<exists>n. costs demo_body (demo_body f) n" by blast
  from one_round_calls_all [OF demo_swapping_reach _ this] obtain N where
    "\<forall>n t. loop_run demo_body n (doPendingFunctors_swap demo_swapping) t \<longrightarrow> n = N \<longrightarrow>
       ran t = ran demo_swapping @ pendingFunctors demo_swapping" by (auto simp: demo_swapping_def)
  then show ?thesis by (intro exI [of _ N]) (simp add: demo_swapping_def loop_ops)
qed

end
