(* ===== verification/EventLoopThread.thy ===== *)
theory EventLoopThread
  imports EventLoop
begin

text \<open>
  \<open>Thread.h\<close>, \<open>Thread.cc\<close>, \<open>Mutex.h\<close>, \<open>Condition.h\<close>, \<open>EventLoopThread.h\<close>,
  \<open>EventLoopThread.cc\<close>: a thread that runs an event loop, and the handshake by which
  \<open>startLoop\<close> waits for the loop to exist.

  Two threads take part: the owner of the \<open>EventLoopThread\<close> object and the thread it starts.
  Each has a program counter, and a step is one access to what they share: a lock or an unlock
  of the mutex, a wait or a wakeup of the condition variable, a load or store of \<open>loop_\<close>, a
  step of the event loop itself.  \<open>pthread_cond_wait\<close> may also return without a signal.

  The \<open>EventLoop\<close> object lives on the stack of the started thread (\<open>stack_loop\<close>); the pointer
  \<open>loop_\<close> remains when that thread has returned.
\<close>

section \<open>Threads\<close>

record thread =
  started_flag :: bool
  joined_flag :: bool
  detached :: bool
  tid :: int
  thread_name :: string

definition Thread_new :: "string \<Rightarrow> thread" where
  "Thread_new n = \<lparr>started_flag = False, joined_flag = False, detached = False, tid = 0, thread_name = n\<rparr>"

text \<open>\<open>pthread_create\<close> succeeds or not; if not, the process is aborted.\<close>

definition Thread_start :: "bool \<Rightarrow> thread \<Rightarrow> thread outcome" where
  "Thread_start created t = (if created then Inr (t\<lparr>started_flag := True\<rparr>) else Inl Abort)"

definition Thread_join :: "thread \<Rightarrow> thread" where
  "Thread_join t = t\<lparr>joined_flag := True\<rparr>"

definition Thread_destroy :: "thread \<Rightarrow> thread" where
  "Thread_destroy t = (if started_flag t \<and> \<not> joined_flag t then t\<lparr>detached := True\<rparr> else t)"

text \<open>The start of \<open>ThreadData::runInThread\<close>: what it stores before it calls the function.\<close>

definition runInThread_name :: "thread \<Rightarrow> string" where
  "runInThread_name t = (if thread_name t = [] then ''wwjThread'' else thread_name t)"

definition runInThread_tid :: "int \<Rightarrow> thread \<Rightarrow> thread" where
  "runInThread_tid n t = t\<lparr>tid := n\<rparr>"

section \<open>The mutex\<close>

datatype who = Owner | Started

record mutex =
  locked_by :: "who option"
  holder :: "who option"

definition MutexLock_new :: mutex where
  "MutexLock_new = \<lparr>locked_by = None, holder = None\<rparr>"

definition mutex_lock :: "who \<Rightarrow> mutex \<Rightarrow> mutex" where
  "mutex_lock w m = m\<lparr>locked_by := Some w, holder := Some w\<rparr>"

definition mutex_unlock :: "mutex \<Rightarrow> mutex" where
  "mutex_unlock m = m\<lparr>holder := None, locked_by := None\<rparr>"

text \<open>
  \<open>Condition::wait\<close> gives the mutex up and takes it back inside \<open>pthread_cond_wait\<close>, without
  touching \<open>holder_\<close>.
\<close>

definition cond_release :: "mutex \<Rightarrow> mutex" where
  "cond_release m = m\<lparr>locked_by := None\<rparr>"

definition cond_reacquire :: "who \<Rightarrow> mutex \<Rightarrow> mutex" where
  "cond_reacquire w m = m\<lparr>locked_by := Some w\<rparr>"

section \<open>The handshake\<close>

datatype owner_pc = Constructed | Locking | Testing | Waiting | Signalled | Unlocking | Returned
  | Joining | Joined

datatype thread_pc = NotRunning | Creating | TLocking | Storing | Notifying | TUnlocking | Looping | Finished

record 'f elt =
  loop_ptr :: bool
  exiting :: bool
  thread_obj :: thread
  mtx :: mutex
  opc :: owner_pc
  tpc :: thread_pc
  stack_loop :: "'f loop option"

definition EventLoopThread_new :: "'f elt" where
  "EventLoopThread_new =
     \<lparr>loop_ptr = False, exiting = False, thread_obj = Thread_new [], mtx = MutexLock_new,
      opc = Constructed, tpc = NotRunning, stack_loop = None\<rparr>"

text \<open>\<open>startLoop\<close>.\<close>

definition startLoop_thread :: "bool \<Rightarrow> 'f elt \<Rightarrow> 'f elt outcome" where
  "startLoop_thread created s =
     bindO (Thread_start created (thread_obj s)) (\<lambda>t.
       Inr (s\<lparr>thread_obj := t, opc := Locking, tpc := Creating\<rparr>))"

definition startLoop_test :: "'f elt \<Rightarrow> 'f elt" where
  "startLoop_test s =
     (if loop_ptr s then s\<lparr>opc := Unlocking\<rparr> else s\<lparr>opc := Waiting, mtx := cond_release (mtx s)\<rparr>)"

text \<open>The destructor up to its \<open>join\<close>: it uses \<open>loop_\<close> without a test.\<close>

definition elt_destroy :: "'f elt \<Rightarrow> 'f elt outcome" where
  "elt_destroy s =
     bindO (guardO (loop_ptr s)) (\<lambda>_.
       case stack_loop s of
         None \<Rightarrow> Inl UB
       | Some lp \<Rightarrow> Inr (s\<lparr>exiting := True, stack_loop := Some (quit_remote lp),
                          thread_obj := Thread_join (thread_obj s), opc := Joining\<rparr>))"

inductive elt_step :: "('f \<Rightarrow> 'f call list) \<Rightarrow> 'f elt \<Rightarrow> 'f elt \<Rightarrow> bool"
  for body :: "'f \<Rightarrow> 'f call list" where
  start: "opc s = Constructed \<Longrightarrow> startLoop_thread True s = Inr t \<Longrightarrow> elt_step body s t"
| lock: "opc s = Locking \<Longrightarrow> locked_by (mtx s) = None \<Longrightarrow>
    elt_step body s (s\<lparr>opc := Testing, mtx := mutex_lock Owner (mtx s)\<rparr>)"
| test: "opc s = Testing \<Longrightarrow> elt_step body s (startLoop_test s)"
| spurious: "opc s = Waiting \<Longrightarrow> elt_step body s (s\<lparr>opc := Signalled\<rparr>)"
| wake: "opc s = Signalled \<Longrightarrow> locked_by (mtx s) = None \<Longrightarrow>
    elt_step body s (s\<lparr>opc := Testing, mtx := cond_reacquire Owner (mtx s)\<rparr>)"
| unlock: "opc s = Unlocking \<Longrightarrow>
    elt_step body s (s\<lparr>opc := Returned, mtx := mutex_unlock (mtx s)\<rparr>)"
| destroy: "opc s = Returned \<Longrightarrow> elt_destroy s = Inr t \<Longrightarrow> elt_step body s t"
| join: "opc s = Joining \<Longrightarrow> tpc s = Finished \<Longrightarrow> elt_step body s (s\<lparr>opc := Joined\<rparr>)"
| create: "tpc s = Creating \<Longrightarrow>
    elt_step body s (s\<lparr>tpc := TLocking, stack_loop := Some EventLoop_new\<rparr>)"
| tlock: "tpc s = TLocking \<Longrightarrow> locked_by (mtx s) = None \<Longrightarrow>
    elt_step body s (s\<lparr>tpc := Storing, mtx := mutex_lock Started (mtx s)\<rparr>)"
| store: "tpc s = Storing \<Longrightarrow> elt_step body s (s\<lparr>tpc := Notifying, loop_ptr := True\<rparr>)"
| signal: "tpc s = Notifying \<Longrightarrow>
    elt_step body s (s\<lparr>tpc := TUnlocking, opc := (if opc s = Waiting then Signalled else opc s)\<rparr>)"
| tunlock: "tpc s = TUnlocking \<Longrightarrow>
    elt_step body s (s\<lparr>tpc := Looping, mtx := mutex_unlock (mtx s)\<rparr>)"
| loop_own: "tpc s = Looping \<Longrightarrow> stack_loop s = Some lp \<Longrightarrow> loop_step body LoopThread lp lp' \<Longrightarrow>
    elt_step body s (s\<lparr>stack_loop := Some lp'\<rparr>)"
| loop_other: "stack_loop s = Some lp \<Longrightarrow> l \<notin> {LoopThread, RemoteQuit, EarlyQuit} \<Longrightarrow> loop_step body l lp lp' \<Longrightarrow>
    elt_step body s (s\<lparr>stack_loop := Some lp'\<rparr>)"
| return: "tpc s = Looping \<Longrightarrow> stack_loop s = Some lp \<Longrightarrow> pc lp = AfterLoop \<Longrightarrow>
    elt_step body s (s\<lparr>tpc := Finished, stack_loop := None\<rparr>)"

definition elt_start :: "'f elt \<Rightarrow> bool" where
  "elt_start s \<longleftrightarrow> s = EventLoopThread_new"

lemmas elt_ops = EventLoopThread_new_def Thread_new_def MutexLock_new_def startLoop_thread_def Thread_start_def
  startLoop_test_def elt_destroy_def Thread_join_def mutex_lock_def mutex_unlock_def cond_release_def
  cond_reacquire_def

section \<open>The invariant\<close>

fun owner_holds :: "owner_pc \<Rightarrow> bool" where
  "owner_holds Testing = True"
| "owner_holds Unlocking = True"
| "owner_holds _ = False"

fun thread_holds :: "thread_pc \<Rightarrow> bool" where
  "thread_holds Storing = True"
| "thread_holds Notifying = True"
| "thread_holds TUnlocking = True"
| "thread_holds _ = False"

fun stored :: "thread_pc \<Rightarrow> bool" where
  "stored Notifying = True"
| "stored TUnlocking = True"
| "stored Looping = True"
| "stored Finished = True"
| "stored _ = False"

text \<open>
  The mutex is held by who is in a critical section; \<open>loop_\<close> is set from the store on; the
  owner sleeps only while the notification is still to come.
\<close>

definition elt_inv :: "'f elt \<Rightarrow> bool" where
  "elt_inv s \<longleftrightarrow>
     (locked_by (mtx s) = Some Owner \<longleftrightarrow> owner_holds (opc s)) \<and>
     (locked_by (mtx s) = Some Started \<longleftrightarrow> thread_holds (tpc s)) \<and>
     (loop_ptr s \<longleftrightarrow> stored (tpc s)) \<and>
     (opc s \<in> {Unlocking, Returned, Joining, Joined} \<longrightarrow> loop_ptr s) \<and>
     (opc s = Waiting \<longrightarrow> tpc s \<in> {Creating, TLocking, Storing, Notifying}) \<and>
     (opc s = Constructed \<longleftrightarrow> tpc s = NotRunning) \<and>
     (stack_loop s \<noteq> None \<longleftrightarrow> tpc s \<notin> {NotRunning, Creating, Finished})"

lemma elt_inv_init: "elt_start s \<Longrightarrow> elt_inv s"
  by (simp add: elt_start_def elt_inv_def elt_ops)

lemma elt_inv_stack: "elt_inv s \<Longrightarrow> stack_loop s = Some lp \<Longrightarrow> elt_inv (s\<lparr>stack_loop := Some lp'\<rparr>)"
  by (cases "tpc s") (auto simp: elt_inv_def)

lemma elt_step_inv: "elt_step body s t \<Longrightarrow> elt_inv s \<Longrightarrow> elt_inv t"
proof (induction rule: elt_step.induct)
  case (tlock s)
  then show ?case by (cases "opc s") (auto simp: elt_inv_def elt_ops)
next
  case (signal s)
  then show ?case by (cases "opc s") (auto simp: elt_inv_def elt_ops)
next
  case (tunlock s)
  then show ?case by (cases "opc s") (auto simp: elt_inv_def elt_ops)
next
  case (store s)
  then show ?case by (cases "opc s") (auto simp: elt_inv_def elt_ops)
next
  case (lock s)
  then show ?case by (cases "tpc s") (auto simp: elt_inv_def elt_ops)
next
  case (wake s)
  then show ?case by (cases "tpc s") (auto simp: elt_inv_def elt_ops)
next
  case (unlock s)
  then show ?case by (cases "tpc s") (auto simp: elt_inv_def elt_ops)
next
  case (test s)
  then show ?case by (cases "tpc s") (auto simp: elt_inv_def elt_ops)
next
  case (destroy s t)
  then show ?case by (auto simp: elt_inv_def elt_ops outcome_simps split: option.splits)
next
  case (start s t)
  then show ?case by (auto simp: elt_inv_def elt_ops outcome_simps)
next
  case (spurious s)
  then show ?case by (simp add: elt_inv_def)
next
  case (join s)
  then show ?case by (simp add: elt_inv_def)
next
  case (create s)
  then show ?case by (cases "opc s") (auto simp: elt_inv_def)
next
  case (loop_own s lp lp')
  then show ?case by (simp add: elt_inv_stack)
next
  case (loop_other s lp l lp')
  then show ?case by (simp add: elt_inv_stack)
next
  case (return s lp)
  then show ?case by (cases "opc s") (simp_all add: elt_inv_def)
qed

interpretation eltm: machine elt_start "elt_step body" elt_inv for body :: "'f \<Rightarrow> 'f call list"
  by unfold_locales (auto simp: elt_inv_init intro: elt_step_inv)

section \<open>The progress of \<open>startLoop\<close>\<close>

definition in_startLoop :: "owner_pc \<Rightarrow> bool" where
  "in_startLoop p \<longleftrightarrow> p \<in> {Constructed, Locking, Testing, Waiting, Signalled, Unlocking}"

text \<open>
  A step that brings \<open>startLoop\<close> nearer to its return: one of the two threads advances in its
  program.  Steps of the event loop, the return of \<open>loop()\<close> and a return of
  \<open>pthread_cond_wait\<close> without a signal are none.
\<close>

definition spurious_wakeup :: "'f elt \<Rightarrow> 'f elt \<Rightarrow> bool" where
  "spurious_wakeup s t \<longleftrightarrow> opc s = Waiting \<and> opc t = Signalled \<and> tpc t = tpc s"

definition handshake_step :: "('f \<Rightarrow> 'f call list) \<Rightarrow> 'f elt \<Rightarrow> 'f elt \<Rightarrow> bool" where
  "handshake_step body s t \<longleftrightarrow> elt_step body s t \<and> in_startLoop (opc s) \<and>
     (tpc t \<noteq> tpc s \<and> tpc s \<noteq> Looping \<or> tpc t = tpc s \<and> opc t \<noteq> opc s \<and> opc s \<noteq> Waiting)"

text \<open>The runs from the constructed object, with the numbers of the two kinds of steps.\<close>

inductive elt_run :: "('f \<Rightarrow> 'f call list) \<Rightarrow> nat \<Rightarrow> nat \<Rightarrow> 'f elt \<Rightarrow> bool"
  for body :: "'f \<Rightarrow> 'f call list" where
  begin_run: "elt_start s \<Longrightarrow> elt_run body 0 0 s"
| run_step: "elt_run body k m s \<Longrightarrow> elt_step body s t \<Longrightarrow>
    elt_run body (if handshake_step body s t then Suc k else k)
      (if spurious_wakeup s t then Suc m else m) t"

lemma elt_run_inv: "elt_run body k m s \<Longrightarrow> elt_inv s"
  by (induction rule: elt_run.induct) (auto intro: elt_inv_init elt_step_inv)

fun thread_rank :: "thread_pc \<Rightarrow> nat" where
  "thread_rank NotRunning = 7"
| "thread_rank Creating = 6"
| "thread_rank TLocking = 5"
| "thread_rank Storing = 4"
| "thread_rank Notifying = 3"
| "thread_rank TUnlocking = 2"
| "thread_rank Looping = 1"
| "thread_rank Finished = 0"

fun owner_rank :: "bool \<Rightarrow> owner_pc \<Rightarrow> nat" where
  "owner_rank p Constructed = 7"
| "owner_rank p Locking = 6"
| "owner_rank p Testing = (if p then 2 else 5)"
| "owner_rank p Waiting = 4"
| "owner_rank p Signalled = (if p then 3 else 6)"
| "owner_rank p Unlocking = 1"
| "owner_rank p _ = 0"

definition rank :: "'f elt \<Rightarrow> nat" where
  "rank s = thread_rank (tpc s) + owner_rank (loop_ptr s) (opc s)"

lemma owner_rank_stored: "owner_rank True p \<le> owner_rank b p"
  by (cases p) simp_all

lemma owner_rank_signalled: "b \<Longrightarrow> owner_rank b (if p = Waiting then Signalled else p) \<le> owner_rank b p"
  by (cases p) simp_all

lemma elt_step_rank:
  "elt_step body s t \<Longrightarrow> elt_inv s \<Longrightarrow>
   rank t + (if handshake_step body s t then 1 else 0) \<le> rank s + (if spurious_wakeup s t then 2 else 0)"
proof (induction rule: elt_step.induct)
  case (start s t)
  then show ?case by (auto simp: elt_ops outcome_simps rank_def elt_inv_def)
next
  case (destroy s t)
  then show ?case
    by (auto simp: elt_ops outcome_simps rank_def handshake_step_def in_startLoop_def split: option.splits)
next
  case (store s)
  then show ?case using owner_rank_stored [of "opc s" "loop_ptr s"] by (simp add: rank_def)
next
  case (signal s)
  then have "loop_ptr s" by (simp add: elt_inv_def)
  with signal owner_rank_signalled [of "loop_ptr s" "opc s"] show ?case by (simp add: rank_def)
qed (auto simp: elt_ops rank_def handshake_step_def spurious_wakeup_def in_startLoop_def)

lemma elt_run_rank: "elt_run body k m s \<Longrightarrow> rank s + k \<le> 14 + 2 * m"
proof (induction rule: elt_run.induct)
  case (begin_run s)
  then show ?case by (simp add: elt_start_def elt_ops rank_def)
next
  case (run_step k m s t)
  from elt_step_rank [OF run_step.hyps(2) elt_run_inv [OF run_step.hyps(1)]] run_step.IH show ?case
    by (auto split: if_splits)
qed

lemma startLoop_progress:
  assumes inv: "elt_inv s" and p: "in_startLoop (opc s)"
  shows "\<exists>t. handshake_step body s t"
proof -
  have advance: ?thesis if "tpc s \<in> {Creating, Storing, Notifying, TUnlocking}"
    using that p create [of s body] store [of s body] signal [of s body] tunlock [of s body]
    by (fastforce simp: handshake_step_def)
  have thread: ?thesis if "thread_holds (tpc s)"
    using advance that by (cases "tpc s") simp_all
  have free: "locked_by (mtx s) = None" if "\<not> owner_holds (opc s)" "\<not> thread_holds (tpc s)"
    using inv that by (cases "locked_by (mtx s)"; cases "the (locked_by (mtx s))") (auto simp: elt_inv_def)
  show ?thesis
  proof (cases "thread_holds (tpc s)")
    case True
    then show ?thesis by (rule thread)
  next
    case False
    show ?thesis
    proof (cases "opc s")
      case Constructed
      with inv have "tpc s = NotRunning" by (simp add: elt_inv_def)
      moreover obtain t where t: "startLoop_thread True s = Inr t" by (simp add: elt_ops)
      then have "tpc t = Creating" by (auto simp: elt_ops)
      ultimately show ?thesis using Constructed p elt_step.start [OF Constructed t]
        by (intro exI [of _ t]) (simp add: handshake_step_def)
    next
      case Locking
      with lock [of s body] free False p show ?thesis by (fastforce simp: handshake_step_def)
    next
      case Testing
      with test [OF Testing, of body] p show ?thesis
        by (intro exI [of _ "startLoop_test s"]) (simp add: handshake_step_def startLoop_test_def)
    next
      case Waiting
      with inv False have "tpc s = Creating \<or> tpc s = TLocking" by (auto simp: elt_inv_def)
      then show ?thesis
      proof
        assume "tpc s = TLocking"
        with tlock [of s body] free Waiting False p show ?thesis by (fastforce simp: handshake_step_def)
      qed (simp add: advance)
    next
      case Signalled
      with wake [of s body] free False p show ?thesis by (fastforce simp: handshake_step_def)
    next
      case Unlocking
      with unlock [of s body] p show ?thesis by (fastforce simp: handshake_step_def)
    qed (use p in \<open>simp_all add: in_startLoop_def\<close>)
  qed
qed

section \<open>Properties\<close>

text \<open>
  C23.  The handshake of \<open>startLoop\<close> neither sleeps through its notification nor deadlocks, and
  it comes to an end with a loop.  In every run, with any interleaving: an owner blocked on the
  condition still has the notification ahead; an owner that has returned has a non-null
  \<open>loop_\<close>; as long as \<open>startLoop\<close> has not returned one of the two threads can take a step of
  the handshake itself (no step of the event loop is needed, and no spurious wakeup); and a run
  has at most 14 such steps, and two more for each spurious wakeup.
\<close>

theorem startLoop_handshake:
  assumes "elt_run body k m s"
  shows "(opc s = Waiting \<longrightarrow> tpc s \<in> {Creating, TLocking, Storing, Notifying}) \<and>
    (opc s = Returned \<longrightarrow> loop_ptr s) \<and>
    (opc s \<in> {Constructed, Locking, Testing, Waiting, Signalled, Unlocking} \<longrightarrow>
       (\<exists>t. handshake_step body s t)) \<and>
    k \<le> 14 + 2 * m"
proof -
  have inv: "elt_inv s" by (rule elt_run_inv [OF assms])
  moreover have "\<exists>t. handshake_step body s t"
    if "opc s \<in> {Constructed, Locking, Testing, Waiting, Signalled, Unlocking}"
    using startLoop_progress [OF inv] that by (simp add: in_startLoop_def)
  ultimately show ?thesis using elt_run_rank [OF assms] by (auto simp: elt_inv_def)
qed

theorem startLoop_handshake_witness:
  "\<exists>t. handshake_step (\<lambda>_. []) (EventLoopThread_new :: nat elt) t"
proof -
  have "elt_run (\<lambda>_. []) 0 0 (EventLoopThread_new :: nat elt)"
    by (rule begin_run) (simp add: elt_start_def)
  from startLoop_handshake [OF this] show ?thesis by (simp add: EventLoopThread_new_def)
qed

text \<open>
  The destructor of an \<open>EventLoopThread\<close> is undefined where no loop exists: before
  \<open>startLoop\<close>, because \<open>loop_\<close> is null, and once the loop has been left (by its own \<open>quit\<close>),
  because \<open>loop_\<close> still points to the finished thread's stack.  Otherwise it reaches its \<open>join\<close>.
\<close>

theorem elt_destructor_needs_live_loop:
  assumes "reach elt_start (elt_step body) s"
  shows "elt_destroy s = Inl UB \<longleftrightarrow> tpc s \<in> {NotRunning, Creating, TLocking, Storing, Finished}"
  using eltm.inv_reach [OF assms]
  by (cases "tpc s") (auto simp: elt_inv_def elt_destroy_def)

theorem elt_destructor_needs_live_loop_witness:
  "elt_destroy (EventLoopThread_new :: nat elt) = Inl UB"
proof -
  have "reach elt_start (elt_step (\<lambda>_. [])) (EventLoopThread_new :: nat elt)"
    by (rule reach_init) (simp add: elt_start_def)
  from elt_destructor_needs_live_loop [OF this] show ?thesis by (simp add: EventLoopThread_new_def)
qed

definition elt_noquit_step :: "('f \<Rightarrow> 'f call list) \<Rightarrow> 'f elt \<Rightarrow> 'f elt \<Rightarrow> bool" where
  "elt_noquit_step body s t \<longleftrightarrow>
     elt_step body s t \<and> (\<forall>lp. stack_loop t = Some lp \<longrightarrow> Quit \<notin> set (todo lp))"

definition hangs :: "'f elt \<Rightarrow> bool" where
  "hangs s \<longleftrightarrow> opc s = Joining \<and> (\<exists>lp. stack_loop s = Some lp \<and> runs_on lp)"

lemma hangs_step: "elt_noquit_step body s t \<Longrightarrow> elt_inv s \<Longrightarrow> hangs s \<Longrightarrow> hangs t"
proof -
  assume st: "elt_noquit_step body s t" and inv: "elt_inv s" and h: "hangs s"
  from st have "elt_step body s t" "\<forall>lp. stack_loop t = Some lp \<longrightarrow> Quit \<notin> set (todo lp)"
    by (simp_all add: elt_noquit_step_def)
  then show ?thesis using inv h
  proof (induction rule: elt_step.induct)
    case (join s)
    then show ?case by (auto simp: elt_inv_def hangs_def)
  next
    case (loop_own s lp lp')
    then have "noquit_step body lp lp'" by (auto simp: noquit_step_def)
    with loop_own show ?case by (auto simp: hangs_def intro: noquit_runs_on)
  next
    case (loop_other s lp l lp')
    then have "noquit_step body lp lp'" by (auto simp: noquit_step_def)
    with loop_other show ?case by (auto simp: hangs_def intro: noquit_runs_on)
  next
    case (return s lp)
    then show ?case by (auto simp: hangs_def runs_on_def)
  qed (auto simp: hangs_def elt_ops runs_on_def EventLoop_new_def outcome_simps)
qed

text \<open>A run of the handshake until \<open>startLoop\<close> has returned.\<close>

lemma reach_returned:
  "\<exists>s. reach elt_start (elt_step (\<lambda>_. [])) (s :: nat elt) \<and> opc s = Returned \<and> tpc s = Looping \<and>
     stack_loop s = Some EventLoop_new \<and> loop_ptr s"
proof -
  let ?R = "reach elt_start (elt_step (\<lambda>_. []))"
  note st = elt_step.intros
  let ?s0 = "EventLoopThread_new :: nat elt"
  obtain s1 where s1: "startLoop_thread True ?s0 = Inr s1" by (simp add: elt_ops)
  have d1: "s1 = ?s0\<lparr>thread_obj := (thread_obj ?s0)\<lparr>started_flag := True\<rparr>, opc := Locking, tpc := Creating\<rparr>"
    using s1 by (auto simp: elt_ops)
  let ?s2 = "s1\<lparr>tpc := TLocking, stack_loop := Some EventLoop_new\<rparr>"
  let ?s3 = "?s2\<lparr>tpc := Storing, mtx := mutex_lock Started (mtx ?s2)\<rparr>"
  let ?s4 = "?s3\<lparr>tpc := Notifying, loop_ptr := True\<rparr>"
  let ?s5 = "?s4\<lparr>tpc := TUnlocking, opc := (if opc ?s4 = Waiting then Signalled else opc ?s4)\<rparr>"
  let ?s6 = "?s5\<lparr>tpc := Looping, mtx := mutex_unlock (mtx ?s5)\<rparr>"
  let ?s7 = "?s6\<lparr>opc := Testing, mtx := mutex_lock Owner (mtx ?s6)\<rparr>"
  let ?s8 = "startLoop_test ?s7"
  let ?s9 = "?s8\<lparr>opc := Returned, mtx := mutex_unlock (mtx ?s8)\<rparr>"
  have "?R ?s0" by (rule reach_init) (simp add: elt_start_def)
  then have "?R s1" by (rule reach_step) (rule st(1) [OF _ s1], simp add: elt_ops)
  then have "?R ?s2" by (rule reach_step) (rule st(9), simp add: d1)
  then have "?R ?s3" by (rule reach_step) (rule st(10), simp_all add: d1 elt_ops)
  then have "?R ?s4" by (rule reach_step) (rule st(11), simp)
  then have "?R ?s5" by (rule reach_step) (rule st(12), simp)
  then have "?R ?s6" by (rule reach_step) (rule st(13), simp)
  then have "?R ?s7" by (rule reach_step) (rule st(2), simp_all add: d1 elt_ops)
  then have "?R ?s8" by (rule reach_step) (rule st(3), simp)
  then have r: "?R ?s9" by (rule reach_step) (rule st(6), simp add: startLoop_test_def)
  have o: "opc ?s9 = Returned" and sl: "stack_loop ?s9 = Some EventLoop_new" and p: "loop_ptr ?s9"
    by (simp_all add: startLoop_test_def)
  have "tpc ?s9 = Looping" by (simp add: startLoop_test_def)
  with r o sl p show ?thesis by blast
qed

text \<open>
  C40.  Destroying an \<open>EventLoopThread\<close> between \<open>startLoop\<close>'s return and its thread's entry into
  \<open>loop()\<close> hangs: the \<open>quit\<close> of the destructor is lost, and \<open>join\<close> never returns unless
  somebody else calls \<open>quit\<close>.
\<close>

theorem early_destruction_hangs:
  assumes r: "reach elt_start (elt_step body) s" and o: "opc s = Returned"
    and lp: "stack_loop s = Some lp" "pc lp = BeforeLoop" "todo lp = []"
    and d: "elt_destroy s = Inr t" and run: "(elt_noquit_step body)\<^sup>*\<^sup>* t u"
  shows "opc u = Joining"
proof -
  have t: "elt_inv t" by (rule elt_step_inv [OF destroy [OF o d] eltm.inv_reach [OF r]])
  have "hangs t" using d lp by (auto simp: elt_destroy_def hangs_def runs_on_def quit_remote_def outcome_simps)
  with run t have "hangs u \<and> elt_inv u"
  proof (induction rule: rtranclp_induct)
    case (step v w)
    then have "elt_step body v w" by (simp add: elt_noquit_step_def)
    with step show ?case using hangs_step elt_step_inv by blast
  qed simp
  then show ?thesis by (simp add: hangs_def)
qed

theorem early_destruction_hangs_witness:
  "\<exists>s t. reach elt_start (elt_step (\<lambda>_. [])) (s :: nat elt) \<and> elt_destroy s = Inr t \<and> opc t = Joining"
proof -
  obtain s :: "nat elt" where r: "reach elt_start (elt_step (\<lambda>_. [])) s" "opc s = Returned"
    and sl: "stack_loop s = Some EventLoop_new" "loop_ptr s" using reach_returned by blast
  obtain t where t: "elt_destroy s = Inr t" using sl by (simp add: elt_destroy_def)
  have "opc t = Joining"
    by (rule early_destruction_hangs [OF r sl(1) _ _ t rtranclp.rtrancl_refl]) (simp_all add: EventLoop_new_def)
  with r t show ?thesis by blast
qed

end
