(* ===== verification/ThreadPools.thy ===== *)
theory ThreadPools
  imports EventLoopThread
begin

text \<open>
  \<open>EventLoopThreadPool.h\<close>, \<open>EventLoopThreadPool.cc\<close>: the event loops among which a server
  spreads its connections.  A pointer to a loop is the name of that loop: the base loop, or the
  loop of the i-th thread that was started.  Whether \<open>pthread_create\<close> succeeds for the i-th
  thread is an argument.
\<close>

section \<open>The pool\<close>

datatype loop_id = BaseLoop | IoLoop nat

record pool =
  baseLoop :: loop_id
  pool_started :: bool
  numThreads :: int
  next_index :: int
  threads :: "thread list"
  pool_loops :: "loop_id list"

definition pool_new :: "loop_id \<Rightarrow> pool" where
  "pool_new base =
     \<lparr>baseLoop = base, pool_started = False, numThreads = 0, next_index = 0, threads = [], pool_loops = []\<rparr>"

definition pool_setThreadNum :: "int \<Rightarrow> pool \<Rightarrow> pool" where
  "pool_setThreadNum n p = p\<lparr>numThreads := n\<rparr>"

text \<open>
  One turn of the loop of \<open>start\<close>: a new \<open>EventLoopThread\<close>, the start of its thread, and the
  loop that \<open>startLoop\<close> returns (after the handshake of \<open>EventLoopThread\<close>).
\<close>

definition start_one :: "(nat \<Rightarrow> bool) \<Rightarrow> pool \<Rightarrow> pool outcome" where
  "start_one created p =
     (let k = length (threads p) in
      bindO (Thread_start (created k) (Thread_new [])) (\<lambda>t.
        Inr (p\<lparr>threads := threads p @ [t], pool_loops := pool_loops p @ [IoLoop k]\<rparr>)))"

fun start_threads :: "(nat \<Rightarrow> bool) \<Rightarrow> nat \<Rightarrow> pool \<Rightarrow> pool outcome" where
  "start_threads created 0 p = Inr p"
| "start_threads created (Suc n) p = bindO (start_one created p) (start_threads created n)"

definition pool_start :: "(nat \<Rightarrow> bool) \<Rightarrow> pool \<Rightarrow> pool outcome" where
  "pool_start created p = start_threads created (nat (numThreads p)) (p\<lparr>pool_started := True\<rparr>)"

text \<open>The index is an \<open>int\<close>; it is read as a \<open>size_t\<close> where it meets the size of the vector.\<close>

definition getNextLoop :: "pool \<Rightarrow> (loop_id \<times> pool) outcome" where
  "getNextLoop p =
     (if pool_loops p \<noteq> []
      then bindO (guardO (0 \<le> next_index p)) (\<lambda>_.
           bindO (nthO (pool_loops p) (nat (next_index p))) (\<lambda>l.
           bindO (chk32 (next_index p + 1)) (\<lambda>i.
             Inr (l, p\<lparr>next_index := (if i \<ge> int (length (pool_loops p)) then 0 else i)\<rparr>))))
      else Inr (baseLoop p, p))"

text \<open>
  The destructor has an empty body; its members go: each \<open>EventLoopThread\<close> quits its loop, joins its
  thread and destroys the \<open>Thread\<close> object (steps that the theory of \<open>EventLoopThread\<close> has in
  detail), and with the threads go the loops that the pointers led to.
\<close>

definition pool_destroy :: "pool \<Rightarrow> pool" where
  "pool_destroy p = p\<lparr>threads := map (\<lambda>t. Thread_destroy (Thread_join t)) (threads p), pool_loops := []\<rparr>"

text \<open>The loops that a number of calls in a row return.\<close>

fun next_loops :: "nat \<Rightarrow> pool \<Rightarrow> (loop_id list \<times> pool) outcome" where
  "next_loops 0 p = Inr ([], p)"
| "next_loops (Suc k) p =
     bindO (getNextLoop p) (\<lambda>(l, p1). bindO (next_loops k p1) (\<lambda>(ls, p2). Inr (l # ls, p2)))"

section \<open>The invariant\<close>

definition pool_ok :: "pool \<Rightarrow> bool" where
  "pool_ok p \<longleftrightarrow> length (pool_loops p) = length (threads p) \<and> length (pool_loops p) < 2 ^ 31 \<and>
     pool_loops p = map IoLoop [0..<length (threads p)] \<and>
     0 \<le> next_index p \<and> (next_index p = 0 \<or> next_index p < int (length (pool_loops p)))"

text \<open>Where the pool stands: the number of loops, and the position of the next one.\<close>

lemma pool_ok_new [simp]: "pool_ok (pool_new base)"
  by (simp add: pool_ok_def pool_new_def)

lemma pool_ok_frame [simp]:
  "pool_ok (p\<lparr>numThreads := n\<rparr>) = pool_ok p" "pool_ok (p\<lparr>pool_started := b\<rparr>) = pool_ok p"
  by (simp_all add: pool_ok_def)

lemma start_threads_run:
  "pool_ok p \<Longrightarrow> int (length (threads p)) + int n < 2 ^ 31 \<Longrightarrow> start_threads created n p = Inr p' \<Longrightarrow>
   pool_ok p' \<and> length (threads p') = length (threads p) + n \<and> next_index p' = next_index p \<and>
   baseLoop p' = baseLoop p \<and> (\<forall>t \<in> set (threads p'). t \<in> set (threads p) \<or> started_flag t)"
proof (induction n arbitrary: p)
  case (Suc n)
  from Suc.prems(3) obtain p1 where p1: "start_one created p = Inr p1" "start_threads created n p1 = Inr p'"
    by (auto simp: outcome_simps)
  then obtain t where t: "Thread_start (created (length (threads p))) (Thread_new []) = Inr t"
    "p1 = p\<lparr>threads := threads p @ [t], pool_loops := pool_loops p @ [IoLoop (length (threads p))]\<rparr>"
    by (auto simp: start_one_def Let_def outcome_simps)
  have st: "started_flag t" using t(1) by (auto simp: Thread_start_def split: if_splits)
  have "pool_ok p1" "int (length (threads p1)) + int n < 2 ^ 31"
    using Suc.prems(1,2) t(2) by (auto simp: pool_ok_def)
  from Suc.IH [OF this p1(2)] t(2) st show ?case by auto
qed auto

lemma start_threads_total:
  "(\<forall>i. created i) \<Longrightarrow> \<exists>p'. start_threads created n p = Inr p'"
  by (induction n arbitrary: p) (auto simp: start_one_def Thread_start_def)

lemma getNextLoop_run:
  assumes ok: "pool_ok p" and n: "n = length (pool_loops p)"
  shows "\<exists>p'. getNextLoop p = Inr (if n = 0 then baseLoop p else IoLoop (nat (next_index p)), p') \<and>
    pool_ok p' \<and> pool_loops p' = pool_loops p \<and> baseLoop p' = baseLoop p \<and>
    next_index p' = (if n = 0 then next_index p else (next_index p + 1) mod int n)"
proof (cases "n = 0")
  case True
  with ok n show ?thesis by (simp add: getNextLoop_def)
next
  case False
  let ?i = "next_index p"
  have i: "0 \<le> ?i" "?i < int n" "n < 2 ^ 31" "pool_loops p = map IoLoop [0..<n]"
    using ok n False by (auto simp: pool_ok_def)
  then have at: "nthO (pool_loops p) (nat ?i) = Inr (IoLoop (nat ?i))" by simp
  have c: "chk32 (?i + 1) = Inr (?i + 1)" using i by (intro chk32_in) (simp add: in_i32_def)
  have m: "(if ?i + 1 \<ge> int n then 0 else ?i + 1) = (?i + 1) mod int n"
  proof (cases "?i + 1 = int n")
    case False
    with i(1,2) show ?thesis by (simp add: mod_pos_pos_trivial)
  qed simp
  let ?p' = "p\<lparr>next_index := (?i + 1) mod int n\<rparr>"
  have "getNextLoop p = Inr (IoLoop (nat ?i), ?p')"
    using False n i(1) at c m by (simp add: getNextLoop_def)
  moreover have "pool_ok ?p'" using ok n i(1,2) False by (auto simp: pool_ok_def)
  ultimately show ?thesis using False by simp
qed

text \<open>Turn by turn: from position \<open>i\<close> of \<open>n\<close> loops, the calls return \<open>i\<close>, \<open>i + 1\<close>, \dots\ modulo \<open>n\<close>.\<close>

lemma next_loops_run:
  "pool_ok p \<Longrightarrow> n = length (pool_loops p) \<Longrightarrow>
   \<exists>p'. next_loops k p =
     Inr (map (\<lambda>j. if n = 0 then baseLoop p else IoLoop ((nat (next_index p) + j) mod n)) [0..<k], p')"
proof (induction k arbitrary: p)
  case (Suc k)
  from getNextLoop_run [OF Suc.prems] obtain p1 where p1:
    "getNextLoop p = Inr (if n = 0 then baseLoop p else IoLoop (nat (next_index p)), p1)" "pool_ok p1"
    "pool_loops p1 = pool_loops p" "baseLoop p1 = baseLoop p"
    "next_index p1 = (if n = 0 then next_index p else (next_index p + 1) mod int n)" by blast
  from Suc.IH [OF p1(2)] p1(3) Suc.prems(2) obtain p2 where p2: "next_loops k p1 =
      Inr (map (\<lambda>j. if n = 0 then baseLoop p1 else IoLoop ((nat (next_index p1) + j) mod n)) [0..<k], p2)"
    by auto
  have pos: "0 \<le> next_index p" "n \<noteq> 0 \<Longrightarrow> nat (next_index p) < n"
    using Suc.prems by (auto simp: pool_ok_def)
  have "(if n = 0 then baseLoop p1 else IoLoop ((nat (next_index p1) + j) mod n)) =
      (if n = 0 then baseLoop p else IoLoop ((nat (next_index p) + Suc j) mod n))" for j
  proof (cases "n = 0")
    case False
    have "nat (next_index p1) = (nat (next_index p) + 1) mod n"
      using False pos(1) p1(5) by (simp add: nat_mod_distrib nat_add_distrib)
    with False show ?thesis by (simp add: mod_simps)
  qed (simp add: p1(4))
  moreover have "(if n = 0 then baseLoop p else IoLoop (nat (next_index p))) =
      (if n = 0 then baseLoop p else IoLoop ((nat (next_index p) + 0) mod n))" using pos(2) by simp
  moreover have "[0..<Suc k] = 0 # map Suc [0..<k]" by (metis map_Suc_upt upt_conv_Cons zero_less_Suc)
  ultimately show ?case using p1(1) p2 by (auto simp: comp_def)
qed simp

lemma started_pool:
  assumes "in_i32 n" and "pool_start created (pool_setThreadNum n (pool_new base)) = Inr p"
  shows "pool_ok p" "nat n = length (pool_loops p)" "next_index p = 0" "baseLoop p = base"
proof -
  let ?p0 = "(pool_setThreadNum n (pool_new base))\<lparr>pool_started := True\<rparr>"
  have ok: "pool_ok ?p0" by (simp add: pool_setThreadNum_def)
  have room: "int (length (threads ?p0)) + int (nat n) < 2 ^ 31"
    using assms(1) by (simp add: pool_setThreadNum_def pool_new_def in_i32_def)
  have run: "start_threads created (nat n) ?p0 = Inr p"
    using assms(2) by (simp add: pool_start_def pool_setThreadNum_def)
  show "pool_ok p" "nat n = length (pool_loops p)" "next_index p = 0" "baseLoop p = base"
    using start_threads_run [OF ok room run]
    by (auto simp: pool_setThreadNum_def pool_new_def pool_ok_def [of p])
qed

lemma count_mod: "0 < n \<Longrightarrow> i < n \<Longrightarrow>
  length (filter (\<lambda>j. j mod n = i) [0..<k]) = k div n + (if i < k mod n then 1 else 0)" for n i k :: nat
proof (induction k)
  case (Suc k)
  let ?r = "k mod n"
  have r: "?r < n" using Suc.prems(1) by simp
  have IH: "length (filter (\<lambda>j. j mod n = i) [0..<k]) = k div n + (if i < ?r then 1 else 0)"
    using Suc by blast
  have "length (filter (\<lambda>j. j mod n = i) [0..<Suc k]) =
      length (filter (\<lambda>j. j mod n = i) [0..<k]) + (if ?r = i then 1 else 0)" by simp
  moreover have "Suc k div n + (if i < Suc k mod n then 1 else 0) =
      k div n + (if i < ?r then 1 else 0) + (if ?r = i then 1 else (0 :: nat))"
    using Suc.prems(2) r by (cases "Suc ?r = n") (simp_all add: mod_Suc div_Suc)
  ultimately show ?case using IH by simp
qed simp

section \<open>Properties\<close>

text \<open>The reference: connection number \<open>j\<close> belongs to loop \<open>j mod n\<close>, or to the base loop.\<close>

definition round_robin :: "int \<Rightarrow> loop_id \<Rightarrow> nat \<Rightarrow> loop_id" where
  "round_robin n base j = (if n \<le> 0 then base else IoLoop (j mod nat n))"

text \<open>
  A pool of \<open>n\<close> threads hands its loops out in rotation: once started, the calls of
  \<open>getNextLoop\<close> return loop \<open>j mod n\<close> for the j-th call, and the base loop where there are no
  threads (or a negative number was set).  The index never leaves the vector and never overflows,
  however many calls there are.
\<close>

theorem getNextLoop_round_robin:
  assumes "in_i32 n" and "pool_start created (pool_setThreadNum n (pool_new base)) = Inr p"
  shows "\<exists>p'. next_loops k p = Inr (map (round_robin n base) [0..<k], p')"
proof -
  note p = started_pool [OF assms]
  from next_loops_run [OF p(1,2), of k] p(3,4) show ?thesis
    by (auto simp: round_robin_def cong: map_cong)
qed

theorem getNextLoop_round_robin_witness:
  "\<exists>p p'. pool_start (\<lambda>_. True) (pool_setThreadNum 3 (pool_new BaseLoop)) = Inr p \<and>
     next_loops 5 p = Inr ([IoLoop 0, IoLoop 1, IoLoop 2, IoLoop 0, IoLoop 1], p')"
proof -
  obtain p where p: "pool_start (\<lambda>_. True) (pool_setThreadNum 3 (pool_new BaseLoop)) = Inr p"
    using start_threads_total [of "\<lambda>_. True"] by (auto simp: pool_start_def)
  have "map (round_robin 3 BaseLoop) [0..<5] = [IoLoop 0, IoLoop 1, IoLoop 2, IoLoop 0, IoLoop 1]"
    by code_simp
  with getNextLoop_round_robin [OF _ p, of 5] p show ?thesis by (auto simp: in_i32_def)
qed

text \<open>
  The load is even: after any number of calls, two loops of the pool have been handed out
  equally often, up to one.
\<close>

theorem pool_load_even:
  assumes "in_i32 n" and "pool_start created (pool_setThreadNum n (pool_new base)) = Inr p"
    and "next_loops k p = Inr (ls, p')" and "int i < n" and "int j < n"
  shows "count_list ls (IoLoop i) \<le> count_list ls (IoLoop j) + 1"
proof -
  note p = started_pool [OF assms(1,2)]
  from next_loops_run [OF p(1,2), of k] assms(3,4) p(3)
  have ls: "ls = map (\<lambda>j. IoLoop (j mod nat n)) [0..<k]" by auto
  have "count_list ls (IoLoop m) = k div nat n + (if m < k mod nat n then 1 else 0)" if "int m < n" for m
  proof -
    have "count_list ls (IoLoop m) = length (filter (\<lambda>j. j mod nat n = m) [0..<k])"
    proof -
      have "(\<lambda>j. IoLoop m = IoLoop (j mod nat n)) = (\<lambda>j. j mod nat n = m)" by auto
      then show ?thesis unfolding ls count_list_eq_length_filter by (simp add: filter_map comp_def)
    qed
    also have "\<dots> = k div nat n + (if m < k mod nat n then 1 else 0)"
      using that by (intro count_mod) auto
    finally show ?thesis .
  qed
  with assms(4,5) show ?thesis by simp
qed

theorem pool_load_even_witness:
  "\<exists>p ls p'. pool_start (\<lambda>_. True) (pool_setThreadNum 2 (pool_new BaseLoop)) = Inr p \<and>
     next_loops 3 p = Inr (ls, p') \<and> count_list ls (IoLoop 0) \<le> count_list ls (IoLoop 1) + 1"
proof -
  obtain p where p: "pool_start (\<lambda>_. True) (pool_setThreadNum 2 (pool_new BaseLoop)) = Inr p"
    using start_threads_total [of "\<lambda>_. True"] by (auto simp: pool_start_def)
  have n: "in_i32 2" by (simp add: in_i32_def)
  obtain ls p' where "next_loops 3 p = Inr (ls, p')"
    using next_loops_run [OF started_pool(1,2) [OF n p], of 3] by blast
  with p pool_load_even [OF n p, of 3 ls p' 0 1] show ?thesis by auto
qed

end
