(* ===== verification/Servers.thy ===== *)
theory Servers
  imports Acceptors ThreadPools
begin

text \<open>
  \<open>TcpServer.h\<close>, \<open>TcpServer.cc\<close>: the server puts the parts together.  It accepts connections in
  its base loop, gives each to a loop of the pool, keeps it in the map \<open>connections_\<close> under its
  name, and hands functors to the loops.

  \<^item> Objects of class \<open>TcpConnection\<close> live on a heap \<open>objects\<close>, each with the loop it belongs to; a
    \<open>TcpConnectionPtr\<close> is an address there.  The connections of one loop share that loop's poller:
    an operation of a connection runs on the poller of its loop and leaves the poller it returns.
  \<^item> \<open>tasks l\<close> are the functors of the server that wait in loop \<open>l\<close>, in the order in which the
    loop will call them (the theory of the event loop shows that this is the order of queueing).
    \<open>runInLoop\<close> runs a functor at once in the loop's own thread, which is \<open>here\<close>.
  \<^item> The user's connection callback, the kernel's replies, the addresses \<open>new\<close> returns and what
    uninitialised memory holds are arguments.
\<close>

section \<open>State\<close>

datatype server_task = Established nat | Destroyed nat | RemoveInLoop nat | Listen reply

record server =
  srv_name :: string
  srv_acceptor :: acceptor
  threadPool :: pool
  srv_started :: bool
  nextConnId :: int
  connections :: "string \<rightharpoonup> nat"
  objects :: "nat \<rightharpoonup> loop_id \<times> tcp_conn"
  pollers :: "loop_id \<Rightarrow> conn_callback poller"
  tasks :: "loop_id \<Rightarrow> server_task list"

type_synonym world = "server \<times> log_env"

text \<open>What the environment supplies to one call of \<open>newConnection\<close>.\<close>

record resources =
  new_object :: nat
  new_channel :: cptr
  new_memory :: conn_memory
  sockname :: "reply \<times> sockaddr_in"
  writes :: "io_call list \<Rightarrow> int"
  reads :: "io_call list \<Rightarrow> readv_reply"

definition TcpServer_cc :: string where
  "TcpServer_cc = ''TcpServer.cc''"

section \<open>Operations\<close>

definition TcpServer_new ::
    "sockaddr_in \<Rightarrow> fcntl \<Rightarrow> reply \<Rightarrow> (int \<Rightarrow> reply) \<Rightarrow> reply \<Rightarrow> cptr \<Rightarrow> conn_callback \<Rightarrow>
     (loop_id \<Rightarrow> conn_callback poller) \<Rightarrow> log_env \<Rightarrow> world outcome" where
  "TcpServer_new listenAddr fcntl socket_reply setsockopt bind_reply p cb pls e =
     bindO (Acceptor_new fcntl socket_reply setsockopt bind_reply p cb (pls BaseLoop) e) (\<lambda>(a, pl, e1).
       Inr (\<lparr>srv_name = InetAddress_toHostPort listenAddr, srv_acceptor = a, threadPool = pool_new BaseLoop,
             srv_started = False, nextConnId = 1, connections = Map.empty, objects = Map.empty,
             pollers = pls(BaseLoop := pl), tasks = (\<lambda>_. [])\<rparr>, e1))"

definition setThreadNum :: "int \<Rightarrow> server \<Rightarrow> server" where
  "setThreadNum n s = s\<lparr>threadPool := pool_setThreadNum n (threadPool s)\<rparr>"

text \<open>An operation of a connection, on the poller of its loop.\<close>

definition on_object :: "nat \<Rightarrow> (tcp_conn \<Rightarrow> tcp_conn outcome) \<Rightarrow> server \<Rightarrow> server outcome" where
  "on_object c f s =
     bindO (deref (objects s) c) (\<lambda>(l, conn).
     bindO (f (conn\<lparr>loop_poller := pollers s l\<rparr>)) (\<lambda>conn1.
       Inr (s\<lparr>objects := (objects s)(c \<mapsto> (l, conn1)),
              pollers := (pollers s)(l := loop_poller conn1)\<rparr>)))"

definition queue_task :: "loop_id \<Rightarrow> server_task \<Rightarrow> server \<Rightarrow> server" where
  "queue_task l t s = s\<lparr>tasks := (tasks s)(l := tasks s l @ [t])\<rparr>"

definition removeConnectionInLoop :: "nat \<Rightarrow> world \<Rightarrow> world outcome" where
  "removeConnectionInLoop c w =
     (case w of (s, e) \<Rightarrow>
        bindO (deref (objects s) c) (\<lambda>(ioLoop, conn).
        bindO (log_or_die (LOG_INFO TcpServer_cc 71
                 [Chars ''TcpServer::removeConnectionInLoop ['', Chars (srv_name s),
                  Chars ''] - connection '', Chars (name conn)] e)) (\<lambda>e1.
          Inr (queue_task ioLoop (Destroyed c)
                 (s\<lparr>connections := (connections s)(name conn := None)\<rparr>), e1))))"

fun run_task :: "conn_user \<Rightarrow> server_task \<Rightarrow> world \<Rightarrow> world outcome" where
  "run_task cb (Established c) (s, e) = bindO (on_object c (connectEstablished cb) s) (\<lambda>s1. Inr (s1, e))"
| "run_task cb (Destroyed c) (s, e) = bindO (on_object c (connectDestroyed cb) s) (\<lambda>s1. Inr (s1, e))"
| "run_task cb (RemoveInLoop c) w = removeConnectionInLoop c w"
| "run_task cb (Listen r) (s, e) =
     bindO (Acceptor_listen r (srv_acceptor s) (pollers s BaseLoop) e) (\<lambda>(a, pl, e1).
       Inr (s\<lparr>srv_acceptor := a, pollers := (pollers s)(BaseLoop := pl)\<rparr>, e1))"

definition task_runInLoop :: "conn_user \<Rightarrow> loop_id \<Rightarrow> loop_id \<Rightarrow> server_task \<Rightarrow> world \<Rightarrow> world outcome" where
  "task_runInLoop cb here l t w =
     (if here = l then run_task cb t w else Inr (queue_task l t (fst w), snd w))"

definition server_start ::
    "conn_user \<Rightarrow> (nat \<Rightarrow> bool) \<Rightarrow> reply \<Rightarrow> loop_id \<Rightarrow> world \<Rightarrow> world outcome" where
  "server_start cb created listen_reply here w =
     (case w of (s, e) \<Rightarrow>
        bindO (if \<not> srv_started s
               then bindO (pool_start created (threadPool s)) (\<lambda>p.
                      Inr (s\<lparr>srv_started := True, threadPool := p\<rparr>))
               else Inr s) (\<lambda>s1.
          if \<not> listenning (srv_acceptor s1)
          then task_runInLoop cb here BaseLoop (Listen listen_reply) (s1, e)
          else Inr (s1, e)))"

definition connection_name :: "string \<Rightarrow> int \<Rightarrow> string" where
  "connection_name base k = base @ snprintf 32 (CHR ''#'' # dec_int k)"

definition newConnection :: "conn_user \<Rightarrow> resources \<Rightarrow> server new_connection" where
  "newConnection cb su sockfd peer w =
     (case w of (s, e) \<Rightarrow>
        let connName = connection_name (srv_name s) (nextConnId s) in
        bindO (chk32 (nextConnId s + 1)) (\<lambda>n.
        let s1 = s\<lparr>nextConnId := n\<rparr> in
        bindO (log_or_die (LOG_INFO TcpServer_cc 52
                 [Chars ''TcpServer::newConnection ['', Chars (srv_name s1),
                  Chars ''] - new connection ['', Chars connName, Chars ''] from '',
                  Chars (InetAddress_toHostPort peer)] e)) (\<lambda>e1.
        bindO (getLocalAddr (fst (sockname su)) (snd (sockname su)) e1) (\<lambda>(local, e2).
        bindO (getNextLoop (threadPool s1)) (\<lambda>(ioLoop, p).
        bindO (TcpConnection_new connName sockfd local peer (new_memory su) (new_channel su)
                 (pollers s1 ioLoop) (writes su) (reads su)) (\<lambda>conn.
        let s2 = s1\<lparr>threadPool := p, objects := (objects s1)(new_object su \<mapsto> (ioLoop, conn)),
                    pollers := (pollers s1)(ioLoop := loop_poller conn),
                    connections := (connections s1)(connName \<mapsto> new_object su)\<rparr>
        in task_runInLoop cb BaseLoop ioLoop (Established (new_object su)) (s2, e2)))))))"

definition removeConnection :: "conn_user \<Rightarrow> loop_id \<Rightarrow> nat \<Rightarrow> world \<Rightarrow> world outcome" where
  "removeConnection cb here c w = task_runInLoop cb here BaseLoop (RemoveInLoop c) w"

text \<open>The listening socket is readable: the acceptor's \<open>handleRead\<close> with \<open>newConnection\<close> bound.\<close>

definition server_handleRead ::
    "conn_user \<Rightarrow> resources \<Rightarrow> fcntl \<Rightarrow> reply \<Rightarrow> sockaddr_in \<Rightarrow> reply \<Rightarrow> world \<Rightarrow> world outcome" where
  "server_handleRead cb su fcntl accept_reply peer close_reply w =
     Acceptor_handleRead fcntl accept_reply peer close_reply (Some (newConnection cb su)) (fst w) (snd w)"

section \<open>Steps\<close>

text \<open>
  What happens to a server: the listening socket is readable, \<open>start\<close> is called again, a loop
  runs its next functor, an established connection gets an event or a call.  With
  \<open>closing\<close>, also the close callback of a connection runs, in any thread; the constructor of
  the connection is told that callback, but no code of the library calls it.
\<close>

inductive server_step :: "conn_user \<Rightarrow> bool \<Rightarrow> world \<Rightarrow> world \<Rightarrow> bool"
  for cb :: conn_user and closing :: bool where
  accepts: "objects (fst w) (new_object su) = None \<Longrightarrow> listenning (srv_acceptor (fst w)) \<Longrightarrow>
    server_handleRead cb su fcntl reply peer close_reply w = Inr w' \<Longrightarrow> server_step cb closing w w'"
| restarts: "server_start cb created reply here w = Inr w' \<Longrightarrow> server_step cb closing w w'"
| runs: "tasks s l = t # ts \<Longrightarrow> run_task cb t (s\<lparr>tasks := (tasks s)(l := ts)\<rparr>, e) = Inr w' \<Longrightarrow>
    server_step cb closing (s, e) w'"
| works: "objects s c = Some (l, conn) \<Longrightarrow> state conn \<noteq> None \<Longrightarrow> on_object c (conn_do x) s = Inr s' \<Longrightarrow>
    server_step cb closing (s, e) (s', e)"
| closes: "closing \<Longrightarrow> objects (fst w) c \<noteq> None \<Longrightarrow> removeConnection cb here c w = Inr w' \<Longrightarrow>
    server_step cb closing w w'"

text \<open>A server as its constructor and a \<open>setThreadNum(n)\<close> leave it.\<close>

definition fresh_server :: "int \<Rightarrow> world \<Rightarrow> bool" where
  "fresh_server n w \<longleftrightarrow>
     nextConnId (fst w) = 1 \<and> connections (fst w) = Map.empty \<and> objects (fst w) = Map.empty \<and>
     tasks (fst w) = (\<lambda>_. []) \<and> \<not> srv_started (fst w) \<and> \<not> listenning (srv_acceptor (fst w)) \<and>
     threadPool (fst w) = pool_setThreadNum n (pool_new BaseLoop)"

lemma constructed_fresh:
  "TcpServer_new addr fcntl sr so br p cb pls e = Inr (s, e') \<Longrightarrow> fresh_server n (setThreadNum n s, e')"
  by (auto simp: TcpServer_new_def Acceptor_new_def fresh_server_def setThreadNum_def pool_setThreadNum_def
      outcome_simps split: prod.splits)

section \<open>The life of a connection in the server\<close>

text \<open>
  What the queues owe to connection \<open>c\<close> of loop \<open>l\<close>: exactly one \<open>connectEstablished\<close>, in its own
  loop, until it has run; \<open>connectDestroyed\<close> only in its own loop, and behind it.
\<close>

definition established_first :: "nat \<Rightarrow> server_task list \<Rightarrow> bool" where
  "established_first c ts \<longleftrightarrow> Destroyed c \<notin> set (takeWhile (\<lambda>t. t \<noteq> Established c) ts)"

definition life :: "nat \<Rightarrow> loop_id \<Rightarrow> StateE option \<Rightarrow> (loop_id \<Rightarrow> server_task list) \<Rightarrow> bool" where
  "life c l st q \<longleftrightarrow>
     (\<forall>l'. count_list (q l') (Established c) = (if l' = l \<and> st = None then 1 else 0)) \<and>
     (\<forall>l'. l' \<noteq> l \<longrightarrow> Destroyed c \<notin> set (q l')) \<and>
     (st = None \<longrightarrow> established_first c (q l))"

lemma established_first_snoc:
  "established_first c ts \<Longrightarrow> Established c \<in> set ts \<or> t \<noteq> Destroyed c \<Longrightarrow> established_first c (ts @ [t])"
  by (induction ts) (auto simp: established_first_def)

lemma life_push:
  assumes "life c l st q" "t \<noteq> Established c" "t = Destroyed c \<Longrightarrow> l' = l"
  shows "life c l st (q(l' := q l' @ [t]))"
proof -
  have "Established c \<in> set (q l)" if "st = None"
    using assms(1) that count_list_0_iff [of "q l" "Established c"] by (simp add: life_def)
  then show ?thesis
    using assms by (auto simp: life_def intro: established_first_snoc)
qed

lemma lifeD:
  assumes "life c l st q"
  shows "count_list (q l') (Established c) = (if l' = l \<and> st = None then 1 else 0)"
    "l' \<noteq> l \<Longrightarrow> Destroyed c \<notin> set (q l')" "st = None \<Longrightarrow> established_first c (q l)"
  using assms unfolding life_def by blast+

lemma lifeI:
  assumes "\<And>l'. count_list (q l') (Established c) = (if l' = l \<and> st = None then 1 else 0)"
    "\<And>l'. l' \<noteq> l \<Longrightarrow> Destroyed c \<notin> set (q l')" "st = None \<Longrightarrow> established_first c (q l)"
  shows "life c l st q"
  using assms unfolding life_def by blast

lemma life_pop:
  assumes "life c l st q" "q l' = t # ts" "t \<noteq> Established c"
  shows "life c l st (q(l' := ts))"
proof (rule lifeI)
  show "count_list ((q(l' := ts)) m) (Established c) = (if m = l \<and> st = None then 1 else 0)" for m
    using lifeD(1) [OF assms(1), of m] assms(2,3) by (cases "m = l'") simp_all
  show "Destroyed c \<notin> set ((q(l' := ts)) m)" if "m \<noteq> l" for m
    using lifeD(2) [OF assms(1) that] assms(2) by (cases "m = l'") simp_all
  show "established_first c ((q(l' := ts)) l)" if "st = None"
    using lifeD(3) [OF assms(1) that] assms(2,3)
    by (cases "l = l'") (auto simp: established_first_def split: if_splits)
qed

lemma life_pop_established:
  assumes "life c l st q" "q l' = Established c # ts"
  shows "l' = l \<and> st = None \<and> life c l (Some st') (q(l' := ts))"
proof -
  have n: "count_list (q l') (Established c) = Suc (count_list ts (Established c))" using assms(2) by simp
  with lifeD(1) [OF assms(1), of l'] have e: "l' = l" "st = None" "count_list ts (Established c) = 0"
    by (auto split: if_splits)
  have "life c l (Some st') (q(l' := ts))"
  proof (rule lifeI)
    show "count_list ((q(l' := ts)) m) (Established c) = (if m = l \<and> Some st' = None then 1 else 0)" for m
      using lifeD(1) [OF assms(1), of m] e by (cases "m = l'") simp_all
    show "Destroyed c \<notin> set ((q(l' := ts)) m)" if "m \<noteq> l" for m
      using lifeD(2) [OF assms(1) that] that e by simp
  qed simp
  with e show ?thesis by simp
qed

text \<open>A connection that no queue mentions yet.\<close>

lemma life_new:
  assumes "\<And>m. Established c \<notin> set (q m)" "\<And>m. Destroyed c \<notin> set (q m)"
  shows "life c l (Some st) q" and "life c l None (q(l := q l @ [Established c]))"
proof -
  have z: "count_list (q m) (Established c) = 0" for m using assms(1) by (simp add: count_list_0_iff)
  show "life c l (Some st) q" by (rule lifeI) (simp_all add: z assms(2))
  have "takeWhile (\<lambda>t. t \<noteq> Established c) (q l @ [Established c]) = q l"
    using assms(1) [of l] by (subst takeWhile_append2) auto
  then show "life c l None (q(l := q l @ [Established c]))"
    by (intro lifeI) (auto simp: z assms(2) established_first_def)
qed

section \<open>The invariant\<close>

definition named :: "server \<Rightarrow> tcp_conn \<Rightarrow> bool" where
  "named s conn \<longleftrightarrow> (\<exists>k. 1 \<le> k \<and> k < nextConnId s \<and> name conn = connection_name (srv_name s) k)"

fun task_known :: "server \<Rightarrow> server_task \<Rightarrow> bool" where
  "task_known s (Established c) = (objects s c \<noteq> None)"
| "task_known s (Destroyed c) = (objects s c \<noteq> None)"
| "task_known s (RemoveInLoop c) = (objects s c \<noteq> None)"
| "task_known s (Listen r) = True"

definition object_ok :: "server \<Rightarrow> nat \<Rightarrow> bool" where
  "object_ok s c \<longleftrightarrow> (case objects s c of None \<Rightarrow> True
     | Some (l, conn) \<Rightarrow> named s conn \<and> life c l (state conn) (tasks s))"

definition server_inv :: "server \<Rightarrow> bool" where
  "server_inv s \<longleftrightarrow> 1 \<le> nextConnId s \<and> nextConnId s < 2 ^ 31 \<and>
     (\<forall>n c. connections s n = Some c \<longrightarrow> (\<exists>l conn. objects s c = Some (l, conn) \<and> name conn = n)) \<and>
     (\<forall>c. object_ok s c) \<and>
     (\<forall>c d l m x y. objects s c = Some (l, x) \<and> objects s d = Some (m, y) \<and> name x = name y \<longrightarrow> c = d) \<and>
     (\<forall>l. \<forall>t \<in> set (tasks s l). task_known s t)"

lemma server_invD:
  assumes "server_inv s"
  shows "1 \<le> nextConnId s" "nextConnId s < 2 ^ 31"
    "connections s n = Some c \<Longrightarrow> \<exists>l conn. objects s c = Some (l, conn) \<and> name conn = n"
    "objects s c = Some (l, conn) \<Longrightarrow> named s conn \<and> life c l (state conn) (tasks s)"
    "objects s c = Some (l, x) \<Longrightarrow> objects s d = Some (m, y) \<Longrightarrow> name x = name y \<Longrightarrow> c = d"
    "t \<in> set (tasks s l) \<Longrightarrow> task_known s t"
proof -
  show "objects s c = Some (l, conn) \<Longrightarrow> named s conn \<and> life c l (state conn) (tasks s)"
  proof -
    assume "objects s c = Some (l, conn)"
    moreover have "object_ok s c" using assms by (simp add: server_inv_def)
    ultimately show ?thesis by (simp add: object_ok_def)
  qed
qed (use assms in \<open>unfold server_inv_def, blast+\<close>)

lemma server_invI:
  assumes "1 \<le> nextConnId s" "nextConnId s < 2 ^ 31"
    "\<And>n c. connections s n = Some c \<Longrightarrow> \<exists>l conn. objects s c = Some (l, conn) \<and> name conn = n"
    "\<And>c l conn. objects s c = Some (l, conn) \<Longrightarrow> named s conn \<and> life c l (state conn) (tasks s)"
    "\<And>c d l m x y. objects s c = Some (l, x) \<Longrightarrow> objects s d = Some (m, y) \<Longrightarrow> name x = name y \<Longrightarrow> c = d"
    "\<And>l t. t \<in> set (tasks s l) \<Longrightarrow> task_known s t"
  shows "server_inv s"
  unfolding server_inv_def object_ok_def
  using assms by (auto split: option.splits)

text \<open>Names: the number of a connection can be read off its name.\<close>

lemma connection_name_inj:
  assumes "1 \<le> j" "j < 2 ^ 31" "1 \<le> k" "k < 2 ^ 31" "connection_name base j = connection_name base k"
  shows "j = k"
proof -
  have len: "length (dec_int i) \<le> 11" if "1 \<le> i" "i < 2 ^ 31" for i
    using that by (intro length_dec_int) (simp add: in_i32_def)
  then have "snprintf 32 (CHR ''#'' # dec_int i) = CHR ''#'' # dec_int i" if "1 \<le> i" "i < 2 ^ 31" for i
    using that by (simp add: snprintf_def order_trans [OF len])
  then have "dec_int j = dec_int k" using assms by (simp add: connection_name_def)
  then have "nat j = nat k" using assms by (simp add: dec_int_def)
  with assms show ?thesis by simp
qed

section \<open>Every step keeps the invariant\<close>

lemma life_cong: "life c l st q \<Longrightarrow> (st = None) = (st' = None) \<Longrightarrow> life c l st' q"
  by (simp add: life_def)

text \<open>A change of queues and map entries.\<close>

lemma server_inv_frame:
  assumes inv: "server_inv s"
    and same: "objects s' = objects s" "nextConnId s' = nextConnId s" "srv_name s' = srv_name s"
    and sub: "\<And>n c. connections s' n = Some c \<Longrightarrow> connections s n = Some c"
    and known: "\<And>l t. t \<in> set (tasks s' l) \<Longrightarrow> task_known s t"
    and life: "\<And>c l conn. objects s c = Some (l, conn) \<Longrightarrow> life c l (state conn) (tasks s')"
  shows "server_inv s'"
proof (rule server_invI)
  show "task_known s' t" if "t \<in> set (tasks s' l)" for l t
    using known [OF that] by (cases t) (simp_all add: same)
  show "named s' conn \<and> life c l (state conn) (tasks s')" if "objects s' c = Some (l, conn)" for c l conn
    using that server_invD(4) [OF inv] life by (simp add: named_def same)
  show "\<exists>l conn. objects s' c = Some (l, conn) \<and> name conn = n" if "connections s' n = Some c" for n c
    using server_invD(3) [OF inv sub [OF that]] by (simp add: same)
  show "c = d" if "objects s' c = Some (l, x)" "objects s' d = Some (m, y)" "name x = name y" for c d l m x y
    using that server_invD(5) [OF inv] by (simp only: same)
qed (use server_invD(1,2) [OF inv] in \<open>simp_all add: same\<close>)

text \<open>A change of one connection that keeps its name, after queues have shrunk.\<close>

lemma change_object:
  assumes inv: "server_inv s" and c: "objects s c = Some (l, conn)"
    and s': "objects s' = (objects s)(c \<mapsto> (l, conn1))" "nextConnId s' = nextConnId s"
      "srv_name s' = srv_name s" "connections s' = connections s"
    and n: "name conn1 = name conn"
    and q: "\<And>m t. t \<in> set (tasks s' m) \<Longrightarrow> t \<in> set (tasks s m)"
    and lc: "life c l (state conn1) (tasks s')"
    and lo: "\<And>d m y. d \<noteq> c \<Longrightarrow> objects s d = Some (m, y) \<Longrightarrow> life d m (state y) (tasks s')"
  shows "server_inv s'"
proof (rule server_invI)
  have same: "\<exists>m y'. objects s d = Some (m, y') \<and> name y' = name y" if "objects s' d = Some (k, y)" for d k y
    using that c n by (cases "d = c") (auto simp: s')
  show "task_known s' t" if "t \<in> set (tasks s' m)" for m t
    using server_invD(6) [OF inv q [OF that]] by (cases t) (simp_all add: s')
  show "named s' y \<and> life d m (state y) (tasks s')" if "objects s' d = Some (m, y)" for d m y
  proof (cases "d = c")
    case True
    with that have "m = l" "y = conn1" by (simp_all add: s')
    with True lc n server_invD(4) [OF inv c] show ?thesis by (simp add: named_def s')
  next
    case False
    with that have "objects s d = Some (m, y)" by (simp add: s')
    with lo [OF False] server_invD(4) [OF inv] show ?thesis by (simp add: named_def s')
  qed
  show "\<exists>l conn. objects s' d = Some (l, conn) \<and> name conn = k" if "connections s' k = Some d" for k d
    using server_invD(3) [OF inv, of k d] that c n by (cases "d = c") (auto simp: s')
  show "d = d'" if "objects s' d = Some (m, x)" "objects s' d' = Some (m', y)" "name x = name y" for d d' m m' x y
    using same [OF that(1)] same [OF that(2)] that(3) server_invD(5) [OF inv, of d _ _ d'] by auto
qed (use server_invD(1,2) [OF inv] in \<open>simp_all add: s'\<close>)

text \<open>A new connection.\<close>

lemma add_object:
  assumes inv: "server_inv s" and new: "objects s c = None" and room: "in_i32 (nextConnId s + 1)"
    and s': "objects s' = (objects s)(c \<mapsto> (l, conn))" "nextConnId s' = nextConnId s + 1"
      "srv_name s' = srv_name s" "connections s' = (connections s)(name conn \<mapsto> c)"
      "tasks s' = (if state conn = None then (tasks s)(l := tasks s l @ [Established c]) else tasks s)"
    and n: "name conn = connection_name (srv_name s) (nextConnId s)"
  shows "server_inv s'"
proof (rule server_invI)
  have no: "Established c \<notin> set (tasks s m)" "Destroyed c \<notin> set (tasks s m)" for m
    using server_invD(6) [OF inv, of _ m] new by force+
  have bound: "1 \<le> nextConnId s" "nextConnId s + 1 < 2 ^ 31"
    using server_invD(1) [OF inv] room by (simp_all add: in_i32_def)
  have fresh: "name y \<noteq> name conn" if o: "objects s d = Some (m, y)" for d m y
  proof
    assume "name y = name conn"
    moreover obtain k where "1 \<le> k" "k < nextConnId s" "name y = connection_name (srv_name s) k"
      using server_invD(4) [OF inv o] by (auto simp: named_def)
    ultimately show False using connection_name_inj [of k "nextConnId s"] n bound by auto
  qed
  show "task_known s' t" if "t \<in> set (tasks s' m)" for m t
  proof -
    from that have "t \<in> set (tasks s m) \<or> t = Established c" by (auto simp: s'(5) split: if_splits)
    then show ?thesis using server_invD(6) [OF inv, of t m] by (cases t) (auto simp: s'(1))
  qed
  show "named s' y \<and> life d m (state y) (tasks s')" if "objects s' d = Some (m, y)" for d m y
  proof (cases "d = c")
    case True
    with that have d: "m = l" "y = conn" by (simp_all add: s'(1))
    have "life c l (state conn) (tasks s')"
      using life_new [of c "tasks s" l, OF no] by (cases "state conn") (simp_all add: s'(5))
    with True d n bound show ?thesis by (auto simp: named_def s'(2,3))
  next
    case False
    with that have o: "objects s d = Some (m, y)" by (simp add: s'(1))
    then have "life d m (state y) (tasks s)" "named s y" using server_invD(4) [OF inv] by blast+
    with False show ?thesis by (auto simp: named_def s'(2,3,5) intro!: life_push)
  qed
  show "\<exists>l conn. objects s' d = Some (l, conn) \<and> name conn = k" if "connections s' k = Some d" for k d
    using that server_invD(3) [OF inv, of k d] new by (cases "k = name conn") (auto simp: s'(1,4))
  show "d = d'" if "objects s' d = Some (m, x)" "objects s' d' = Some (m', y)" "name x = name y" for d d' m m' x y
    using that fresh server_invD(5) [OF inv, of d m x d' m' y]
    by (cases "d = c"; cases "d' = c") (auto simp: s'(1))
  show "1 \<le> nextConnId s'" "nextConnId s' < 2 ^ 31" using bound by (simp_all add: s'(2))
qed

text \<open>
  What the user's connection callback can do to its connection: it sees it through the public
  interface, which neither renames it nor takes its state away.
\<close>

definition user_ok :: "conn_user \<Rightarrow> bool" where
  "user_ok cb \<longleftrightarrow> (\<forall>f t t'. cb = Some f \<and> f t = Inr t' \<longrightarrow> ident t t')"

lemma call_user_ident: "user_ok cb \<Longrightarrow> call_user cb t = Inr t' \<Longrightarrow> ident t t'"
  by (cases cb) (auto simp: call_user_def user_ok_def)

lemma on_poller_ident: "on_poller f t = Inr t' \<Longrightarrow> ident t t'"
  by (auto simp: on_poller_def outcome_simps ident_def)

lemma ident_initialised: "ident (setState st t) t' \<Longrightarrow> name t' = name t \<and> state t' \<noteq> None"
  by (simp add: ident_def setState_def)

lemma connectEstablished_ident:
  assumes "user_ok cb" "connectEstablished cb t = Inr t'"
  shows "name t' = name t \<and> state t' \<noteq> None"
proof -
  obtain t1 where "on_poller enableReading (setState kConnected t) = Inr t1" "call_user cb t1 = Inr t'"
    using assms(2) by (auto simp: connectEstablished_def outcome_simps)
  then have "ident (setState kConnected t) t'"
    using on_poller_ident call_user_ident [OF assms(1)] ident_trans by blast
  then show ?thesis by (rule ident_initialised)
qed

lemma connectDestroyed_ident:
  assumes "user_ok cb" "connectDestroyed cb t = Inr t'"
  shows "name t' = name t \<and> state t' \<noteq> None"
proof -
  obtain t1 t2 where "on_poller disableAll (setState kDisconnected t) = Inr t1" "call_user cb t1 = Inr t2"
    "on_poller removeChannel t2 = Inr t'"
    using assms(2) by (auto simp: connectDestroyed_def outcome_simps)
  then have "ident (setState kDisconnected t) t'"
    using on_poller_ident call_user_ident [OF assms(1)] ident_trans by blast
  then show ?thesis by (rule ident_initialised)
qed

lemma conn_do_near:
  assumes run: "conn_do x t = Inr t'"
  shows "ident t t' \<and> near (chan_ptr t) (loop_poller t) (loop_poller t')"
proof (cases x)
  case (Events r tm)
  let ?t = "upd_chan (set_revents r) t"
  have "conn_event tm ?t = Inr t'" using run Events by simp
  from conn_event_near [OF this] have "ident ?t t'" "near (chan_ptr ?t) (loop_poller ?t) (loop_poller t')"
    by blast+
  moreover have "near (chan_ptr t) (loop_poller t) (loop_poller ?t)"
    by (rule upd_chan_near) (simp add: set_revents_def)
  moreover have "chan_ptr ?t = chan_ptr t" by (simp add: upd_chan_def)
  ultimately show ?thesis using ident_trans ident_upd_chan near_trans by metis
next
  case (Send b m)
  with run have "chan_kept t t'" by (simp add: send_kept)
  then show ?thesis by (simp add: chan_kept_def)
next
  case (Shutdown b)
  with run have "chan_kept t t'" by (simp add: shutdown_kept)
  then show ?thesis by (simp add: chan_kept_def)
next
  case RunFunctor
  show ?thesis
  proof (cases "loop_functors t")
    case (Cons f fs)
    with RunFunctor run have "chan_kept (t\<lparr>loop_functors := fs\<rparr>) t'" by (simp add: functor_kept)
    then show ?thesis by (simp add: chan_kept_def ident_def)
  qed (use RunFunctor run in simp)
qed

lemmas conn_do_ident = conn_do_near [THEN conjunct1]

lemma on_objectE:
  assumes "on_object c f s = Inr s'"
  obtains l conn conn1 where "objects s c = Some (l, conn)"
    "f (conn\<lparr>loop_poller := pollers s l\<rparr>) = Inr conn1"
    "s' = s\<lparr>objects := (objects s)(c \<mapsto> (l, conn1)), pollers := (pollers s)(l := loop_poller conn1)\<rparr>"
  using assms by (auto simp: on_object_def outcome_simps split: prod.splits)

text \<open>Taking the first task of a queue.\<close>

lemma pop_life:
  assumes "server_inv s" "tasks s l = t # ts" "objects s d = Some (m, y)" "t \<noteq> Established d"
  shows "life d m (state y) ((tasks s)(l := ts))"
  using life_pop [of d m "state y" "tasks s" l t ts] server_invD(4) [OF assms(1,3)] assms(2,4) by blast

lemma popped_subset: "q l = t # ts \<Longrightarrow> u \<in> set ((q(l := ts)) m) \<Longrightarrow> u \<in> set (q m)"
  by (cases "m = l") auto

lemma pending_removal_known:
  assumes "server_inv s" "tasks s l = Destroyed c # ts"
  shows "\<exists>conn. objects s c = Some (l, conn) \<and> state conn \<noteq> None"
proof -
  have "Destroyed c \<in> set (tasks s l)" using assms(2) by simp
  then have "task_known s (Destroyed c)" by (rule server_invD(6) [OF assms(1)])
  then obtain m conn where c: "objects s c = Some (m, conn)" by auto
  have lf: "life c m (state conn) (tasks s)" using server_invD(4) [OF assms(1) c] by blast
  have "m = l" using lifeD(2) [OF lf, of l] assms(2) by auto
  moreover have "state conn \<noteq> None"
    using lifeD(3) [OF lf] assms(2) \<open>m = l\<close> by (auto simp: established_first_def)
  ultimately show ?thesis using c by auto
qed

lemma run_established_inv:
  assumes inv: "server_inv s" and q: "tasks s l = Established c # ts" and cb: "user_ok cb"
    and run: "on_object c (connectEstablished cb) (s\<lparr>tasks := (tasks s)(l := ts)\<rparr>) = Inr s'"
  shows "server_inv s'"
proof -
  from run obtain m conn conn1 where c: "objects s c = Some (m, conn)"
    and r: "connectEstablished cb (conn\<lparr>loop_poller := pollers s m\<rparr>) = Inr conn1"
    and s': "s' = s\<lparr>tasks := (tasks s)(l := ts), objects := (objects s)(c \<mapsto> (m, conn1)),
      pollers := (pollers s)(m := loop_poller conn1)\<rparr>"
    by (elim on_objectE) auto
  have n: "name conn1 = name conn" "state conn1 \<noteq> None" using connectEstablished_ident [OF cb r] by simp_all
  have "life c m (state conn) (tasks s)" using server_invD(4) [OF inv c] by blast
  then have lc: "life c m (state conn1) ((tasks s)(l := ts))"
    using life_pop_established [of c m "state conn" "tasks s" l ts] q n(2) by (cases "state conn1") auto
  show ?thesis
  proof (rule change_object [OF inv c _ _ _ _ n(1)])
    show "t \<in> set (tasks s k)" if "t \<in> set (tasks s' k)" for k t
      using that popped_subset [of "tasks s", OF q, of t k] by (simp add: s')
    show "life d k (state y) (tasks s')" if "d \<noteq> c" "objects s d = Some (k, y)" for d k y
      using pop_life [OF inv q that(2)] that(1) by (simp add: s')
  qed (use lc in \<open>simp_all add: s'\<close>)
qed

lemma run_destroyed_inv:
  assumes inv: "server_inv s" and q: "tasks s l = Destroyed c # ts" and cb: "user_ok cb"
    and run: "on_object c (connectDestroyed cb) (s\<lparr>tasks := (tasks s)(l := ts)\<rparr>) = Inr s'"
  shows "server_inv s'"
proof -
  from run obtain m conn conn1 where c: "objects s c = Some (m, conn)"
    and r: "connectDestroyed cb (conn\<lparr>loop_poller := pollers s m\<rparr>) = Inr conn1"
    and s': "s' = s\<lparr>tasks := (tasks s)(l := ts), objects := (objects s)(c \<mapsto> (m, conn1)),
      pollers := (pollers s)(m := loop_poller conn1)\<rparr>"
    by (elim on_objectE) auto
  have n: "name conn1 = name conn" "state conn1 \<noteq> None" using connectDestroyed_ident [OF cb r] by simp_all
  have st: "state conn \<noteq> None" using pending_removal_known [OF inv q] c by auto
  show ?thesis
  proof (rule change_object [OF inv c _ _ _ _ n(1)])
    show "t \<in> set (tasks s k)" if "t \<in> set (tasks s' k)" for k t
      using that popped_subset [of "tasks s", OF q, of t k] by (simp add: s')
    show "life d k (state y) (tasks s')" if "d \<noteq> c" "objects s d = Some (k, y)" for d k y
      using pop_life [OF inv q that(2)] by (simp add: s')
    show "life c m (state conn1) (tasks s')"
      using life_cong [OF pop_life [OF inv q c]] n(2) st by (simp add: s')
  qed (simp_all add: s')
qed

text \<open>Queueing a task of a connection that is known already.\<close>

lemma queue_inv:
  assumes inv: "server_inv s" and t: "task_known s t" "\<And>c. t \<noteq> Established c"
    and d: "\<And>c l' conn. t = Destroyed c \<Longrightarrow> objects s c = Some (l', conn) \<Longrightarrow> l = l'"
  shows "server_inv (queue_task l t s)"
proof (rule server_inv_frame [OF inv])
  show "task_known s u" if "u \<in> set (tasks (queue_task l t s) m)" for m u
    using that t(1) server_invD(6) [OF inv, of u m] by (auto simp: queue_task_def split: if_splits)
  show "life c m (state conn) (tasks (queue_task l t s))" if "objects s c = Some (m, conn)" for c m conn
  proof -
    have "life c m (state conn) (tasks s)" using server_invD(4) [OF inv that] by blast
    with t(2) d [OF _ that] show ?thesis by (simp add: queue_task_def life_push)
  qed
qed (simp_all add: queue_task_def)

lemma popped_inv:
  assumes inv: "server_inv s" and q: "tasks s l = t # ts" and t: "\<And>c. t \<noteq> Established c"
  shows "server_inv (s\<lparr>tasks := (tasks s)(l := ts)\<rparr>)"
proof (rule server_inv_frame [OF inv])
  show "task_known s u" if "u \<in> set (tasks (s\<lparr>tasks := (tasks s)(l := ts)\<rparr>) m)" for m u
    using that server_invD(6) [OF inv] popped_subset [of "tasks s", OF q, of u m] by simp
  show "life c m (state conn) (tasks (s\<lparr>tasks := (tasks s)(l := ts)\<rparr>))"
    if "objects s c = Some (m, conn)" for c m conn
    using pop_life [OF inv q that t] by simp
qed simp_all

lemma server_inv_simple [simp]:
  "server_inv (s\<lparr>srv_acceptor := a\<rparr>) = server_inv s" "server_inv (s\<lparr>pollers := pl\<rparr>) = server_inv s"
  "server_inv (s\<lparr>threadPool := p\<rparr>) = server_inv s" "server_inv (s\<lparr>srv_started := b\<rparr>) = server_inv s"
proof -
  have k: "task_known (s\<lparr>srv_acceptor := a\<rparr>) = task_known s" "task_known (s\<lparr>pollers := pl\<rparr>) = task_known s"
    "task_known (s\<lparr>threadPool := p\<rparr>) = task_known s" "task_known (s\<lparr>srv_started := b\<rparr>) = task_known s"
    by (rule ext, rename_tac t, case_tac t; simp)+
  show "server_inv (s\<lparr>srv_acceptor := a\<rparr>) = server_inv s" "server_inv (s\<lparr>pollers := pl\<rparr>) = server_inv s"
    "server_inv (s\<lparr>threadPool := p\<rparr>) = server_inv s" "server_inv (s\<lparr>srv_started := b\<rparr>) = server_inv s"
    by (simp_all add: server_inv_def object_ok_def named_def k cong: option.case_cong)
qed

lemma removeConnectionInLoop_inv:
  assumes inv: "server_inv s" and run: "removeConnectionInLoop c (s, e) = Inr w'"
  shows "server_inv (fst w')"
proof -
  from run obtain l conn e1 where c: "objects s c = Some (l, conn)"
    and w': "w' = (queue_task l (Destroyed c) (s\<lparr>connections := (connections s)(name conn := None)\<rparr>), e1)"
    by (auto simp: removeConnectionInLoop_def outcome_simps split: prod.splits)
  let ?s = "s\<lparr>connections := (connections s)(name conn := None)\<rparr>"
  have "server_inv ?s"
    by (rule server_inv_frame [OF inv])
      (use server_invD(4,6) [OF inv] in \<open>auto split: if_splits\<close>)
  then have "server_inv (queue_task l (Destroyed c) ?s)"
    by (rule queue_inv) (use c in auto)
  with w' show ?thesis by simp
qed

lemma run_task_inv:
  assumes inv: "server_inv s" and q: "tasks s l = t # ts" and cb: "user_ok cb"
    and run: "run_task cb t (s\<lparr>tasks := (tasks s)(l := ts)\<rparr>, e) = Inr w'"
  shows "server_inv (fst w')"
proof (cases t)
  case (Established c)
  with run q show ?thesis by (auto simp: outcome_simps intro: run_established_inv [OF inv _ cb])
next
  case (Destroyed c)
  with run q show ?thesis by (auto simp: outcome_simps intro: run_destroyed_inv [OF inv _ cb])
next
  case (RemoveInLoop c)
  with run have "removeConnectionInLoop c (s\<lparr>tasks := (tasks s)(l := ts)\<rparr>, e) = Inr w'" by simp
  moreover have "server_inv (s\<lparr>tasks := (tasks s)(l := ts)\<rparr>)"
    by (rule popped_inv [OF inv q]) (simp add: RemoveInLoop)
  ultimately show ?thesis using removeConnectionInLoop_inv by blast
next
  case (Listen r)
  have "server_inv (s\<lparr>tasks := (tasks s)(l := ts)\<rparr>)"
    by (rule popped_inv [OF inv q]) (simp add: Listen)
  with run Listen show ?thesis by (auto simp: outcome_simps split: prod.splits)
qed

lemma runInLoop_inv:
  assumes inv: "server_inv s" and t: "t = RemoveInLoop c \<and> objects s c \<noteq> None \<or> t = Listen r"
    and run: "task_runInLoop cb here BaseLoop t (s, e) = Inr w'"
  shows "server_inv (fst w')"
proof (cases "here = BaseLoop")
  case True
  from t show ?thesis
  proof
    assume "t = RemoveInLoop c \<and> objects s c \<noteq> None"
    with True run have "removeConnectionInLoop c (s, e) = Inr w'" by (simp add: task_runInLoop_def)
    then show ?thesis by (rule removeConnectionInLoop_inv [OF inv])
  next
    assume "t = Listen r"
    with True run inv show ?thesis by (auto simp: task_runInLoop_def outcome_simps split: prod.splits)
  qed
next
  case False
  with run have "w' = (queue_task BaseLoop t s, e)" by (simp add: task_runInLoop_def)
  moreover have "server_inv (queue_task BaseLoop t s)" using t by (intro queue_inv [OF inv]) auto
  ultimately show ?thesis by simp
qed

text \<open>What a call of \<open>newConnection\<close> leaves behind, run at once or queued.\<close>

lemma newConnection_result:
  assumes cb: "user_ok cb" and run: "newConnection cb su sockfd peer (s, e) = Inr w'"
  shows "\<exists>l conn. in_i32 (nextConnId s + 1) \<and>
    name conn = connection_name (srv_name s) (nextConnId s) \<and>
    objects (fst w') = (objects s)(new_object su \<mapsto> (l, conn)) \<and>
    nextConnId (fst w') = nextConnId s + 1 \<and> srv_name (fst w') = srv_name s \<and>
    getNextLoop (threadPool s) = Inr (l, threadPool (fst w')) \<and>
    srv_started (fst w') = srv_started s \<and> srv_acceptor (fst w') = srv_acceptor s \<and>
    connections (fst w') = (connections s)(name conn \<mapsto> new_object su) \<and>
    tasks (fst w') = (if state conn = None
      then (tasks s)(l := tasks s l @ [Established (new_object su)]) else tasks s)"
proof -
  let ?n = "connection_name (srv_name s) (nextConnId s)" and ?c = "new_object su"
  from run obtain l p conn e2 local where n: "in_i32 (nextConnId s + 1)"
    and gl: "getNextLoop (threadPool s) = Inr (l, p)"
    and new: "TcpConnection_new ?n sockfd local peer (new_memory su) (new_channel su) (pollers s l)
      (writes su) (reads su) = Inr conn"
    and go: "task_runInLoop cb BaseLoop l (Established ?c) (s\<lparr>nextConnId := nextConnId s + 1, threadPool := p,
      objects := (objects s)(?c \<mapsto> (l, conn)), pollers := (pollers s)(l := loop_poller conn),
      connections := (connections s)(?n \<mapsto> ?c)\<rparr>, e2) = Inr w'"
    by (auto simp: newConnection_def Let_def outcome_simps split: prod.splits)
  have nm: "name conn = ?n" and st: "state conn = None"
    using new by (auto simp: TcpConnection_new_def outcome_simps split: option.splits)
  show ?thesis
  proof (cases "BaseLoop = l")
    case False
    with go gl n nm st show ?thesis
      by (intro exI [of _ l] exI [of _ conn]) (auto simp: task_runInLoop_def queue_task_def)
  next
    case True
    with go obtain conn1 where r: "connectEstablished cb (conn\<lparr>loop_poller := loop_poller conn\<rparr>) = Inr conn1"
      and w': "objects (fst w') = (objects s)(?c \<mapsto> (l, conn1))" "nextConnId (fst w') = nextConnId s + 1"
        "srv_name (fst w') = srv_name s" "connections (fst w') = (connections s)(?n \<mapsto> ?c)"
        "tasks (fst w') = tasks s" "threadPool (fst w') = p" "srv_started (fst w') = srv_started s"
        "srv_acceptor (fst w') = srv_acceptor s"
      by (auto simp: task_runInLoop_def outcome_simps elim!: on_objectE)
    have "name conn1 = ?n" "state conn1 \<noteq> None" using connectEstablished_ident [OF cb r] nm by simp_all
    with n gl w' show ?thesis by (intro exI [of _ l] exI [of _ conn1]) auto
  qed
qed

lemma handleRead_cases:
  assumes "server_handleRead cb su fcntl reply peer close_reply w = Inr w'"
  shows "fst w' = fst w \<or> (\<exists>sockfd peer' e1. newConnection cb su sockfd peer' (fst w, e1) = Inr w')"
  using assms by (auto simp: server_handleRead_def Acceptor_handleRead_def outcome_simps split: prod.splits if_splits)

lemma server_step_inv:
  assumes step: "server_step cb closing w w'" and cb: "user_ok cb" and inv: "server_inv (fst w)"
  shows "server_inv (fst w')"
  using step inv
proof (induction rule: server_step.induct)
  case (accepts w su fcntl reply peer close_reply w')
  from handleRead_cases [OF accepts(3)] show ?case
  proof
    assume "\<exists>sockfd peer' e1. newConnection cb su sockfd peer' (fst w, e1) = Inr w'"
    then obtain sockfd peer' e1 where "newConnection cb su sockfd peer' (fst w, e1) = Inr w'" by blast
    from newConnection_result [OF cb this] show ?thesis
      using add_object [OF accepts(4,1)] by metis
  qed (use accepts(4) in simp)
next
  case (restarts created reply here w w')
  obtain s e where w: "w = (s, e)" by fastforce
  from restarts(1) obtain s1 where s0: "(if \<not> srv_started s
      then bindO (pool_start created (threadPool s)) (\<lambda>p. Inr (s\<lparr>srv_started := True, threadPool := p\<rparr>))
      else Inr s) = Inr s1"
    and s1: "(if \<not> listenning (srv_acceptor s1) then task_runInLoop cb here BaseLoop (Listen reply) (s1, e)
      else Inr (s1, e)) = Inr w'"
    unfolding server_start_def w prod.case bindO_Inr_conv by blast
  have "server_inv s1" using s0 restarts(2) w by (auto simp: outcome_simps split: if_splits)
  with s1 show ?case using runInLoop_inv [of s1 "Listen reply" 0 reply] by (auto split: if_splits)
next
  case (runs s l t ts e w')
  then show ?case using run_task_inv [OF _ runs(1) cb runs(2)] by simp
next
  case (works s c l conn x s' e)
  then obtain conn1 where d: "conn_do x (conn\<lparr>loop_poller := pollers s l\<rparr>) = Inr conn1"
    and s': "s' = s\<lparr>objects := (objects s)(c \<mapsto> (l, conn1)), pollers := (pollers s)(l := loop_poller conn1)\<rparr>"
    by (auto elim!: on_objectE)
  have n: "name conn1 = name conn" "state conn1 \<noteq> None"
    using conn_do_ident [OF d] works(2) by (simp_all add: ident_def)
  have inv: "server_inv s" using works by simp
  have lf: "life d m (state y) (tasks s)" if "objects s d = Some (m, y)" for d m y
    using server_invD(4) [OF inv that] by blast
  have "server_inv s'"
  proof (rule change_object [OF inv works(1) _ _ _ _ n(1)])
    show "life c l (state conn1) (tasks s')"
      using life_cong [OF lf [OF works(1)]] n(2) works(2) by (simp add: s')
  qed (use lf in \<open>simp_all add: s'\<close>)
  then show ?case by simp
next
  case (closes w c here w')
  obtain s e where w: "w = (s, e)" by fastforce
  from closes show ?case
    using runInLoop_inv [of s "RemoveInLoop c" c] by (auto simp: w removeConnection_def)
qed

interpretation srv: machine "fresh_server n" "server_step cb closing" "\<lambda>w. user_ok cb \<longrightarrow> server_inv (fst w)"
  for n cb closing
proof
  show "fresh_server n w \<Longrightarrow> user_ok cb \<longrightarrow> server_inv (fst w)" for w
    by (auto simp: fresh_server_def intro!: server_invI)
  show "user_ok cb \<longrightarrow> server_inv (fst w) \<Longrightarrow> server_step cb closing w w' \<Longrightarrow> user_ok cb \<longrightarrow> server_inv (fst w')"
    for w w' using server_step_inv by blast
qed

section \<open>Where connections are placed\<close>

text \<open>The part of the state that only \<open>newConnection\<close> and \<open>start\<close> change.\<close>

definition placed :: "server \<Rightarrow> nat \<Rightarrow> (loop_id \<times> string) option" where
  "placed s c = map_option (\<lambda>(l, conn). (l, name conn)) (objects s c)"

definition same_core :: "server \<Rightarrow> server \<Rightarrow> bool" where
  "same_core s s' \<longleftrightarrow> placed s' = placed s \<and> nextConnId s' = nextConnId s \<and> srv_name s' = srv_name s \<and>
     threadPool s' = threadPool s \<and> srv_started s' = srv_started s"

lemma on_object_core:
  assumes run: "on_object c f s = Inr s'" and n: "\<And>t t'. f t = Inr t' \<Longrightarrow> name t' = name t"
  shows "same_core s s' \<and> srv_acceptor s' = srv_acceptor s \<and> tasks s' = tasks s \<and> connections s' = connections s"
  using run
proof (rule on_objectE)
  fix l conn conn1
  assume "objects s c = Some (l, conn)" "f (conn\<lparr>loop_poller := pollers s l\<rparr>) = Inr conn1"
    and s': "s' = s\<lparr>objects := (objects s)(c \<mapsto> (l, conn1)), pollers := (pollers s)(l := loop_poller conn1)\<rparr>"
  moreover from this have "name conn1 = name conn" using n by fastforce
  ultimately show ?thesis by (auto simp: same_core_def placed_def fun_eq_iff)
qed

definition is_removal :: "server_task \<Rightarrow> bool" where
  "is_removal t \<longleftrightarrow> (\<exists>c. t = RemoveInLoop c)"

definition is_listen :: "server_task \<Rightarrow> bool" where
  "is_listen t \<longleftrightarrow> (\<exists>r. t = Listen r)"

lemma is_task_simps [simp]:
  "is_removal (RemoveInLoop c)" "\<not> is_removal (Established c)" "\<not> is_removal (Destroyed c)" "\<not> is_removal (Listen r)"
  "is_listen (Listen r)" "\<not> is_listen (Established c)" "\<not> is_listen (Destroyed c)" "\<not> is_listen (RemoveInLoop c)"
  by (simp_all add: is_removal_def is_listen_def)

lemma removeConnectionInLoop_core:
  assumes "removeConnectionInLoop c (s, e) = Inr w'"
  shows "same_core s (fst w') \<and> srv_acceptor (fst w') = srv_acceptor s \<and>
    (\<forall>l t. t \<in> set (tasks (fst w') l) \<longrightarrow> t \<in> set (tasks s l) \<or> t = Destroyed c)"
  using assms
  by (auto simp: removeConnectionInLoop_def outcome_simps same_core_def placed_def queue_task_def fun_eq_iff
      split: prod.splits if_splits)

lemma run_task_core:
  assumes cb: "user_ok cb" and run: "run_task cb t (s, e) = Inr w'"
  shows "same_core s (fst w') \<and>
    (srv_acceptor (fst w') = srv_acceptor s \<or> is_listen t) \<and>
    (connections (fst w') = connections s \<or> is_removal t) \<and>
    (\<forall>l u. u \<in> set (tasks (fst w') l) \<longrightarrow> u \<in> set (tasks s l) \<or> \<not> is_listen u \<and> \<not> is_removal u)"
proof (cases t)
  case (Established c)
  with run obtain s1 e1 where "on_object c (connectEstablished cb) s = Inr s1" "w' = (s1, e1)"
    by (auto simp: outcome_simps)
  then show ?thesis using on_object_core [of c "connectEstablished cb" s s1] connectEstablished_ident [OF cb] by auto
next
  case (Destroyed c)
  with run obtain s1 e1 where "on_object c (connectDestroyed cb) s = Inr s1" "w' = (s1, e1)"
    by (auto simp: outcome_simps)
  then show ?thesis using on_object_core [of c "connectDestroyed cb" s s1] connectDestroyed_ident [OF cb] by auto
next
  case (RemoveInLoop c)
  with run have "removeConnectionInLoop c (s, e) = Inr w'" by simp
  then show ?thesis using removeConnectionInLoop_core [of c s e w'] RemoveInLoop by force
next
  case (Listen r)
  with run show ?thesis by (auto simp: outcome_simps same_core_def placed_def fun_eq_iff split: prod.splits)
qed

lemma runInLoop_core:
  assumes cb: "user_ok cb" and run: "task_runInLoop cb here l t (s, e) = Inr w'"
  shows "same_core s (fst w') \<and>
    (srv_acceptor (fst w') = srv_acceptor s \<or> is_listen t) \<and>
    (connections (fst w') = connections s \<or> is_removal t) \<and>
    (\<forall>m u. u \<in> set (tasks (fst w') m) \<longrightarrow> u \<in> set (tasks s m) \<or> u = t \<or> \<not> is_listen u \<and> \<not> is_removal u)"
proof (cases "here = l")
  case True
  with run run_task_core [OF cb, of t s e w'] show ?thesis by (auto simp: task_runInLoop_def)
next
  case False
  with run show ?thesis by (auto simp: task_runInLoop_def queue_task_def same_core_def placed_def fun_eq_iff
        split: if_splits)
qed

text \<open>Before \<open>start\<close> nothing listens; after it, the pool stands where the number of connections says.\<close>

definition spread_inv :: "int \<Rightarrow> server \<Rightarrow> bool" where
  "spread_inv n s \<longleftrightarrow>
     (if srv_started s
      then pool_ok (threadPool s) \<and> baseLoop (threadPool s) = BaseLoop \<and> 1 \<le> nextConnId s \<and>
        length (pool_loops (threadPool s)) = nat n \<and>
        next_index (threadPool s) = (if n \<le> 0 then 0 else (nextConnId s - 1) mod n)
      else nextConnId s = 1 \<and> \<not> listenning (srv_acceptor s) \<and>
        threadPool s = pool_setThreadNum n (pool_new BaseLoop) \<and> (\<forall>l t. t \<in> set (tasks s l) \<longrightarrow> \<not> is_listen t)) \<and>
     (\<forall>c l nm. placed s c = Some (l, nm) \<longrightarrow> (\<exists>k. 1 \<le> k \<and> k < nextConnId s \<and>
        nm = connection_name (srv_name s) k \<and> l = round_robin n BaseLoop (nat (k - 1))))"

lemma spread_same:
  assumes "spread_inv n s" "same_core s s'"
    and "srv_acceptor s' = srv_acceptor s \<or> srv_started s"
    and "\<And>l t. t \<in> set (tasks s' l) \<Longrightarrow> t \<in> set (tasks s l) \<or> \<not> is_listen t \<or> srv_started s"
  shows "spread_inv n s'"
proof -
  have "\<forall>l t. t \<in> set (tasks s' l) \<longrightarrow> \<not> is_listen t" if "\<not> srv_started s"
    using that assms(1,4) unfolding spread_inv_def by metis
  with assms(1-3) show ?thesis unfolding spread_inv_def same_core_def by auto
qed

lemma spread_start:
  assumes sp: "spread_inv n s" and n: "in_i32 n" and ns: "\<not> srv_started s"
    and run: "pool_start created (threadPool s) = Inr p"
  shows "spread_inv n (s\<lparr>srv_started := True, threadPool := p\<rparr>)"
proof -
  have "pool_start created (pool_setThreadNum n (pool_new BaseLoop)) = Inr p" "nextConnId s = 1"
    using sp ns run by (simp_all add: spread_inv_def)
  with started_pool [OF n, of created BaseLoop p] sp show ?thesis
    by (auto simp: spread_inv_def placed_def)
qed

lemma spread_new:
  assumes sp: "spread_inv n s" and st: "srv_started s" and new: "objects s c = None"
    and gl: "getNextLoop (threadPool s) = Inr (l, threadPool s')"
    and s': "objects s' = (objects s)(c \<mapsto> (l, conn))" "nextConnId s' = nextConnId s + 1"
      "srv_name s' = srv_name s" "srv_started s' = srv_started s"
      "name conn = connection_name (srv_name s) (nextConnId s)"
  shows "spread_inv n s'"
proof -
  let ?p = "threadPool s" and ?k = "nextConnId s"
  have p: "pool_ok ?p" "baseLoop ?p = BaseLoop" "1 \<le> ?k" "nat n = length (pool_loops ?p)"
    "next_index ?p = (if n \<le> 0 then 0 else (?k - 1) mod n)" using sp st by (auto simp: spread_inv_def)
  from getNextLoop_run [OF p(1,4)] gl have l: "l = (if nat n = 0 then BaseLoop else IoLoop (nat (next_index ?p)))"
    and p': "pool_ok (threadPool s')" "pool_loops (threadPool s') = pool_loops ?p"
      "baseLoop (threadPool s') = BaseLoop"
      "next_index (threadPool s') = (if nat n = 0 then next_index ?p else (next_index ?p + 1) mod int (nat n))"
    using p(2) by auto
  have "l = round_robin n BaseLoop (nat (?k - 1))"
    using l p(3,5) by (auto simp: round_robin_def nat_mod_distrib)
  moreover have "next_index (threadPool s') = (if n \<le> 0 then 0 else (nextConnId s' - 1) mod n)"
    using p'(4) p(5) by (auto simp: s'(2) mod_add_left_eq)
  moreover have "placed s' = (placed s)(c \<mapsto> (l, connection_name (srv_name s) ?k))"
    by (auto simp: placed_def s'(1,5) fun_eq_iff)
  moreover have "\<exists>k\<ge>1. k < ?k + 1 \<and> nm = connection_name (srv_name s) k \<and> m = round_robin n BaseLoop (nat (k - 1))"
    if "placed s d = Some (m, nm)" for d m nm
    using sp that unfolding spread_inv_def by (meson less_add_one order_less_trans)
  ultimately show ?thesis
    using p' p(3,4) st unfolding spread_inv_def s'(2,3,4) by auto
qed

lemma server_step_spread:
  assumes step: "server_step cb closing w w'" and cb: "user_ok cb" and n: "in_i32 n"
    and sp: "spread_inv n (fst w)"
  shows "spread_inv n (fst w')"
  using step sp
proof (induction rule: server_step.induct)
  case (accepts w su fcntl reply peer close_reply w')
  have st: "srv_started (fst w)" using accepts(2,4) by (auto simp: spread_inv_def split: if_splits)
  from handleRead_cases [OF accepts(3)] show ?case
  proof
    assume "\<exists>sockfd peer' e1. newConnection cb su sockfd peer' (fst w, e1) = Inr w'"
    then obtain sockfd peer' e1 where "newConnection cb su sockfd peer' (fst w, e1) = Inr w'" by blast
    from newConnection_result [OF cb this] show ?thesis
      using spread_new [OF accepts(4) st accepts(1)] by metis
  qed (use accepts(4) in simp)
next
  case (restarts created reply here w w')
  obtain s e where w: "w = (s, e)" by fastforce
  from restarts(1) obtain s1 where s0: "(if \<not> srv_started s
      then bindO (pool_start created (threadPool s)) (\<lambda>p. Inr (s\<lparr>srv_started := True, threadPool := p\<rparr>))
      else Inr s) = Inr s1"
    and s1: "(if \<not> listenning (srv_acceptor s1) then task_runInLoop cb here BaseLoop (Listen reply) (s1, e)
      else Inr (s1, e)) = Inr w'"
    unfolding server_start_def w prod.case bindO_Inr_conv by blast
  have i: "spread_inv n s1" "srv_started s1"
    using s0 restarts(2) w spread_start [OF _ n] by (auto simp: outcome_simps split: if_splits)
  show ?case
  proof (cases "listenning (srv_acceptor s1)")
    case False
    with s1 have "task_runInLoop cb here BaseLoop (Listen reply) (s1, e) = Inr w'" by simp
    from runInLoop_core [OF cb this] i show ?thesis by (intro spread_same [OF i(1)]) auto
  qed (use s1 i in auto)
next
  case (runs s l t ts e w')
  let ?s = "s\<lparr>tasks := (tasks s)(l := ts)\<rparr>"
  have inv: "spread_inv n s" using runs by simp
  have "t \<in> set (tasks s l)" using runs(1) by simp
  with inv have lt: "is_listen t \<Longrightarrow> srv_started s" by (auto simp: spread_inv_def split: if_splits)
  have sub: "u \<in> set (tasks s m)" if "u \<in> set (tasks ?s m)" for m u
    using that popped_subset [of "tasks s", OF runs(1), of u m] by simp
  have "same_core s ?s" by (simp add: same_core_def placed_def fun_eq_iff)
  then have "spread_inv n ?s" by (rule spread_same [OF inv]) (use sub in auto)
  moreover have "same_core ?s (fst w')" "srv_acceptor (fst w') = srv_acceptor ?s \<or> srv_started ?s"
    using run_task_core [OF cb runs(2)] lt by auto
  moreover have "u \<in> set (tasks ?s m) \<or> \<not> is_listen u \<or> srv_started ?s"
    if "u \<in> set (tasks (fst w') m)" for m u
    using run_task_core [OF cb runs(2)] that by blast
  ultimately show ?case by (rule spread_same)
next
  case (works s c l conn x s' e)
  have "same_core s s' \<and> srv_acceptor s' = srv_acceptor s \<and> tasks s' = tasks s \<and> connections s' = connections s"
    using works(3) by (rule on_object_core) (use conn_do_ident in \<open>auto simp: ident_def\<close>)
  then show ?case using works(4) by (auto intro: spread_same)
next
  case (closes w c here w')
  obtain s e where w: "w = (s, e)" by fastforce
  have run: "task_runInLoop cb here BaseLoop (RemoveInLoop c) (s, e) = Inr w'"
    using closes(3) by (simp add: removeConnection_def w)
  note core = runInLoop_core [OF cb run]
  have "spread_inv n s" using closes(4) by (simp add: w)
  moreover have "same_core s (fst w')" "srv_acceptor (fst w') = srv_acceptor s \<or> srv_started s"
    using core by auto
  moreover have "u \<in> set (tasks s m) \<or> \<not> is_listen u \<or> srv_started s"
    if "u \<in> set (tasks (fst w') m)" for m u
    using core that is_task_simps(8) by blast
  ultimately show ?case by (rule spread_same)
qed

interpretation spread: machine "fresh_server n" "server_step cb closing"
    "\<lambda>w. user_ok cb \<and> in_i32 n \<longrightarrow> spread_inv n (fst w)"
  for n cb closing
proof
  show "fresh_server n w \<Longrightarrow> user_ok cb \<and> in_i32 n \<longrightarrow> spread_inv n (fst w)" for w
    by (auto simp: fresh_server_def spread_inv_def placed_def)
  show "user_ok cb \<and> in_i32 n \<longrightarrow> spread_inv n (fst w) \<Longrightarrow> server_step cb closing w w' \<Longrightarrow>
      user_ok cb \<and> in_i32 n \<longrightarrow> spread_inv n (fst w')" for w w'
    using server_step_spread by blast
qed

text \<open>Without close callbacks no entry of the map is erased.\<close>

definition keeps_all :: "server \<Rightarrow> bool" where
  "keeps_all s \<longleftrightarrow>
     (\<forall>k. 1 \<le> k \<and> k < nextConnId s \<longrightarrow> connections s (connection_name (srv_name s) k) \<noteq> None) \<and>
     (\<forall>l t. t \<in> set (tasks s l) \<longrightarrow> \<not> is_removal t)"

lemma keeps_same:
  assumes "keeps_all s" "nextConnId s' = nextConnId s" "srv_name s' = srv_name s" "connections s' = connections s"
    and "\<And>l t. t \<in> set (tasks s' l) \<Longrightarrow> t \<in> set (tasks s l) \<or> \<not> is_removal t"
  shows "keeps_all s'"
  using assms unfolding keeps_all_def by metis

lemma keeps_runInLoop:
  assumes "keeps_all s" "user_ok cb" "task_runInLoop cb here BaseLoop (Listen r) (s, e) = Inr w'"
  shows "keeps_all (fst w')"
proof (rule keeps_same [OF assms(1)])
  note core = runInLoop_core [OF assms(2,3)]
  show "nextConnId (fst w') = nextConnId s" "srv_name (fst w') = srv_name s"
    "connections (fst w') = connections s" using core by (auto simp: same_core_def)
  show "t \<in> set (tasks s l) \<or> \<not> is_removal t" if "t \<in> set (tasks (fst w') l)" for l t
    using core that is_task_simps(4) by blast
qed

lemma server_step_keeps:
  assumes step: "server_step cb False w w'" and cb: "user_ok cb" and k: "keeps_all (fst w)"
  shows "keeps_all (fst w')"
  using step k
proof (induction rule: server_step.induct)
  case (accepts w su fcntl reply peer close_reply w')
  from handleRead_cases [OF accepts(3)] show ?case
  proof
    assume "\<exists>sockfd peer' e1. newConnection cb su sockfd peer' (fst w, e1) = Inr w'"
    then obtain sockfd peer' e1 where "newConnection cb su sockfd peer' (fst w, e1) = Inr w'" by blast
    from newConnection_result [OF cb this] obtain l and conn :: tcp_conn where
      n: "name conn = connection_name (srv_name (fst w)) (nextConnId (fst w))"
        "nextConnId (fst w') = nextConnId (fst w) + 1" "srv_name (fst w') = srv_name (fst w)"
        "connections (fst w') = (connections (fst w))(name conn \<mapsto> new_object su)"
      and q: "tasks (fst w') = (if state conn = None
        then (tasks (fst w))(l := tasks (fst w) l @ [Established (new_object su)]) else tasks (fst w))" by blast
    have "\<not> is_removal t" if "t \<in> set (tasks (fst w') m)" for m t
    proof -
      have "t \<in> set (tasks (fst w) m) \<or> t = Established (new_object su)"
        using that by (auto simp: q split: if_splits)
      then show ?thesis using accepts(4) by (auto simp: keeps_all_def)
    qed
    moreover have "connections (fst w') (connection_name (srv_name (fst w')) k) \<noteq> None"
      if "1 \<le> k" "k < nextConnId (fst w')" for k
      using that accepts(4) n by (cases "k = nextConnId (fst w)") (auto simp: keeps_all_def)
    ultimately show ?thesis by (simp add: keeps_all_def)
  qed (use accepts(4) in simp)
next
  case (restarts created reply here w w')
  obtain s e where w: "w = (s, e)" by fastforce
  from restarts(1) obtain s1 where s0: "(if \<not> srv_started s
      then bindO (pool_start created (threadPool s)) (\<lambda>p. Inr (s\<lparr>srv_started := True, threadPool := p\<rparr>))
      else Inr s) = Inr s1"
    and s1: "(if \<not> listenning (srv_acceptor s1) then task_runInLoop cb here BaseLoop (Listen reply) (s1, e)
      else Inr (s1, e)) = Inr w'"
    unfolding server_start_def w prod.case bindO_Inr_conv by blast
  have "keeps_all s1"
    using s0 restarts(2) w by (auto simp: keeps_all_def outcome_simps split: if_splits)
  with s1 keeps_runInLoop [OF _ cb] show ?case by (auto split: if_splits)
next
  case (runs s l t ts e w')
  let ?s = "s\<lparr>tasks := (tasks s)(l := ts)\<rparr>"
  have k: "keeps_all s" using runs by simp
  have "\<not> is_removal t" using k runs(1) unfolding keeps_all_def by (metis list.set_intros(1))
  have sub: "u \<in> set (tasks s m)" if "u \<in> set (tasks ?s m)" for m u
    using that popped_subset [of "tasks s", OF runs(1), of u m] by simp
  have "keeps_all ?s" by (rule keeps_same [OF k]) (use sub in auto)
  then show ?case
  proof (rule keeps_same)
    note core = run_task_core [OF cb runs(2)]
    show "nextConnId (fst w') = nextConnId ?s" "srv_name (fst w') = srv_name ?s"
      "connections (fst w') = connections ?s" using core \<open>\<not> is_removal t\<close> by (auto simp: same_core_def)
    show "u \<in> set (tasks ?s m) \<or> \<not> is_removal u" if "u \<in> set (tasks (fst w') m)" for m u
      using core that by blast
  qed
next
  case (works s c l conn x s' e)
  have "same_core s s' \<and> srv_acceptor s' = srv_acceptor s \<and> tasks s' = tasks s \<and> connections s' = connections s"
    using works(3) by (rule on_object_core) (use conn_do_ident in \<open>auto simp: ident_def\<close>)
  then show ?case using works(4) by (auto simp: same_core_def intro: keeps_same)
qed simp

interpretation keep: machine "fresh_server n" "server_step cb False" "\<lambda>w. user_ok cb \<longrightarrow> keeps_all (fst w)"
  for n cb
proof
  show "fresh_server n w \<Longrightarrow> user_ok cb \<longrightarrow> keeps_all (fst w)" for w
    by (auto simp: fresh_server_def keeps_all_def)
  show "user_ok cb \<longrightarrow> keeps_all (fst w) \<Longrightarrow> server_step cb False w w' \<Longrightarrow> user_ok cb \<longrightarrow> keeps_all (fst w')"
    for w w' using server_step_keeps by blast
qed

section \<open>Properties\<close>

text \<open>A server with one thread, which has accepted one connection.\<close>

definition demo_world :: world where
  "demo_world = (\<lparr>srv_name = ''0.0.0.0:80'',
     srv_acceptor = \<lparr>acceptSocket = 5, acceptChannel = 1, listenning = False\<rparr>,
     threadPool = pool_setThreadNum 1 (pool_new BaseLoop), srv_started = False, nextConnId = 1,
     connections = Map.empty, objects = Map.empty, pollers = (\<lambda>_. poller_new [1 \<mapsto> channel_new 5]),
     tasks = (\<lambda>_. [])\<rparr>, demo_env\<lparr>g_logLevel := ERROR\<rparr>)"

definition demo_resources :: resources where
  "demo_resources = \<lparr>new_object = 3, new_channel = 4,
     new_memory = \<lparr>mem_peer = Some zero_sockaddr, mem_in = (8, 8), mem_out = (8, 8)\<rparr>,
     sockname = (Ok 0, zero_sockaddr), writes = (\<lambda>_. - 1), reads = (\<lambda>_. ReadvError 11)\<rparr>"

lemma demo_run:
  "\<exists>s e conn. reach (fresh_server 1) (server_step (Some Inr) False) (s, e) \<and>
     objects s 3 = Some (IoLoop 0, conn) \<and> nextConnId s = 2 \<and> srv_name s = ''0.0.0.0:80''"
proof -
  let ?R = "reach (fresh_server 1) (server_step (Some Inr) False)"
  have 0: "?R demo_world" by (rule reach_init) (simp add: fresh_server_def demo_world_def)
  have start: "\<exists>s. server_start (Some Inr) (\<lambda>_. True) (Ok 0) BaseLoop demo_world = Inr (s, snd demo_world) \<and>
    objects s = Map.empty \<and> listenning (srv_acceptor s) \<and> nextConnId s = 1 \<and> srv_name s = ''0.0.0.0:80'' \<and>
    tasks s = (\<lambda>_. []) \<and> (\<exists>p. getNextLoop (threadPool s) = Inr (IoLoop 0, p))"
    by (simp add: server_start_def demo_world_def pool_start_def pool_setThreadNum_def pool_new_def
        start_one_def Thread_start_def task_runInLoop_def Acceptor_listen_def Socket_listen_def
        listenOrDie_def syscall_def Let_def enableReading_def set_and_update_def updateChannel_def
        poller_new_def deref_def want_reading_def channel_new_def getNextLoop_def in_i32_def)
  then obtain s p where s: "server_start (Some Inr) (\<lambda>_. True) (Ok 0) BaseLoop demo_world = Inr (s, snd demo_world)"
    "objects s = Map.empty" "listenning (srv_acceptor s)" "nextConnId s = 1" "srv_name s = ''0.0.0.0:80''"
    "getNextLoop (threadPool s) = Inr (IoLoop 0, p)" by blast
  let ?e = "snd demo_world"
  have 1: "?R (s, ?e)" by (rule reach_step [OF 0 restarts [OF s(1)]])
  have ok: "user_ok (Some Inr)" by (simp add: user_ok_def)
  have quiet: "log_or_die (LOG_INFO TcpServer_cc 52 body ?e) = Inr ?e" for body
    by (simp add: log_or_die_def LOG_INFO_def when_level_def logLevel_def demo_world_def)
  have new: "\<exists>w'. newConnection (Some Inr) demo_resources 7 zero_sockaddr (s, ?e) = Inr w'"
    by (simp add: newConnection_def Let_def s(4,6) in_i32_def quiet getLocalAddr_def demo_resources_def
        syscall_def TcpConnection_new_def buffer_new_def vector_new_def kCheapPrepend_def kInitialSize_def
        task_runInLoop_def)
  have "setNonBlockAndCloseOnExec demo_fcntl 7 ?e = ?e"
    by (simp add: setNonBlockAndCloseOnExec_def demo_fcntl_def syscall_def Let_def)
  with new obtain w' where w': "newConnection (Some Inr) demo_resources 7 zero_sockaddr (s, ?e) = Inr w'"
    "server_handleRead (Some Inr) demo_resources demo_fcntl (Ok 7) zero_sockaddr (Ok 0) (s, ?e) = Inr w'"
    by (auto simp: server_handleRead_def Acceptor_handleRead_def Socket_accept_def sockets_accept_def syscall_def)
  have "?R w'" by (rule reach_step [OF 1 accepts [OF _ _ w'(2)]]) (simp_all add: s(2,3))
  moreover from newConnection_result [OF ok w'(1)] obtain l and conn :: tcp_conn where
    "objects (fst w') = (objects s)(new_object demo_resources \<mapsto> (l, conn))" "nextConnId (fst w') = nextConnId s + 1"
    "srv_name (fst w') = srv_name s" "getNextLoop (threadPool s) = Inr (l, threadPool (fst w'))" by blast
  ultimately show ?thesis
    using s(4-6) by (cases w') (auto simp: demo_resources_def)
qed

text \<open>
  C6.  The map of connections is faithful: in every reachable state of the server, with any
  interleaving of accepted connections, queued functors, events, user calls and removals, each entry
  leads to a connection of that very name, no two connections share a name, and the name that
  the next connection gets is unused, so a new connection never replaces one.
\<close>

theorem connection_map_faithful:
  assumes "reach (fresh_server n) (server_step cb closing) (s, e)" and "user_ok cb"
  shows "(connections s nm = Some c \<longrightarrow> (\<exists>l conn. objects s c = Some (l, conn) \<and> name conn = nm)) \<and>
    (objects s c = Some (l, x) \<and> objects s d = Some (m, y) \<and> name x = name y \<longrightarrow> c = d) \<and>
    connections s (connection_name (srv_name s) (nextConnId s)) = None"
proof -
  have inv: "server_inv s" using srv.inv_reach [OF assms(1)] assms(2) by simp
  have "connections s (connection_name (srv_name s) (nextConnId s)) \<noteq> Some a" for a
  proof
    assume "connections s (connection_name (srv_name s) (nextConnId s)) = Some a"
    then obtain l conn where a: "objects s a = Some (l, conn)"
      "name conn = connection_name (srv_name s) (nextConnId s)" using server_invD(3) [OF inv] by blast
    with server_invD(4) [OF inv a(1)] obtain k where
      "1 \<le> k" "k < nextConnId s" "connection_name (srv_name s) k = connection_name (srv_name s) (nextConnId s)"
      by (auto simp: named_def)
    with connection_name_inj [of k "nextConnId s"] server_invD(1,2) [OF inv] show False by auto
  qed
  then show ?thesis using server_invD(3,5) [OF inv] by blast
qed

theorem connection_map_faithful_witness:
  "\<exists>s e. reach (fresh_server 1) (server_step (Some Inr) False) (s, e) \<and> objects s 3 \<noteq> None \<and>
     connections s (connection_name (srv_name s) (nextConnId s)) = None"
proof -
  have ok: "user_ok (Some Inr)" by (simp add: user_ok_def)
  from demo_run obtain s e conn where s: "reach (fresh_server 1) (server_step (Some Inr) False) (s, e)"
    "objects s 3 = Some (IoLoop 0, conn)" by blast
  from connection_map_faithful [OF s(1) ok] s show ?thesis by blast
qed

text \<open>
  C8.  Every connection lives in its own loop and in the right order: \<open>connectEstablished\<close> is
  queued exactly once until it has run, and only in the loop of the connection;
  \<open>connectDestroyed\<close> is queued in no other loop, and never runs before \<open>connectEstablished\<close> has,
  whoever removes the connection and whenever.
\<close>

theorem connection_lifecycle:
  assumes "reach (fresh_server n) (server_step cb closing) (s, e)" and "user_ok cb"
    and "objects s c = Some (l, conn)"
  shows "count_list (tasks s m) (Established c) = (if m = l \<and> state conn = None then 1 else 0) \<and>
    (Destroyed c \<in> set (tasks s m) \<longrightarrow> m = l) \<and>
    (tasks s m = Destroyed c # ts \<longrightarrow> state conn \<noteq> None)"
proof -
  have inv: "server_inv s" using srv.inv_reach [OF assms(1)] assms(2) by simp
  have "life c l (state conn) (tasks s)" using server_invD(4) [OF inv assms(3)] by blast
  moreover have "state conn \<noteq> None" if "tasks s m = Destroyed c # ts"
    using pending_removal_known [OF inv that] assms(3) by auto
  ultimately show ?thesis using lifeD by metis
qed

theorem connection_lifecycle_witness:
  "\<exists>s e conn. reach (fresh_server 1) (server_step (Some Inr) False) (s, e) \<and>
     objects s 3 = Some (IoLoop 0, conn) \<and> count_list (tasks s BaseLoop) (Established 3) = 0"
proof -
  have ok: "user_ok (Some Inr)" by (simp add: user_ok_def)
  from demo_run obtain s e conn where s: "reach (fresh_server 1) (server_step (Some Inr) False) (s, e)"
    "objects s 3 = Some (IoLoop 0, conn)" by blast
  from connection_lifecycle [OF s(1) ok s(2), of BaseLoop] s show ?thesis by auto
qed

text \<open>
  C24.  The connections are spread over the pool in rotation: connection number \<open>k\<close> of a server
  with \<open>n\<close> threads, which is the one named \<open>...#k\<close>, belongs to loop \<open>(k - 1) mod n\<close>, and to the base
  loop if there are no threads.
\<close>

theorem connections_in_rotation:
  assumes "reach (fresh_server n) (server_step cb closing) (s, e)" and "user_ok cb" and "in_i32 n"
    and "objects s c = Some (l, conn)"
  shows "\<exists>k. 1 \<le> k \<and> k < nextConnId s \<and> name conn = connection_name (srv_name s) k \<and>
    l = round_robin n BaseLoop (nat (k - 1))"
proof -
  have "spread_inv n s" using spread.inv_reach [OF assms(1)] assms(2,3) by simp
  moreover have "placed s c = Some (l, name conn)" using assms(4) by (simp add: placed_def)
  ultimately show ?thesis unfolding spread_inv_def by blast
qed

theorem connections_in_rotation_witness:
  "\<exists>s e conn. reach (fresh_server 1) (server_step (Some Inr) False) (s, e) \<and>
     objects s 3 = Some (IoLoop 0, conn) \<and> name conn = ''0.0.0.0:80#1''"
proof -
  have ok: "user_ok (Some Inr)" "in_i32 1" by (simp_all add: user_ok_def in_i32_def)
  from demo_run obtain s e conn where s: "reach (fresh_server 1) (server_step (Some Inr) False) (s, e)"
    "objects s 3 = Some (IoLoop 0, conn)" "nextConnId s = 2" "srv_name s = ''0.0.0.0:80''" by blast
  from connections_in_rotation [OF s(1) ok s(2)] s(3,4) have "name conn = connection_name ''0.0.0.0:80'' 1"
    by auto (metis add1_zle_eq antisym_conv1 dual_order.refl linorder_not_le one_add_one)
  then have "name conn = ''0.0.0.0:80#1''"
    by (simp add: connection_name_def snprintf_def dec_int_def dec_nat_small)
  with s show ?thesis by blast
qed

text \<open>
  C34.  The server never lets go of a connection.  Removal hangs on the close callback that the
  server gives to each connection, which the connection's code does not call; so without it the map
  holds, in every reachable state, all connections ever accepted, closed ones included.
\<close>

theorem connections_never_released:
  assumes "reach (fresh_server n) (server_step cb False) (s, e)" and "user_ok cb"
  shows "card (dom (connections s)) = nat (nextConnId s - 1)"
proof -
  have inv: "server_inv s" using srv.inv_reach [OF assms(1)] assms(2) by simp
  have keeps: "keeps_all s" using keep.inv_reach [OF assms(1)] assms(2) by simp
  let ?f = "connection_name (srv_name s)"
  have "dom (connections s) = ?f ` {1..<nextConnId s}"
  proof (intro equalityI subsetI)
    fix nm assume "nm \<in> dom (connections s)"
    then obtain c where "connections s nm = Some c" by blast
    from server_invD(3) [OF inv this] obtain l conn where c: "objects s c = Some (l, conn)" "name conn = nm" by blast
    then show "nm \<in> ?f ` {1..<nextConnId s}" using server_invD(4) [OF inv c(1)] by (auto simp: named_def)
  qed (use keeps in \<open>auto simp: keeps_all_def dom_def\<close>)
  moreover have "inj_on ?f {1..<nextConnId s}"
    using connection_name_inj server_invD(2) [OF inv] by (intro inj_onI) auto
  ultimately show ?thesis by (simp add: card_image)
qed

theorem connections_never_released_witness:
  "\<exists>s e. reach (fresh_server 1) (server_step (Some Inr) False) (s, e) \<and> nextConnId s = 2 \<and>
     card (dom (connections s)) = 1"
proof -
  have ok: "user_ok (Some Inr)" by (simp add: user_ok_def)
  from demo_run obtain s e conn where s: "reach (fresh_server 1) (server_step (Some Inr) False) (s, e)"
    "nextConnId s = 2" by blast
  from connections_never_released [OF s(1) ok] s show ?thesis by auto
qed

text \<open>
  C33.  Every failure of \<open>accept(2)\<close>, the transient ones included (a client that gave up, no free
  descriptor, nothing to accept), ends the server's process.  The acceptor makes the descriptor
  \<open>- 1\<close> non-blocking before anything checks it; the failing \<open>fcntl\<close> replaces \<open>errno\<close> by \<open>EBADF\<close>, and
  the \<open>switch\<close> takes that for an unexpected error.
\<close>

theorem failed_accept_stops_server:
  assumes "logs_ok e" and "in_i32 err" and "fcntl_rejects fcntl (- 1)"
  shows "server_handleRead cb su fcntl (Err err) peer close_reply (s, e) = Inl Abort"
  by (simp add: server_handleRead_def Acceptor_handleRead_def accept_failed [OF assms])

theorem failed_accept_stops_server_witness:
  "server_handleRead None demo_resources demo_fcntl (Err ECONNABORTED) zero_sockaddr (Ok 0)
     (fst demo_world, demo_env) = Inl Abort"
  by (rule failed_accept_stops_server [OF demo_logs_ok])
    (simp_all add: ECONNABORTED_def in_i32_def fcntl_rejects_def demo_fcntl_def)

end
