(* ===== verification/ServerSafety.thy ===== *)
theory ServerSafety
  imports Servers
begin

text \<open>
  The whole server meets no undefined behaviour and no abort, as long as the environment keeps its
  promises.  The invariant joins those of the parts: the tables of every loop's poller are
  consistent, every channel on a loop's heap has a descriptor of its own, each connection
  is in the state that the theory of connections asks for once it is established, and its
  channel is ready to be registered before; the acceptor's channel can be enabled; the pool
  and the logger work.

  What the environment promises is the predicate \<open>offered\<close> for each accepted connection
  and \<open>user_safe\<close> for the user's connection callback.  One thing nobody promises: that the members
  which the constructor of a connection does not initialise happen to hold harmless values.  That is the
  separate assumption \<open>lucky_memory\<close>, and what happens without it is part of the theorem.  The steps are those of the server without the
  close callback, which no code of the library calls.
\<close>

section \<open>One loop\<close>

text \<open>
  The limit of the number of open descriptors; Linux refuses to raise \<open>RLIMIT_NOFILE\<close> above it
  by default.
\<close>

definition max_files :: int where
  "max_files = 2 ^ 20"

definition poller_sound :: "'cb poller \<Rightarrow> bool" where
  "poller_sound pl \<longleftrightarrow> poller_inv pl \<and>
     (\<forall>p c. chs pl p = Some c \<longrightarrow> fd c < max_files) \<and>
     (\<forall>p q c d. chs pl p = Some c \<and> chs pl q = Some d \<and> fd c = fd d \<longrightarrow> p = q)"

lemma poller_soundD:
  assumes "poller_sound pl"
  shows "poller_inv pl" "chs pl p = Some c \<Longrightarrow> fd c < max_files"
    "chs pl p = Some c \<Longrightarrow> chs pl q = Some d \<Longrightarrow> fd c = fd d \<Longrightarrow> p = q"
  using assms unfolding poller_sound_def by blast+

lemma sound_room: "poller_sound pl \<Longrightarrow> length (pollfds pl) + 1 < 2 ^ 30"
  using entries_bounded [of pl "2 ^ 20"] poller_soundD(1,2) [of pl] by (auto simp: max_files_def)

lemma registered_attachable: "registered p pl \<Longrightarrow> attachable p pl"
  by (auto simp: registered_def attachable_def split: option.splits)

text \<open>A change on behalf of one channel leaves the others as they are.\<close>

lemma near_frame:
  assumes sound: "poller_sound pl" and near: "near p pl pl'" and p: "chs pl p = Some c" and q: "q \<noteq> p"
  shows "attachable q pl' = attachable q pl" "registered q pl' = registered q pl"
proof -
  have same: "chs pl' q = chs pl q" using near q by (simp add: near_def)
  have "channels pl' (fd d) = channels pl (fd d)" if "chs pl q = Some d" for d
  proof -
    have "fd d \<noteq> fd c" using poller_soundD(3) [OF sound p that] q by auto
    with near p show ?thesis by (simp add: near_def)
  qed
  then show "attachable q pl' = attachable q pl" "registered q pl' = registered q pl"
    using same by (auto simp: attachable_def registered_def split: option.splits)
qed

lemma near_sound:
  assumes sound: "poller_sound pl" and inv: "poller_inv pl'" and near: "near p pl pl'" and p: "chs pl p = Some c"
  shows "poller_sound pl'"
proof -
  have old: "\<exists>d. chs pl q = Some d \<and> fd d = fd d'" if "chs pl' q = Some d'" for q d'
    using near p that by (cases "q = p") (auto simp: near_def)
  have "fd d' < max_files" if "chs pl' q = Some d'" for q d'
    using old [OF that] poller_soundD(2) [OF sound] by metis
  moreover have "q = r" if "chs pl' q = Some d'" "chs pl' r = Some d''" "fd d' = fd d''" for q r d' d''
    using old [OF that(1)] old [OF that(2)] that(3) poller_soundD(3) [OF sound] by metis
  ultimately show ?thesis using inv by (auto simp: poller_sound_def)
qed

text \<open>A channel may always be enabled.\<close>

lemma setter_sound:
  assumes sound: "poller_sound pl" and a: "attachable p pl" and f: "setter f"
  shows "\<exists>pl'. set_and_update f p pl = Inr pl' \<and> poller_sound pl' \<and> registered p pl' \<and> near p pl pl'"
proof -
  obtain c where c: "chs pl p = Some c" using a by (auto simp: attachable_def split: option.splits)
  from setter_attachable [OF poller_soundD(1) [OF sound] a f sound_room [OF sound] c] obtain pl' where
    pl': "set_and_update f p pl = Inr pl'" "poller_inv pl'" "registered p pl'" by blast
  have near: "near p pl pl'" using setter_near [OF pl'(1)] f by (simp add: setter_def)
  show ?thesis using pl' near near_sound [OF sound pl'(2) near c] by blast
qed

text \<open>A new channel, at a new address, for a new descriptor.\<close>

lemma new_channel_sound:
  assumes sound: "poller_sound pl" and p: "chs pl p = None"
    and c: "0 \<le> fd c" "fd c < max_files" "index c < 0" and free: "\<And>q d. chs pl q = Some d \<Longrightarrow> fd d \<noteq> fd c"
  defines "pl' \<equiv> pl\<lparr>chs := (chs pl)(p \<mapsto> c)\<rparr>"
  shows "poller_sound pl'" "attachable p pl'"
    "q \<noteq> p \<Longrightarrow> attachable q pl' = attachable q pl" "q \<noteq> p \<Longrightarrow> registered q pl' = registered q pl"
proof -
  have "poller_inv pl'" unfolding pl'_def by (rule new_channel_inv [OF poller_soundD(1) [OF sound] p c(1)])
  moreover have "fd d < max_files" if "chs pl' q = Some d" for q d
    using that c(2) poller_soundD(2) [OF sound] by (auto simp: pl'_def split: if_splits)
  moreover have "q = r" if "chs pl' q = Some d" "chs pl' r = Some d'" "fd d = fd d'" for q r d d'
    using that free poller_soundD(3) [OF sound] by (fastforce simp: pl'_def split: if_splits)
  ultimately show "poller_sound pl'" by (auto simp: poller_sound_def)
  have "channels pl (fd c) = None"
  proof (cases "channels pl (fd c)")
    case (Some q)
    from poller_invD(2) [OF poller_soundD(1) [OF sound] Some] obtain d where "chs pl q = Some d" "fd d = fd c"
      by (rule channel_okE)
    with free show ?thesis by blast
  qed simp
  then show "attachable p pl'" using c(3) by (simp add: attachable_def pl'_def)
  show "q \<noteq> p \<Longrightarrow> attachable q pl' = attachable q pl" "q \<noteq> p \<Longrightarrow> registered q pl' = registered q pl"
    by (simp_all add: attachable_def registered_def pl'_def split: option.splits)
qed

section \<open>One connection\<close>

definition conn_base :: "tcp_conn \<Rightarrow> bool" where
  "conn_base s \<longleftrightarrow> kernel_ok s \<and> wf_buffer (inputBuffer s) \<and> wf_buffer (outputBuffer s) \<and>
     contents (outputBuffer s) = []"

text \<open>What the server keeps of a connection whose loop has the poller \<open>pl\<close>.\<close>

definition slot_ok :: "conn_callback poller \<Rightarrow> tcp_conn \<Rightarrow> bool" where
  "slot_ok pl conn \<longleftrightarrow> conn_base conn \<and> attachable (chan_ptr conn) pl \<and>
     (state conn \<noteq> None \<longrightarrow> registered (chan_ptr conn) pl)"

lemma conn_base_poller [simp]: "conn_base (s\<lparr>loop_poller := pl\<rparr>) = conn_base s"
  by (simp add: conn_base_def kernel_ok_def)

lemma conn_base_state [simp]: "conn_base (s\<lparr>state := st\<rparr>) = conn_base s"
  by (simp add: conn_base_def kernel_ok_def)

lemma conn_ok_slot:
  "conn_ok s \<longleftrightarrow> poller_inv (loop_poller s) \<and> conn_base s \<and> registered (chan_ptr s) (loop_poller s) \<and> state s \<noteq> None"
  by (auto simp: conn_ok_def chan_ok_def conn_base_def)

text \<open>
  \<open>safe_run l s m\<close>: the operation returns, leaves an established connection and
  touches only its own channel.
\<close>

definition safe_run :: "tcp_conn \<Rightarrow> tcp_conn outcome \<Rightarrow> bool" where
  "safe_run t m \<longleftrightarrow> (\<exists>t'. m = Inr t' \<and> conn_ok t' \<and> ident t t' \<and> near (chan_ptr t) (loop_poller t) (loop_poller t'))"

text \<open>
  The user's connection callback: it works on the connection through its public interface.  The
  lemmas below show that callbacks which send, shut down and put such steps in sequence are of this kind.
\<close>

definition user_safe :: "conn_user \<Rightarrow> bool" where
  "user_safe cb \<longleftrightarrow> user_ok cb \<and> (\<exists>f. cb = Some f \<and> (\<forall>t. conn_ok t \<longrightarrow> safe_run t (f t)))"

lemma safe_kept: "runs_ok m \<Longrightarrow> (\<And>t'. m = Inr t' \<Longrightarrow> chan_kept t t') \<Longrightarrow> safe_run t m"
  by (auto simp: runs_ok_def safe_run_def chan_kept_def)

lemma user_safe_send: "user_safe (Some (send in_loop m))"
  using send_ok send_kept
  by (auto simp: user_safe_def user_ok_def intro!: safe_kept dest: send_kept simp: chan_kept_def)

lemma user_safe_shutdown: "user_safe (Some (shutdown in_loop))"
  using shutdown_ok shutdown_kept
  by (auto simp: user_safe_def user_ok_def intro!: safe_kept dest: shutdown_kept simp: chan_kept_def)

lemma user_safe_skip: "user_safe (Some Inr)"
  by (auto simp: user_safe_def user_ok_def safe_run_def)

lemma user_safe_seq:
  assumes "user_safe (Some f)" "user_safe (Some g)"
  shows "user_safe (Some (\<lambda>t. bindO (f t) g))"
proof -
  have "safe_run t (bindO (f t) g)" if t: "conn_ok t" for t
  proof -
    have "safe_run t (f t)" using assms(1) t by (simp add: user_safe_def)
    then obtain u where u: "f t = Inr u" "conn_ok u" "ident t u" "near (chan_ptr t) (loop_poller t) (loop_poller u)"
      by (auto simp: safe_run_def)
    have "safe_run u (g u)" using assms(2) u(2) by (simp add: user_safe_def)
    with u show ?thesis unfolding safe_run_def by (metis bindO.simps(2) ident_def ident_trans near_trans)
  qed
  moreover have "user_ok (Some (\<lambda>t. bindO (f t) g))"
    using assms ident_trans unfolding user_safe_def user_ok_def
    by (auto simp: outcome_simps) blast
  ultimately show ?thesis by (simp add: user_safe_def)
qed

lemma conn_do_safe: "conn_ok t \<Longrightarrow> safe_run t (conn_do x t)"
  using conn_do_ok [of t x] conn_do_near [of x t] by (auto simp: safe_run_def runs_ok_def)

lemma connectEstablished_safe:
  assumes cb: "user_safe cb" and sound: "poller_sound (loop_poller t)" and slot: "slot_ok (loop_poller t) t"
  shows "safe_run t (connectEstablished cb t)"
proof -
  let ?t = "setState kConnected t"
  have "attachable (chan_ptr t) (loop_poller t)" using slot by (simp add: slot_ok_def)
  from setter_sound [OF sound this setters(1)] obtain pl where pl:
    "set_and_update want_reading (chan_ptr t) (loop_poller t) = Inr pl" "poller_sound pl"
    "registered (chan_ptr t) pl" "near (chan_ptr t) (loop_poller t) pl" by blast
  let ?t1 = "?t\<lparr>loop_poller := pl\<rparr>"
  have 1: "on_poller enableReading ?t = Inr ?t1"
    using pl(1) by (simp add: on_poller_def enableReading_def setState_def)
  have ok: "conn_ok ?t1"
    using pl(2,3) slot poller_soundD(1) by (auto simp: conn_ok_slot setState_def slot_ok_def)
  obtain f where f: "cb = Some f" "safe_run ?t1 (f ?t1)" using cb ok by (auto simp: user_safe_def)
  then obtain t' where "f ?t1 = Inr t'" "conn_ok t'" "ident ?t1 t'" "near (chan_ptr ?t1) pl (loop_poller t')"
    by (auto simp: safe_run_def)
  with f(1) 1 pl(4) show ?thesis
    by (auto simp: safe_run_def connectEstablished_def call_user_def ident_def setState_def intro: near_trans)
qed

section \<open>The server\<close>

fun safe_task :: "server_task \<Rightarrow> bool" where
  "safe_task (Established c) = True"
| "safe_task (Listen r) = (case r of Ok v \<Rightarrow> 0 \<le> v | Err n \<Rightarrow> False)"
| "safe_task _ = False"

definition safe_objects :: "server \<Rightarrow> bool" where
  "safe_objects s \<longleftrightarrow>
     (\<forall>c l conn. objects s c = Some (l, conn) \<longrightarrow> slot_ok (pollers s l) conn \<and>
        (l = BaseLoop \<longrightarrow> chan_ptr conn \<noteq> acceptChannel (srv_acceptor s))) \<and>
     (\<forall>c d l x y. objects s c = Some (l, x) \<and> objects s d = Some (l, y) \<and> chan_ptr x = chan_ptr y \<longrightarrow> c = d)"

definition safe :: "world \<Rightarrow> bool" where
  "safe w \<longleftrightarrow> logs_ok (snd w) \<and> length (srv_name (fst w)) < 2 ^ 30 \<and>
     (\<forall>l. poller_sound (pollers (fst w) l)) \<and>
     attachable (acceptChannel (srv_acceptor (fst w))) (pollers (fst w) BaseLoop) \<and>
     safe_objects (fst w) \<and> (\<forall>l. \<forall>t \<in> set (tasks (fst w) l). safe_task t)"

lemma safe_objectsD:
  assumes "safe_objects s" "objects s c = Some (l, conn)"
  shows "slot_ok (pollers s l) conn" "l = BaseLoop \<Longrightarrow> chan_ptr conn \<noteq> acceptChannel (srv_acceptor s)"
    "objects s d = Some (l, y) \<Longrightarrow> chan_ptr conn = chan_ptr y \<Longrightarrow> c = d"
  using assms unfolding safe_objects_def by blast+

lemma safe_objectsI:
  assumes "\<And>c l conn. objects s c = Some (l, conn) \<Longrightarrow> slot_ok (pollers s l) conn \<and>
      (l = BaseLoop \<longrightarrow> chan_ptr conn \<noteq> acceptChannel (srv_acceptor s))"
    and "\<And>c d l x y. objects s c = Some (l, x) \<Longrightarrow> objects s d = Some (l, y) \<Longrightarrow> chan_ptr x = chan_ptr y \<Longrightarrow> c = d"
  shows "safe_objects s"
  using assms unfolding safe_objects_def by blast

lemma safeD:
  assumes "safe (s, e)"
  shows "logs_ok e" "length (srv_name s) < 2 ^ 30" "poller_sound (pollers s l)"
    "attachable (acceptChannel (srv_acceptor s)) (pollers s BaseLoop)" "safe_objects s"
    "t \<in> set (tasks s l) \<Longrightarrow> safe_task t"
  using assms by (auto simp: safe_def)

lemma safeI:
  assumes "logs_ok e" "length (srv_name s) < 2 ^ 30" "\<And>l. poller_sound (pollers s l)"
    "attachable (acceptChannel (srv_acceptor s)) (pollers s BaseLoop)" "safe_objects s"
    "\<And>l t. t \<in> set (tasks s l) \<Longrightarrow> safe_task t"
  shows "safe (s, e)"
  using assms by (auto simp: safe_def)

lemma safe_objects_frame:
  assumes "safe_objects s" "objects s' = objects s" "srv_acceptor s' = srv_acceptor s"
    "\<And>c l conn. objects s c = Some (l, conn) \<Longrightarrow> slot_ok (pollers s l) conn \<Longrightarrow> slot_ok (pollers s' l) conn"
  shows "safe_objects s'"
  using assms unfolding safe_objects_def by auto

text \<open>Queues and counters do not matter, as long as the queues hold safe functors.\<close>

lemma safe_queues:
  assumes "safe (s, e)" "\<And>l t. t \<in> set (q l) \<Longrightarrow> safe_task t"
  shows "safe (s\<lparr>tasks := q\<rparr>, e)"
  using safeD [OF assms(1)] assms(2) by (intro safeI) (auto intro: safe_objects_frame)

lemma slot_near:
  assumes sound: "poller_sound pl" and near: "near p pl pl'" and p: "chs pl p = Some c"
    and q: "chan_ptr conn \<noteq> p" and slot: "slot_ok pl conn"
  shows "slot_ok pl' conn"
  using slot near_frame [OF sound near p q] by (simp add: slot_ok_def)

text \<open>An operation of one connection.\<close>

lemma on_object_safe:
  assumes safe: "safe (s, e)" and c: "objects s c = Some (l, conn)"
    and run: "safe_run (conn\<lparr>loop_poller := pollers s l\<rparr>) (f (conn\<lparr>loop_poller := pollers s l\<rparr>))"
  shows "\<exists>s'. on_object c f s = Inr s' \<and> safe (s', e)"
proof -
  let ?t = "conn\<lparr>loop_poller := pollers s l\<rparr>" and ?p = "chan_ptr conn"
  from run obtain t' where t': "f ?t = Inr t'" "conn_ok t'" "chan_ptr t' = ?p"
    and near: "near ?p (pollers s l) (loop_poller t')" by (auto simp: safe_run_def ident_def)
  let ?s = "s\<lparr>objects := (objects s)(c \<mapsto> (l, t')), pollers := (pollers s)(l := loop_poller t')\<rparr>"
  have slot: "slot_ok (pollers s l) conn" by (rule safe_objectsD(1) [OF safeD(5) [OF safe] c])
  then obtain ch where ch: "chs (pollers s l) ?p = Some ch"
    by (auto simp: slot_ok_def attachable_def split: option.splits)
  have ok: "poller_inv (loop_poller t')" "conn_base t'" "registered ?p (loop_poller t')"
    using t'(2,3) by (simp_all add: conn_ok_slot)
  have "safe (?s, e)"
  proof (rule safeI)
    show "poller_sound (pollers ?s m)" for m
      using safeD(3) [OF safe] near_sound [OF safeD(3) [OF safe] ok(1) near ch] by simp
    have "acceptChannel (srv_acceptor s) \<noteq> ?p" if "l = BaseLoop"
      using safe_objectsD(2) [OF safeD(5) [OF safe] c that] by simp
    then show "attachable (acceptChannel (srv_acceptor ?s)) (pollers ?s BaseLoop)"
      using safeD(4) [OF safe] near_frame(1) [OF safeD(3) [OF safe] near ch] by auto
    have old: "slot_ok (((pollers s)(l := loop_poller t')) m) y" if d: "objects s d = Some (m, y)" "d \<noteq> c" for d m y
    proof -
      have "slot_ok (pollers s m) y" by (rule safe_objectsD(1) [OF safeD(5) [OF safe] d(1)])
      moreover have "chan_ptr y \<noteq> ?p" if "m = l"
        using safe_objectsD(3) [OF safeD(5) [OF safe] c] d that by auto
      ultimately show ?thesis using slot_near [OF safeD(3) [OF safe] near ch] by (cases "m = l") auto
    qed
    moreover have "slot_ok (loop_poller t') t'"
      using ok t'(3) registered_attachable by (simp add: slot_ok_def)
    ultimately show "safe_objects ?s"
      using safeD(5) [OF safe] c t'(3) unfolding safe_objects_def by (auto split: if_splits)
  qed (use safeD [OF safe] in simp_all)
  moreover have "on_object c f s = Inr ?s" using c t'(1) by (simp add: on_object_def deref_def)
  ultimately show ?thesis by blast
qed

lemma slot_conn_ok:
  assumes "safe (s, e)" "objects s c = Some (l, conn)" "state conn \<noteq> None"
  shows "conn_ok (conn\<lparr>loop_poller := pollers s l\<rparr>)"
  using safe_objectsD(1) [OF safeD(5) [OF assms(1)] assms(2)] poller_soundD(1) [OF safeD(3) [OF assms(1)]] assms(3)
  by (simp add: conn_ok_slot slot_ok_def)

lemma works_safe:
  assumes "safe (s, e)" "objects s c = Some (l, conn)" "state conn \<noteq> None"
  shows "\<exists>s'. on_object c (conn_do x) s = Inr s' \<and> safe (s', e)"
  by (rule on_object_safe [OF assms(1,2)]) (rule conn_do_safe [OF slot_conn_ok [OF assms]])

lemma slot_ok_poller [simp]: "slot_ok pl (conn\<lparr>loop_poller := pl'\<rparr>) = slot_ok pl conn"
  by (simp add: slot_ok_def)

lemma established_safe:
  assumes "safe (s, e)" "objects s c = Some (l, conn)" "user_safe cb"
  shows "\<exists>s'. on_object c (connectEstablished cb) s = Inr s' \<and> safe (s', e)"
  by (rule on_object_safe [OF assms(1,2)], rule connectEstablished_safe [OF assms(3)])
    (use safeD(3) [OF assms(1)] safe_objectsD(1) [OF safeD(5) [OF assms(1)] assms(2)] in simp_all)

lemma listen_safe:
  assumes safe: "safe (s, e)" and r: "0 \<le> r"
  shows "\<exists>w'. run_task cb (Listen (Ok r)) (s, e) = Inr w' \<and> safe w'"
proof -
  let ?a = "srv_acceptor s" and ?pl = "pollers s BaseLoop"
  let ?p = "acceptChannel ?a"
  from setter_sound [OF safeD(3) [OF safe] safeD(4) [OF safe] setters(1)] obtain pl where
    pl: "set_and_update want_reading ?p ?pl = Inr pl" "poller_sound pl" "registered ?p pl" "near ?p ?pl pl" by blast
  obtain ch where ch: "chs ?pl ?p = Some ch"
    using safeD(4) [OF safe] by (auto simp: attachable_def split: option.splits)
  let ?s = "s\<lparr>srv_acceptor := ?a\<lparr>listenning := True\<rparr>, pollers := (pollers s)(BaseLoop := pl)\<rparr>"
  have "safe (?s, e)"
  proof (rule safeI)
    have "slot_ok (((pollers s)(BaseLoop := pl)) l) conn" if c: "objects s c = Some (l, conn)" for c l conn
      using safe_objectsD(1,2) [OF safeD(5) [OF safe] c] slot_near [OF safeD(3) [OF safe] pl(4) ch] by auto
    then show "safe_objects ?s"
      using safeD(5) [OF safe] unfolding safe_objects_def by auto
  qed (use safeD [OF safe] pl(2,3) registered_attachable in auto)
  moreover have "run_task cb (Listen (Ok r)) (s, e) = Inr (?s, e)"
    using pl(1) r by (simp add: Acceptor_listen_def Socket_listen_def listenOrDie_def syscall_def Let_def enableReading_def)
  ultimately show ?thesis by blast
qed

lemma run_task_safe:
  assumes safe: "safe (s, e)" and t: "safe_task t" "task_known s t" and cb: "user_safe cb"
  shows "\<exists>w'. run_task cb t (s, e) = Inr w' \<and> safe w'"
proof (cases t)
  case (Established c)
  with t(2) obtain l conn where "objects s c = Some (l, conn)" by auto
  from established_safe [OF safe this cb] Established show ?thesis by auto
next
  case (Listen r)
  with t(1) listen_safe [OF safe] show ?thesis by (cases r) auto
qed (use t(1) in simp_all)

lemma runInLoop_safe:
  assumes safe: "safe (s, e)" and t: "safe_task t" "task_known s t" and cb: "user_safe cb"
  shows "\<exists>w'. task_runInLoop cb here l t (s, e) = Inr w' \<and> safe w'"
proof (cases "here = l")
  case True
  with run_task_safe [OF assms] show ?thesis by (simp add: task_runInLoop_def)
next
  case False
  have "u \<in> set (((tasks s)(l := tasks s l @ [t])) m) \<Longrightarrow> safe_task u" for u m
    using safeD(6) [OF safe, of u m] safeD(6) [OF safe, of u l] t(1) by (auto split: if_splits)
  then have "safe (queue_task l t s, e)"
    unfolding queue_task_def by (rule safe_queues [OF safe])
  with False show ?thesis by (simp add: task_runInLoop_def)
qed

section \<open>A new connection\<close>

text \<open>
  What the constructor of a connection finds in its memory, where the source needs luck.  The
  constructor copies \<open>peerAddr_\<close> from itself, and the buffers do not initialise their
  indices: the values found must be in order and inside the vector, or the first access is
  undefined.
\<close>

definition lucky_memory :: "conn_memory \<Rightarrow> bool" where
  "lucky_memory m \<longleftrightarrow> mem_peer m \<noteq> None \<and> fst (mem_in m) \<le> snd (mem_in m) \<and> snd (mem_in m) \<le> 1032 \<and>
     fst (mem_out m) = snd (mem_out m) \<and> snd (mem_out m) \<le> 1032"

text \<open>What the kernel and \<open>new\<close> promise for one accepted connection.\<close>

definition offered :: "resources \<Rightarrow> int \<Rightarrow> fcntl \<Rightarrow> server \<Rightarrow> bool" where
  "offered su connfd fcntl s \<longleftrightarrow>
     objects s (new_object su) = None \<and> (\<forall>l. chs (pollers s l) (new_channel su) = None) \<and>
     0 \<le> connfd \<and> connfd < max_files \<and> (\<forall>l p c. chs (pollers s l) p = Some c \<longrightarrow> fd c \<noteq> connfd) \<and>
     (\<forall>h d bs. writes su (h @ [WriteCall d bs]) \<le> int (length bs)) \<and>
     (\<forall>h d len bs. reads su (h @ [ReadCall d len]) = ReadvBytes bs \<longrightarrow> length bs \<le> len) \<and>
     (\<forall>cmd arg. errno_valid (fcntl connfd cmd arg)) \<and> errno_valid (fst (sockname su)) \<and>
     nextConnId s + 1 < 2 ^ 31"

lemma getLocalAddr_continues:
  assumes e: "logs_ok e" and r: "errno_valid r"
  shows "\<exists>a e'. getLocalAddr r nm e = Inr (a, e') \<and> logs_ok e'"
proof -
  obtain ret e1 where 1: "syscall r e = (ret, e1)" by fastforce
  have "logs_ok e1" using syscall_logs [OF e r] 1 by simp
  from LOG_SYSERR_continues [OF this, of "[Chars ''sockets::getLocalAddr'']" 149] 1 this show ?thesis
    by (auto simp: getLocalAddr_def in_i32_def)
qed

lemma TcpConnection_new_base:
  assumes "lucky_memory m" and "\<And>h d bs. kw (h @ [WriteCall d bs]) \<le> int (length bs)"
    and "\<And>h d len bs. kr (h @ [ReadCall d len]) = ReadvBytes bs \<Longrightarrow> length bs \<le> len"
  shows "\<exists>conn. TcpConnection_new nm sockfd local peer m p pl kw kr = Inr conn \<and> conn_base conn \<and>
    state conn = None \<and> chan_ptr conn = p \<and>
    loop_poller conn = pl\<lparr>chs := (chs pl)(p \<mapsto> conn_channel sockfd)\<rparr>"
proof -
  have "\<exists>b. buffer_new r w = Inr b \<and> (r \<le> w \<and> w \<le> 1032 \<longrightarrow> wf_buffer b) \<and> (r = w \<longrightarrow> contents b = [])" for r w
    by (auto simp: buffer_new_def vector_new_def kCheapPrepend_def kInitialSize_def wf_buffer_def contents_def
        word_le_nat_alt simp del: replicate.simps)
  then obtain bi bo where b: "buffer_new (fst (mem_in m)) (snd (mem_in m)) = Inr bi" "wf_buffer bi"
    "buffer_new (fst (mem_out m)) (snd (mem_out m)) = Inr bo" "wf_buffer bo" "contents bo = []"
    using assms(1) unfolding lucky_memory_def by (metis order_refl)
  moreover obtain a where "mem_peer m = Some a" using assms(1) by (auto simp: lucky_memory_def)
  ultimately show ?thesis
    using assms(2,3) by (auto simp: TcpConnection_new_def conn_base_def kernel_ok_def)
qed

lemma connection_name_length: "length (connection_name base k) \<le> length base + 31"
  by (simp add: connection_name_def snprintf_def)

lemma toHostPort_length: "length (InetAddress_toHostPort a) \<le> 31"
  by (simp add: InetAddress_toHostPort_def toHostPort_def snprintf_def Let_def)

text \<open>A new object whose channel was just placed on the heap of its loop.\<close>

lemma add_object_safe:
  assumes safe: "safe (s, e)" and e': "logs_ok e'"
    and heap: "\<And>m. chs (pollers s m) (chan_ptr conn) = None"
    and mine: "poller_sound (loop_poller conn)" "slot_ok (loop_poller conn) conn"
    and others: "\<And>q. q \<noteq> chan_ptr conn \<Longrightarrow>
      attachable q (loop_poller conn) = attachable q (pollers s l) \<and>
      registered q (loop_poller conn) = registered q (pollers s l)"
  shows "safe (s\<lparr>nextConnId := n, threadPool := p, objects := (objects s)(c \<mapsto> (l, conn)),
      pollers := (pollers s)(l := loop_poller conn), connections := cs\<rparr>, e')" (is "safe (?s, e')")
proof (rule safeI)
  have fresh: "attachable q (pollers s m) \<Longrightarrow> q \<noteq> chan_ptr conn" for q m
    using heap [of m] by (auto simp: attachable_def)
  then have acc: "acceptChannel (srv_acceptor s) \<noteq> chan_ptr conn" using safeD(4) [OF safe] by auto
  have old: "slot_ok (((pollers s)(l := loop_poller conn)) m) y \<and> chan_ptr y \<noteq> chan_ptr conn"
    if d: "objects s d = Some (m, y)" for d m y
  proof -
    have "slot_ok (pollers s m) y" by (rule safe_objectsD(1) [OF safeD(5) [OF safe] d])
    moreover from this have "chan_ptr y \<noteq> chan_ptr conn" using fresh by (auto simp: slot_ok_def)
    ultimately show ?thesis using others by (cases "m = l") (auto simp: slot_ok_def)
  qed
  show "poller_sound (pollers ?s m)" for m using safeD(3) [OF safe] mine(1) by simp
  show "attachable (acceptChannel (srv_acceptor ?s)) (pollers ?s BaseLoop)"
    using safeD(4) [OF safe] acc others by auto
  show "safe_objects ?s"
  proof (rule safe_objectsI)
    show "slot_ok (pollers ?s m) y \<and> (m = BaseLoop \<longrightarrow> chan_ptr y \<noteq> acceptChannel (srv_acceptor ?s))"
      if "objects ?s d = Some (m, y)" for d m y
      using that mine(2) acc old [of d m y] safe_objectsD(2) [OF safeD(5) [OF safe], of d m y]
      by (cases "d = c") auto
    show "d = d'" if "objects ?s d = Some (m, x)" "objects ?s d' = Some (m, y)" "chan_ptr x = chan_ptr y" for d d' m x y
      using that old [of d m x] old [of d' m y] safe_objectsD(3) [OF safeD(5) [OF safe], of d m x d' y]
      by (cases "d = c"; cases "d' = c") auto
  qed
qed (use safeD [OF safe] e' in simp_all)

text \<open>\<open>newConnection\<close> up to the construction of the connection.\<close>

lemma newConnection_upto:
  assumes safe: "safe (s, e)" and off: "offered su connfd fcntl s" and pool: "pool_ok (threadPool s)"
    and id: "1 \<le> nextConnId s"
  defines "nm \<equiv> connection_name (srv_name s) (nextConnId s)"
  shows "\<exists>l p local e2. logs_ok e2 \<and> newConnection cb su connfd peer (s, e) =
    bindO (TcpConnection_new nm connfd local peer (new_memory su) (new_channel su) (pollers s l) (writes su) (reads su))
      (\<lambda>conn. task_runInLoop cb BaseLoop l (Established (new_object su))
        (s\<lparr>nextConnId := nextConnId s + 1, threadPool := p, objects := (objects s)(new_object su \<mapsto> (l, conn)),
          pollers := (pollers s)(l := loop_poller conn), connections := (connections s)(nm \<mapsto> new_object su)\<rparr>, e2))"
proof -
  have n: "in_i32 (nextConnId s + 1)" using off id by (simp add: offered_def in_i32_def)
  let ?body = "[Chars ''TcpServer::newConnection ['', Chars (srv_name s), Chars ''] - new connection ['',
      Chars nm, Chars ''] from '', Chars (InetAddress_toHostPort peer)]"
  have "\<forall>x \<in> set ?body. item_ok x"
    using safeD(2) [OF safe] connection_name_length [of "srv_name s" "nextConnId s"] toHostPort_length [of peer]
    by (auto simp: nm_def)
  then obtain e1 where e1: "log_or_die (LOG_INFO TcpServer_cc 52 ?body e) = Inr e1" "logs_ok e1"
    using LOG_INFO_continues [OF safeD(1) [OF safe], of ?body 52 TcpServer_cc]
    by (auto simp: in_i32_def TcpServer_cc_def)
  obtain local e2 where e2: "getLocalAddr (fst (sockname su)) (snd (sockname su)) e1 = Inr (local, e2)" "logs_ok e2"
    using getLocalAddr_continues [OF e1(2), of "fst (sockname su)" "snd (sockname su)"] off
    by (auto simp: offered_def)
  obtain l p where l: "getNextLoop (threadPool s) = Inr (l, p)"
    using getNextLoop_run [OF pool refl] by blast
  have "newConnection cb su connfd peer (s, e) =
    bindO (TcpConnection_new nm connfd local peer (new_memory su) (new_channel su) (pollers s l) (writes su) (reads su))
      (\<lambda>conn. task_runInLoop cb BaseLoop l (Established (new_object su))
        (s\<lparr>nextConnId := nextConnId s + 1, threadPool := p, objects := (objects s)(new_object su \<mapsto> (l, conn)),
          pollers := (pollers s)(l := loop_poller conn), connections := (connections s)(nm \<mapsto> new_object su)\<rparr>, e2))"
    using n e1(1) e2(1) l by (simp add: newConnection_def Let_def chk32_def nm_def)
  with e2(2) show ?thesis by blast
qed

lemma newConnection_safe:
  assumes safe: "safe (s, e)" and off: "offered su connfd fcntl s" and lucky: "lucky_memory (new_memory su)"
    and pool: "pool_ok (threadPool s)" and id: "1 \<le> nextConnId s" and cb: "user_safe cb"
  shows "\<exists>w'. newConnection cb su connfd peer (s, e) = Inr w' \<and> safe w'"
proof -
  let ?c = "new_object su" and ?p = "new_channel su" and ?nm = "connection_name (srv_name s) (nextConnId s)"
  obtain l p local e2 where e2: "logs_ok e2" and new: "newConnection cb su connfd peer (s, e) =
    bindO (TcpConnection_new ?nm connfd local peer (new_memory su) ?p (pollers s l) (writes su) (reads su))
      (\<lambda>conn. task_runInLoop cb BaseLoop l (Established ?c)
        (s\<lparr>nextConnId := nextConnId s + 1, threadPool := p, objects := (objects s)(?c \<mapsto> (l, conn)),
          pollers := (pollers s)(l := loop_poller conn), connections := (connections s)(?nm \<mapsto> ?c)\<rparr>, e2))"
    using newConnection_upto [OF safe off pool id, of cb peer] by blast
  let ?pl = "pollers s l"
  obtain conn where conn: "TcpConnection_new ?nm connfd local peer (new_memory su) ?p ?pl (writes su) (reads su) = Inr conn"
    "conn_base conn" "state conn = None" "chan_ptr conn = ?p"
    "loop_poller conn = ?pl\<lparr>chs := (chs ?pl)(?p \<mapsto> conn_channel connfd)\<rparr>"
    using TcpConnection_new_base [OF lucky, of "writes su" "reads su" ?nm connfd local peer ?p ?pl] off
    by (auto simp: offered_def)
  have chan: "fd (conn_channel connfd) = connfd" "index (conn_channel connfd) < 0"
    by (simp_all add: conn_channel_def channel_new_def)
  have free: "\<And>q d. chs ?pl q = Some d \<Longrightarrow> fd d \<noteq> fd (conn_channel connfd)"
    using off chan by (auto simp: offered_def)
  have heap: "chs (pollers s m) ?p = None" for m using off by (simp add: offered_def)
  have range: "0 \<le> fd (conn_channel connfd)" "fd (conn_channel connfd) < max_files"
    using off chan by (simp_all add: offered_def)
  note chan' = new_channel_sound [OF safeD(3) [OF safe, of l] heap [of l] range chan(2) free, folded conn(5)]
  let ?s = "s\<lparr>nextConnId := nextConnId s + 1, threadPool := p, objects := (objects s)(?c \<mapsto> (l, conn)),
      pollers := (pollers s)(l := loop_poller conn), connections := (connections s)(?nm \<mapsto> ?c)\<rparr>"
  have "slot_ok (loop_poller conn) conn" using chan'(2) conn by (simp add: slot_ok_def)
  with add_object_safe [OF safe e2, of conn l] heap chan'(1,3,4) conn(4) have "safe (?s, e2)" by simp
  from runInLoop_safe [OF this _ _ cb, of "Established ?c" BaseLoop l]
  obtain w' where "task_runInLoop cb BaseLoop l (Established ?c) (?s, e2) = Inr w'" "safe w'" by auto
  with new conn(1) show ?thesis by auto
qed

text \<open>
  Without luck: an indeterminate \<open>peerAddr_\<close> makes the construction undefined, and an input buffer
  whose write index lies outside the vector makes the first read undefined.
\<close>

lemma unlucky_peer:
  assumes "safe (s, e)" "offered su connfd fcntl s" "pool_ok (threadPool s)" "1 \<le> nextConnId s"
    and "mem_peer (new_memory su) = None"
  shows "newConnection cb su connfd peer (s, e) = Inl UB"
  using newConnection_upto [OF assms(1-4), of cb peer] assms(5) by (auto simp: TcpConnection_new_def)

lemma unlucky_buffer:
  assumes new: "TcpConnection_new nm sockfd local peer mem p pl kw kr = Inr conn" and w: "1032 < snd (mem_in mem)"
    and same: "inputBuffer conn' = inputBuffer conn" "get_chan conn' \<noteq> None"
  shows "TcpConnection.handleRead t conn' = Inl UB"
proof -
  from new have "buffer_new (fst (mem_in mem)) (snd (mem_in mem)) = Inr (inputBuffer conn)"
    by (auto simp: TcpConnection_new_def outcome_simps split: option.splits)
  then have "inputBuffer conn = \<lparr>buffer_data = replicate 1032 0, readerIndex = fst (mem_in mem),
      writerIndex = snd (mem_in mem)\<rparr>"
    by (simp add: buffer_new_def vector_new_def kCheapPrepend_def kInitialSize_def del: replicate.simps)
  then have "writerIndex (inputBuffer conn) = snd (mem_in mem)" "vector_size (inputBuffer conn) = 1032"
    by (simp_all add: vector_size_def del: replicate.simps)
  with w have "\<not> writerIndex (inputBuffer conn') \<le> vector_size (inputBuffer conn')"
    unfolding same(1) by simp
  then have "readFd r (inputBuffer conn') = Inl UB" for r by (simp add: readFd_def Let_def)
  with same(2) show ?thesis by (auto simp: TcpConnection.handleRead_def the_chan_get Let_def)
qed

section \<open>Steps in a world that keeps its promises\<close>

inductive safe_step :: "conn_user \<Rightarrow> world \<Rightarrow> world \<Rightarrow> bool" for cb :: conn_user where
  accepts: "offered su connfd fcntl (fst w) \<Longrightarrow> lucky_memory (new_memory su) \<Longrightarrow>
    listenning (srv_acceptor (fst w)) \<Longrightarrow>
    server_handleRead cb su fcntl (Ok connfd) peer close_reply w = Inr w' \<Longrightarrow> safe_step cb w w'"
| restarts: "0 \<le> r \<Longrightarrow> server_start cb created (Ok r) here w = Inr w' \<Longrightarrow> safe_step cb w w'"
| runs: "tasks s l = t # ts \<Longrightarrow> run_task cb t (s\<lparr>tasks := (tasks s)(l := ts)\<rparr>, e) = Inr w' \<Longrightarrow>
    safe_step cb (s, e) w'"
| works: "objects s c = Some (l, conn) \<Longrightarrow> state conn \<noteq> None \<Longrightarrow> on_object c (conn_do x) s = Inr s' \<Longrightarrow>
    safe_step cb (s, e) (s', e)"

lemma safe_step_step: "safe_step cb w w' \<Longrightarrow> server_step cb False w w'"
  by (induction rule: safe_step.induct) (auto simp: offered_def intro: server_step.intros)

definition safe_start :: "int \<Rightarrow> world \<Rightarrow> bool" where
  "safe_start n w \<longleftrightarrow> fresh_server n w \<and> safe w"

text \<open>The constructor establishes this on any loops whose pollers are sound.\<close>

lemma constructed_safe:
  assumes new: "TcpServer_new addr fcntl (Ok sockfd) so (Ok r) p cb pls e = Inr (s, e')"
    and fd: "0 \<le> sockfd" "sockfd < max_files" "\<And>q c. chs (pls BaseLoop) q = Some c \<Longrightarrow> fd c \<noteq> sockfd"
    and heap: "chs (pls BaseLoop) p = None" and pls: "\<And>l. poller_sound (pls l)" and "logs_ok e" "0 \<le> r"
    and replies: "\<And>cmd arg. errno_valid (fcntl sockfd cmd arg)" "errno_valid (so 1)"
  shows "safe_start n (setThreadNum n s, e')"
proof -
  let ?c = "(channel_new sockfd)\<lparr>readCallback := Some cb\<rparr>" and ?pl = "pls BaseLoop"
  have c: "fd ?c = sockfd" "index ?c < 0" by (simp_all add: channel_new_def)
  note chan = new_channel_sound [OF pls heap, of ?c, unfolded c(1), OF fd(1,2) c(2) fd(3)]
  have e': "logs_ok e'" and s: "acceptChannel (srv_acceptor s) = p" "objects s = Map.empty" "tasks s = (\<lambda>_. [])"
      "pollers s = pls(BaseLoop := ?pl\<lparr>chs := (chs ?pl)(p \<mapsto> ?c)\<rparr>)" "srv_name s = InetAddress_toHostPort addr"
    using new fd(1) \<open>0 \<le> r\<close> setNonBlock_logs [OF \<open>logs_ok e\<close>, of fcntl sockfd] replies
    by (auto simp: TcpServer_new_def Acceptor_new_def createNonblockingOrDie_def Socket_bindAddress_def bindOrDie_def
        syscall_def outcome_simps Let_def setReuseAddr_def errno_valid_def intro: logs_ok_errno
        split: reply.splits)
  have "safe (setThreadNum n s, e')"
    using e' s chan(1,2) pls toHostPort_length [of addr]
    by (intro safeI) (auto simp: setThreadNum_def safe_objects_def)
  with constructed_fresh [OF new] show ?thesis by (simp add: safe_start_def)
qed

lemma popped_safe:
  assumes safe: "safe (s, e)" and q: "tasks s l = t # ts"
  shows "safe (s\<lparr>tasks := (tasks s)(l := ts)\<rparr>, e)" "safe_task t"
proof -
  have "safe_task u" if "u \<in> set (((tasks s)(l := ts)) m)" for u m
    using safeD(6) [OF safe popped_subset [of "tasks s", OF q that]] .
  then show "safe (s\<lparr>tasks := (tasks s)(l := ts)\<rparr>, e)" by (rule safe_queues [OF safe])
  show "safe_task t" using safeD(6) [OF safe, of t l] q by simp
qed

lemma safe_start_fields:
  assumes "safe (s, e)"
  shows "safe (s\<lparr>srv_started := b, threadPool := p\<rparr>, e)"
  using safeD [OF assms] by (intro safeI) (auto intro: safe_objects_frame)

text \<open>Every operation returns, and leaves a safe state.\<close>

definition all_safe :: "world outcome \<Rightarrow> bool" where
  "all_safe m \<longleftrightarrow> (\<exists>w'. m = Inr w' \<and> safe w')"

lemma accept_runs_new:
  assumes "offered su connfd fcntl s"
  shows "server_handleRead cb su fcntl (Ok connfd) peer close_reply (s, e) =
    newConnection cb su connfd peer (s, setNonBlockAndCloseOnExec fcntl connfd e)"
  using assms by (simp add: offered_def server_handleRead_def Acceptor_handleRead_def Socket_accept_def
      sockets_accept_def syscall_def Let_def)

lemma accept_ready:
  assumes "safe (s, e)" and "offered su connfd fcntl s" and sp: "spread_inv n s" and lis: "listenning (srv_acceptor s)"
  shows "safe (s, setNonBlockAndCloseOnExec fcntl connfd e)" "pool_ok (threadPool s)"
proof -
  have "logs_ok (setNonBlockAndCloseOnExec fcntl connfd e)"
    using setNonBlock_logs [OF safeD(1) [OF assms(1)]] assms(2) by (simp add: offered_def)
  with assms(1) show "safe (s, setNonBlockAndCloseOnExec fcntl connfd e)" by (simp add: safe_def)
  show "pool_ok (threadPool s)" using sp lis by (auto simp: spread_inv_def split: if_splits)
qed

lemma accept_all_safe:
  assumes safe: "safe (s, e)" and off: "offered su connfd fcntl s" and lucky: "lucky_memory (new_memory su)"
    and sp: "spread_inv n s" and inv: "server_inv s" and lis: "listenning (srv_acceptor s)" and cb: "user_safe cb"
  shows "all_safe (server_handleRead cb su fcntl (Ok connfd) peer close_reply (s, e))"
  using newConnection_safe [OF accept_ready(1) [OF safe off sp lis] off lucky accept_ready(2) [OF safe off sp lis]
      server_invD(1) [OF inv] cb]
  by (simp add: all_safe_def accept_runs_new [OF off])

lemma accept_unlucky:
  assumes safe: "safe (s, e)" and off: "offered su connfd fcntl s" and m: "mem_peer (new_memory su) = None"
    and sp: "spread_inv n s" and inv: "server_inv s" and lis: "listenning (srv_acceptor s)"
  shows "server_handleRead cb su fcntl (Ok connfd) peer close_reply (s, e) = Inl UB"
  unfolding accept_runs_new [OF off]
  by (rule unlucky_peer [OF accept_ready(1) [OF safe off sp lis] off accept_ready(2) [OF safe off sp lis]
      server_invD(1) [OF inv] m])

lemma start_all_safe:
  assumes safe: "safe (s, e)" and r: "0 \<le> r" and cb: "user_safe cb"
    and pool: "\<not> srv_started s \<Longrightarrow> pool_start created (threadPool s) = Inr p"
  shows "all_safe (server_start cb created (Ok r) here (s, e))"
proof -
  obtain s1 where s1: "(if \<not> srv_started s
      then bindO (pool_start created (threadPool s)) (\<lambda>p. Inr (s\<lparr>srv_started := True, threadPool := p\<rparr>))
      else Inr s) = Inr s1" "safe (s1, e)"
    using pool safe safe_start_fields [OF safe] by (cases "srv_started s") auto
  from runInLoop_safe [OF s1(2) _ _ cb, of "Listen (Ok r)" here BaseLoop] r s1 show ?thesis
    by (auto simp: all_safe_def server_start_def)
qed

lemma task_all_safe:
  assumes safe: "safe (s, e)" and q: "tasks s l = t # ts" and inv: "server_inv s" and cb: "user_safe cb"
  shows "all_safe (run_task cb t (s\<lparr>tasks := (tasks s)(l := ts)\<rparr>, e))"
proof -
  have "task_known s t" using server_invD(6) [OF inv, of t l] q by simp
  then have "task_known (s\<lparr>tasks := (tasks s)(l := ts)\<rparr>) t" by (cases t) simp_all
  from run_task_safe [OF popped_safe [OF safe q] this cb] show ?thesis by (simp add: all_safe_def)
qed

lemma safe_step_safe:
  assumes step: "safe_step cb w w'" and cb: "user_safe cb"
    and inv: "safe w" "server_inv (fst w)" "spread_inv n (fst w)"
  shows "safe w'"
  using step inv
proof (induction rule: safe_step.induct)
  case (accepts su connfd fcntl w peer close_reply w')
  obtain s e where w: "w = (s, e)" by fastforce
  have "all_safe (server_handleRead cb su fcntl (Ok connfd) peer close_reply (s, e))"
    by (rule accept_all_safe [where n = n]) (use accepts cb w in simp_all)
  with accepts(4) show ?case by (simp add: all_safe_def w)
next
  case (restarts r created here w w')
  obtain s e where w: "w = (s, e)" by fastforce
  have "\<exists>p. pool_start created (threadPool s) = Inr p" if "\<not> srv_started s"
    using restarts(2) that by (auto simp: server_start_def w outcome_simps)
  then have "all_safe (server_start cb created (Ok r) here (s, e))"
    using start_all_safe [OF _ restarts(1) cb, of s e] restarts(3) w by metis
  with restarts(2) show ?case by (simp add: all_safe_def w)
next
  case (runs s l t ts e w')
  then show ?case using task_all_safe [OF _ runs(1) _ cb] by (fastforce simp: all_safe_def)
next
  case (works s c l conn x s' e)
  from works_safe [OF works(4,1,2), of x] works(3) show ?case by simp
qed

interpretation secure: machine "safe_start n" "safe_step cb"
    "\<lambda>w. user_safe cb \<and> in_i32 n \<longrightarrow> safe w \<and> server_inv (fst w) \<and> spread_inv n (fst w)"
  for n cb
proof
  fix w
  assume "safe_start n w"
  then have "fresh_server n w" "safe w" by (simp_all add: safe_start_def)
  then show "user_safe cb \<and> in_i32 n \<longrightarrow> safe w \<and> server_inv (fst w) \<and> spread_inv n (fst w)"
    using srv.inv_init [of n w cb] spread.inv_init [of n w cb] by (auto simp: user_safe_def)
next
  fix w w'
  assume "user_safe cb \<and> in_i32 n \<longrightarrow> safe w \<and> server_inv (fst w) \<and> spread_inv n (fst w)" "safe_step cb w w'"
  then show "user_safe cb \<and> in_i32 n \<longrightarrow> safe w' \<and> server_inv (fst w') \<and> spread_inv n (fst w')"
    using safe_step_safe [of cb w w' n] server_step_inv [OF safe_step_step [of cb w w']]
      server_step_spread [OF safe_step_step [of cb w w'], of n] by (auto simp: user_safe_def)
qed

section \<open>Properties\<close>

lemma demo_log_quiet: "logs_ok (demo_env\<lparr>g_logLevel := ERROR\<rparr>)"
  by (simp add: logs_ok_def env_ok_def demo_env_def in_i32_def year_10000_def)

lemma demo_world_safe: "safe_start 1 demo_world"
proof -
  let ?pl = "poller_new [1 \<mapsto> channel_new 5] :: conn_callback poller"
  have "poller_inv ?pl" by (simp add: poller_inv_def poller_new_def channel_new_def)
  then have "poller_sound ?pl" by (auto simp: poller_sound_def poller_new_def channel_new_def max_files_def)
  moreover have "attachable 1 ?pl" by (simp add: attachable_def poller_new_def channel_new_def)
  ultimately have "safe demo_world"
    using demo_log_quiet by (simp add: safe_def safe_objects_def demo_world_def)
  moreover have "fresh_server 1 demo_world" by (simp add: fresh_server_def demo_world_def)
  ultimately show ?thesis by (simp add: safe_start_def)
qed

lemma demo_started:
  "\<exists>s. server_start cb (\<lambda>_. True) (Ok 0) BaseLoop demo_world = Inr (s, snd demo_world) \<and>
     offered demo_resources 7 demo_fcntl s \<and> listenning (srv_acceptor s)"
  by (simp add: server_start_def demo_world_def pool_start_def pool_setThreadNum_def pool_new_def
      start_one_def Thread_start_def task_runInLoop_def Acceptor_listen_def Socket_listen_def
      listenOrDie_def syscall_def Let_def enableReading_def set_and_update_def updateChannel_def
      poller_new_def deref_def want_reading_def channel_new_def in_i32_def set_index_def
      offered_def demo_resources_def demo_fcntl_def errno_valid_def max_files_def)

definition demo_unlucky :: conn_memory where
  "demo_unlucky = \<lparr>mem_peer = None, mem_in = (8, 8), mem_out = (8, 8)\<rparr>"

lemma demo_lucky: "lucky_memory (new_memory demo_resources)"
  by (simp add: lucky_memory_def demo_resources_def)



end
