(* ===== verification/LoopSetup.thy ===== *)
theory LoopSetup
  imports ServerSafety TimerQueue
begin

text \<open>
  The constructors of \<open>EventLoop\<close> and \<open>TimerQueue\<close> on the loop's poller: the two descriptors a
  loop owns, their channels, and how the channels reach the poller through
  \<open>EventLoop::updateChannel\<close>.  The states of the functor queue and of the timer queue that the
  constructors leave are in the theories of these parts; here is what they do to the poller.

  The addresses \<open>tp\<close> and \<open>wp\<close> of the two channels, the bound callbacks and the replies of
  \<open>timerfd_create\<close> and \<open>eventfd\<close> are arguments.  The log statements are executed, since this
  is where a loop's first lines come from and a failing descriptor ends the process.
\<close>

section \<open>Operations\<close>

definition EventLoop_cc :: string where
  "EventLoop_cc = ''EventLoop.cc''"

definition TimerQueue_cc :: string where
  "TimerQueue_cc = ''TimerQueue.cc''"

text \<open>After the message of \<open>LOG_SYSERR\<close> the process is aborted.\<close>

definition createEventfd :: "reply \<Rightarrow> log_env \<Rightarrow> (int \<times> log_env) outcome" where
  "createEventfd eventfd_reply e =
     (let (evtfd, e1) = syscall eventfd_reply e
      in if evtfd < 0
         then bindO (log_or_die (LOG_SYSERR EventLoop_cc 17 [Chars ''Failed in eventfd''] e1)) (\<lambda>_. Inl Abort)
         else Inr (evtfd, e1))"

definition createTimerfd :: "reply \<Rightarrow> log_env \<Rightarrow> (int \<times> log_env) outcome" where
  "createTimerfd timerfd_reply e =
     (let (timerfd, e1) = syscall timerfd_reply e
      in bindO (if timerfd < 0
                then log_or_die (LOG_SYSFATAL TimerQueue_cc 20 [Chars ''Failed in timerfd_create''] e1)
                else Inr e1) (\<lambda>e2. Inr (timerfd, e2)))"

definition loop_updateChannel :: "cptr \<Rightarrow> 'cb poller \<times> log_env \<Rightarrow> ('cb poller \<times> log_env) outcome" where
  "loop_updateChannel p w =
     (case w of (pl, e) \<Rightarrow>
        bindO (log_or_die (LOG_TRACE EventLoop_cc 83 ''updateChannel''
                 [Chars ''EventLoop::updateChannel   before poller_->updateChannel(channel);''] e)) (\<lambda>e1.
        bindO (updateChannel p pl) (\<lambda>pl1.
        bindO (log_or_die (LOG_TRACE EventLoop_cc 85 ''updateChannel''
                 [Chars ''EventLoop::updateChannel   after poller_->updateChannel(channel);''] e1)) (\<lambda>e2.
          Inr (pl1, e2)))))"

definition loop_removeChannel :: "cptr \<Rightarrow> 'cb poller \<Rightarrow> 'cb poller outcome" where
  "loop_removeChannel p pl = removeChannel p pl"

text \<open>
  \<open>Poller::poll\<close> as the loop calls it: the system call, the reading of the clock, which is the
  result, the collection of the active channels, and a log line.
\<close>

definition Poller_poll ::
    "reply \<Rightarrow> 16 word list \<Rightarrow> int \<times> int \<Rightarrow> 'cb poller \<times> log_env \<Rightarrow>
     (timestamp \<times> cptr list \<times> 'cb poller \<times> log_env) outcome" where
  "Poller_poll poll_reply revs tv w =
     (case w of (pl, e) \<Rightarrow>
        let (numEvents, e1) = syscall poll_reply e in
        bindO (Timestamp_now tv) (\<lambda>now.
        bindO (poll numEvents revs pl) (\<lambda>(ps, pl1).
        bindO (log_or_die
                 (if numEvents > 0
                  then LOG_TRACE ''Poller.cc'' 53 ''poll'' [Number numEvents, Chars '' events happended''] e1
                  else if numEvents = 0 then LOG_TRACE ''Poller.cc'' 56 ''poll'' [Chars ''nothing happended''] e1
                  else LOG_SYSERR ''Poller.cc'' 59 [Chars ''Poller::poll()''] e1)) (\<lambda>e2.
          Inr (now, ps, pl1, e2)))))"

text \<open>\<open>Channel::enableReading\<close>, with the \<open>update()\<close> at its end.\<close>

definition loop_enableReading :: "cptr \<Rightarrow> 'cb poller \<times> log_env \<Rightarrow> ('cb poller \<times> log_env) outcome" where
  "loop_enableReading p w =
     (case w of (pl, e) \<Rightarrow>
        bindO (deref (chs pl) p) (\<lambda>c.
          loop_updateChannel p (pl\<lparr>chs := (chs pl)(p \<mapsto> want_reading c)\<rparr>, e)))"

text \<open>A channel is constructed, then gets its read callback.\<close>

definition make_channel :: "cptr \<Rightarrow> int \<Rightarrow> 'cb \<Rightarrow> 'cb poller \<Rightarrow> 'cb poller" where
  "make_channel p d cb pl = pl\<lparr>chs := (chs pl)(p \<mapsto> (channel_new d)\<lparr>readCallback := Some cb\<rparr>)\<rparr>"

definition TimerQueue_new ::
    "reply \<Rightarrow> cptr \<Rightarrow> 'cb \<Rightarrow> 'cb poller \<times> log_env \<Rightarrow> (int \<times> 'cb poller \<times> log_env) outcome" where
  "TimerQueue_new timerfd_reply tp cb w =
     (case w of (pl, e) \<Rightarrow>
        bindO (createTimerfd timerfd_reply e) (\<lambda>(timerfd, e1).
        bindO (log_or_die (LOG_TRACE TimerQueue_cc 75 ''TimerQueue''
                 [Chars ''TimerQueue::TimerQueue() before enableReading()''] e1)) (\<lambda>e2.
        bindO (loop_enableReading tp (make_channel tp timerfd cb pl, e2)) (\<lambda>(pl1, e3).
        bindO (log_or_die (LOG_TRACE TimerQueue_cc 77 ''TimerQueue''
                 [Chars ''TimerQueue::TimerQueue() after enableReading()''] e3)) (\<lambda>e4.
          Inr (timerfd, pl1, e4))))))"

text \<open>
  The members are initialised in the order of their declaration: the poller, the timer queue, the
  wakeup descriptor, its channel.  (The functor queue and the flags of a new loop are
  \<open>EventLoop_new\<close> in the theory of the event loop.)
\<close>

definition EventLoop_construct ::
    "reply \<Rightarrow> reply \<Rightarrow> cptr \<Rightarrow> cptr \<Rightarrow> 'cb \<Rightarrow> 'cb \<Rightarrow> log_env \<Rightarrow>
     (int \<times> int \<times> 'cb poller \<times> log_env) outcome" where
  "EventLoop_construct timerfd_reply eventfd_reply tp wp timer_cb wakeup_cb e =
     bindO (log_or_die (LOG_TRACE ''Poller.cc'' 10 ''Poller'' [Chars ''Poller::Poller() end''] e)) (\<lambda>e1.
     bindO (TimerQueue_new timerfd_reply tp timer_cb (poller_new Map.empty, e1)) (\<lambda>(timerfd, pl, e2).
     bindO (createEventfd eventfd_reply e2) (\<lambda>(wakeupFd, e3).
     bindO (log_or_die (LOG_TRACE EventLoop_cc 46 ''EventLoop'' [Chars ''EventLoop created '']  e3)) (\<lambda>e4.
     bindO (loop_enableReading wp (make_channel wp wakeupFd wakeup_cb pl, e4)) (\<lambda>(pl1, e5).
       Inr (timerfd, wakeupFd, pl1, e5))))))"

section \<open>The detour through the loop\<close>

lemma file_lengths: "length EventLoop_cc < 2 ^ 31" "length TimerQueue_cc < 2 ^ 31"
  by (simp_all add: EventLoop_cc_def TimerQueue_cc_def)

lemma trace_text:
  assumes "logs_ok e" "length file < 2 ^ 31" "length text < 2 ^ 31" "length func < 2 ^ 31" "in_i32 line"
  shows "\<exists>e'. log_or_die (LOG_TRACE file line func [Chars text] e) = Inr e' \<and> logs_ok e'"
  using LOG_TRACE_continues [OF assms(1) _ assms(5,2,4), of "[Chars text]"] assms(3) by auto

text \<open>\<open>Poller::poll\<close> returns the time and logs; to the poller it does what \<open>poll\<close> does.\<close>

lemma Poller_poll_run:
  assumes e: "logs_ok e" and tv: "sane_time tv" and r: "errno_valid r" and n: "syscall r e = (n, e1)" "in_i32 n"
    and pl: "poll n revs pl = Inr (ps, pl1)"
  shows "\<exists>e'. Poller_poll r revs tv (pl, e) = Inr (Timestamp (fst tv * 1000000 + snd tv), ps, pl1, e') \<and> logs_ok e'"
proof -
  let ?log = "if n > 0 then LOG_TRACE ''Poller.cc'' 53 ''poll'' [Number n, Chars '' events happended''] e1
      else if n = 0 then LOG_TRACE ''Poller.cc'' 56 ''poll'' [Chars ''nothing happended''] e1
      else LOG_SYSERR ''Poller.cc'' 59 [Chars ''Poller::poll()''] e1"
  have e1: "logs_ok e1" using syscall_logs [OF e r] n(1) by simp
  have "\<exists>e'. log_or_die ?log = Inr e' \<and> logs_ok e'"
    using LOG_TRACE_continues [OF e1, of "[Number n, Chars '' events happended'']" 53 "''Poller.cc''" "''poll''"]
      LOG_TRACE_continues [OF e1, of "[Chars ''nothing happended'']" 56 "''Poller.cc''" "''poll''"]
      SYSERR_continues [OF e1, of "[Chars ''Poller::poll()'']" 59 "''Poller.cc''"] n(2)
    by (auto simp: in_i32_def)
  then obtain e' where "log_or_die ?log = Inr e'" "logs_ok e'" by blast
  then show ?thesis using n(1) pl sane_now(1) [OF tv] by (simp add: Poller_poll_def)
qed

text \<open>\<open>EventLoop::updateChannel\<close> does to the poller what \<open>Poller::updateChannel\<close> does.\<close>

lemma loop_updateChannel_forwards:
  assumes e: "logs_ok e" and pl: "updateChannel p pl = Inr pl1"
  shows "\<exists>e'. loop_updateChannel p (pl, e) = Inr (pl1, e') \<and> logs_ok e'"
proof -
  let ?log = "\<lambda>line text e. log_or_die (LOG_TRACE EventLoop_cc line ''updateChannel'' [Chars text] e)"
  let ?before = "''EventLoop::updateChannel   before poller_->updateChannel(channel);''"
  let ?after = "''EventLoop::updateChannel   after poller_->updateChannel(channel);''"
  obtain e1 where e1: "?log 83 ?before e = Inr e1" "logs_ok e1"
    using trace_text [OF e file_lengths(1), of ?before "''updateChannel''" 83] by (auto simp: in_i32_def)
  obtain e2 where "?log 85 ?after e1 = Inr e2" "logs_ok e2"
    using trace_text [OF e1(2) file_lengths(1), of ?after "''updateChannel''" 85] by (auto simp: in_i32_def)
  with e1(1) pl show ?thesis by (simp add: loop_updateChannel_def)
qed

lemma loop_enableReading_forwards:
  assumes e: "logs_ok e" and pl: "set_and_update want_reading p pl = Inr pl1"
  shows "\<exists>e'. loop_enableReading p (pl, e) = Inr (pl1, e') \<and> logs_ok e'"
proof -
  obtain c where c: "chs pl p = Some c" "updateChannel p (pl\<lparr>chs := (chs pl)(p \<mapsto> want_reading c)\<rparr>) = Inr pl1"
    using pl by (auto simp: set_and_update_def outcome_simps)
  from loop_updateChannel_forwards [OF e c(2)] c(1) show ?thesis
    by (simp add: loop_enableReading_def deref_def)
qed

definition unused :: "int \<Rightarrow> 'cb poller \<Rightarrow> bool" where
  "unused d pl \<longleftrightarrow> (\<forall>q c. chs pl q = Some c \<longrightarrow> fd c \<noteq> d)"

text \<open>A new channel that is enabled at once: one more descriptor is watched.\<close>

lemma start_watching:
  assumes sound: "poller_sound pl" and d: "0 \<le> d" "d < max_files" and p: "chs pl p = None"
    and free: "unused d pl" and e: "logs_ok e"
  shows "\<exists>pl' e' c. loop_enableReading p (make_channel p d cb pl, e) = Inr (pl', e') \<and> logs_ok e' \<and>
    poller_sound pl' \<and> watched pl' = (watched pl)(d \<mapsto> ucast kReadEvent) \<and>
    chs pl' = (chs pl)(p \<mapsto> c) \<and> fd c = d \<and> readCallback c = Some cb \<and> registered p pl'"
proof -
  let ?c = "(channel_new d)\<lparr>readCallback := Some cb\<rparr>"
  let ?pl = "make_channel p d cb pl"
  have c: "fd ?c = d" "index ?c < 0" by (simp_all add: channel_new_def)
  have new: "poller_sound ?pl"
    unfolding make_channel_def by (rule new_channel_sound(1) [OF sound p]) (use c d free in \<open>auto simp: unused_def\<close>)
  have at: "chs ?pl p = Some ?c" by (simp add: make_channel_def)
  have none: "channels ?pl (fd ?c) = None"
  proof (cases "channels pl d")
    case (Some q)
    from poller_invD(2) [OF poller_soundD(1) [OF sound] Some] obtain c' where "chs pl q = Some c'" "fd c' = d"
      by (rule channel_okE)
    with free show ?thesis by (auto simp: unused_def)
  qed (simp add: make_channel_def channel_new_def)
  have inv: "poller_inv ?pl" by (rule poller_soundD(1) [OF new])
  from update_new_inv [OF inv at none c(2) setters(1) sound_room [OF new]] obtain pl' where
    pl': "set_and_update want_reading p ?pl = Inr pl'" "poller_inv pl'"
      "channels pl' = (channels ?pl)(fd ?c \<mapsto> p)"
      "chs pl' = (chs ?pl)(p \<mapsto> set_index (int (length (pollfds ?pl))) (want_reading ?c))"
      "pollfds pl' = pollfds ?pl @
        [\<lparr>pfd_fd = fd ?c, pfd_events = ucast (events (want_reading ?c)), pfd_revents = 0\<rparr>]" by blast
  have near: "near p ?pl pl'" by (rule setter_near [OF pl'(1)]) (simp add: want_reading_def)
  have "watched pl' = (watched ?pl)(d \<mapsto> ucast kReadEvent)"
    using watched_new_entry [OF inv at none pl'(5)] by (simp add: want_reading_def channel_new_def)
  moreover have "watched ?pl = watched pl" by (simp add: watched_def make_channel_def fun_eq_iff)
  moreover obtain e' where "loop_enableReading p (?pl, e) = Inr (pl', e')" "logs_ok e'"
    using loop_enableReading_forwards [OF e pl'(1)] by blast
  moreover have "poller_sound pl'" by (rule near_sound [OF new pl'(2) near at])
  moreover have "registered p pl'" using pl'(3,4) by (simp add: registered_def set_index_def want_reading_def channel_new_def)
  ultimately show ?thesis
    using pl'(4) by (auto simp: make_channel_def set_index_def want_reading_def channel_new_def)
qed

section \<open>Failing descriptors\<close>

text \<open>Without its two descriptors a loop is not constructed: the process ends.\<close>

lemma createEventfd_fails:
  assumes "logs_ok e" "in_i32 err"
  shows "createEventfd (Err err) e = Inl Abort"
proof -
  have "logs_ok (e\<lparr>errno := err\<rparr>)" by (rule logs_ok_errno [OF assms])
  from SYSERR_continues [OF this _ _ file_lengths(1), of "[Chars ''Failed in eventfd'']" 17] show ?thesis
    by (auto simp: createEventfd_def syscall_def in_i32_def)
qed

lemma createTimerfd_fails:
  assumes "logs_ok e" "in_i32 err"
  shows "createTimerfd (Err err) e = Inl Abort"
proof -
  have "logs_ok (e\<lparr>errno := err\<rparr>)" by (rule logs_ok_errno [OF assms])
  from SYSFATAL_aborts [OF this _ _ file_lengths(2), of "[Chars ''Failed in timerfd_create'']" 20] show ?thesis
    by (simp add: createTimerfd_def syscall_def in_i32_def)
qed

section \<open>A constructed loop\<close>

lemma poller_new_sound: "poller_sound (poller_new Map.empty)"
  by (simp add: poller_sound_def poller_inv_def poller_new_def)

lemma TimerQueue_new_run:
  assumes sound: "poller_sound pl" and d: "0 \<le> d" "d < max_files" and p: "chs pl p = None"
    and free: "unused d pl" and e: "logs_ok e"
  shows "\<exists>pl' e' c. TimerQueue_new (Ok d) p cb (pl, e) = Inr (d, pl', e') \<and> logs_ok e' \<and>
    poller_sound pl' \<and> watched pl' = (watched pl)(d \<mapsto> ucast kReadEvent) \<and>
    chs pl' = (chs pl)(p \<mapsto> c) \<and> fd c = d \<and> readCallback c = Some cb"
proof -
  let ?log = "\<lambda>line text e. log_or_die (LOG_TRACE TimerQueue_cc line ''TimerQueue'' [Chars text] e)"
  let ?before = "''TimerQueue::TimerQueue() before enableReading()''"
  let ?after = "''TimerQueue::TimerQueue() after enableReading()''"
  obtain e1 where e1: "?log 75 ?before e = Inr e1" "logs_ok e1"
    using trace_text [OF e file_lengths(2), of ?before "''TimerQueue''" 75] by (auto simp: in_i32_def)
  obtain pl' e2 c where w: "loop_enableReading p (make_channel p d cb pl, e1) = Inr (pl', e2)" "logs_ok e2"
    "poller_sound pl'" "watched pl' = (watched pl)(d \<mapsto> ucast kReadEvent)"
    "chs pl' = (chs pl)(p \<mapsto> c)" "fd c = d" "readCallback c = Some cb"
    using start_watching [OF sound d p free e1(2)] by blast
  obtain e3 where "?log 77 ?after e2 = Inr e3" "logs_ok e3"
    using trace_text [OF w(2) file_lengths(2), of ?after "''TimerQueue''" 77] by (auto simp: in_i32_def)
  with e1(1) w d(1) show ?thesis
    by (intro exI [of _ pl'] exI [of _ e3] exI [of _ c]) (simp add: TimerQueue_new_def createTimerfd_def syscall_def)
qed

lemma EventLoop_construct_run:
  assumes e: "logs_ok e" and t: "0 \<le> t" "t < max_files" and w: "0 \<le> w" "w < max_files" "w \<noteq> t" and p: "wp \<noteq> tp"
  shows "\<exists>pl e' c d. EventLoop_construct (Ok t) (Ok w) tp wp tcb wcb e = Inr (t, w, pl, e') \<and>
    logs_ok e' \<and> poller_sound pl \<and> watched pl = [t \<mapsto> ucast kReadEvent, w \<mapsto> ucast kReadEvent] \<and>
    chs pl = [tp \<mapsto> c, wp \<mapsto> d] \<and> fd c = t \<and> readCallback c = Some tcb \<and>
    fd d = w \<and> readCallback d = Some wcb"
proof -
  let ?new = "poller_new Map.empty :: 'a poller"
  obtain e1 where e1: "log_or_die (LOG_TRACE ''Poller.cc'' 10 ''Poller'' [Chars ''Poller::Poller() end''] e) = Inr e1"
    "logs_ok e1" using trace_text [OF e, of "''Poller.cc''" "''Poller::Poller() end''" "''Poller''" 10]
    by (auto simp: in_i32_def)
  have empty: "chs ?new q = None" "watched ?new = Map.empty" "unused t ?new" "chs ?new = Map.empty" for q
    by (simp_all add: poller_new_def watched_def unused_def fun_eq_iff)
  obtain pl e2 c where tq: "TimerQueue_new (Ok t) tp tcb (?new, e1) = Inr (t, pl, e2)" "logs_ok e2"
    "poller_sound pl" "watched pl = [t \<mapsto> ucast kReadEvent]" "chs pl = [tp \<mapsto> c]" "fd c = t"
    "readCallback c = Some tcb"
    using TimerQueue_new_run [OF poller_new_sound t empty(1) empty(3) e1(2), of tp tcb] empty by auto
  obtain e3 where e3: "log_or_die (LOG_TRACE EventLoop_cc 46 ''EventLoop'' [Chars ''EventLoop created ''] e2) = Inr e3"
    "logs_ok e3" using trace_text [OF tq(2) file_lengths(1), of "''EventLoop created ''" "''EventLoop''" 46]
    by (auto simp: in_i32_def)
  have "chs pl wp = None" "unused w pl" using tq(5,6) p w(3) by (auto simp: unused_def)
  from start_watching [OF tq(3) w(1,2) this e3(2)] obtain pl' e4 d where
    "loop_enableReading wp (make_channel wp w wcb pl, e3) = Inr (pl', e4)" "logs_ok e4" "poller_sound pl'"
    "watched pl' = (watched pl)(w \<mapsto> ucast kReadEvent)" "chs pl' = (chs pl)(wp \<mapsto> d)" "fd d = w"
    "readCallback d = Some wcb" by blast
  with e1(1) tq e3(1) w(1) show ?thesis
    by (simp add: EventLoop_construct_def createEventfd_def syscall_def) blast
qed

section \<open>Properties\<close>

text \<open>
  C22.  The constructor of an event loop leaves a poller whose tables are consistent and with which the
  kernel watches exactly two descriptors for reading: that of the timers, whose channel calls
  the timer queue, and the wakeup descriptor, whose channel calls the loop; so a loop can be
  woken before it has any channel of a user.  If one of the two descriptors cannot be had, the process ends.
\<close>

theorem constructed_loop_watches:
  assumes "logs_ok e" and "0 \<le> t" "t < max_files" and "0 \<le> w" "w < max_files" "w \<noteq> t" and "wp \<noteq> tp"
    and "in_i32 err"
  shows "(\<exists>pl e' c d. EventLoop_construct (Ok t) (Ok w) tp wp tcb wcb e = Inr (t, w, pl, e') \<and>
      poller_inv pl \<and> watched pl = [t \<mapsto> ucast kReadEvent, w \<mapsto> ucast kReadEvent] \<and>
      chs pl tp = Some c \<and> fd c = t \<and> readCallback c = Some tcb \<and>
      chs pl wp = Some d \<and> fd d = w \<and> readCallback d = Some wcb) \<and>
    EventLoop_construct (Err err) w' tp wp tcb wcb e = Inl Abort \<and>
    EventLoop_construct (Ok t) (Err err) tp wp tcb wcb e = Inl Abort"
proof (intro conjI)
  obtain e1 where e1: "log_or_die (LOG_TRACE ''Poller.cc'' 10 ''Poller'' [Chars ''Poller::Poller() end''] e) = Inr e1"
    "logs_ok e1" using trace_text [OF assms(1), of "''Poller.cc''" "''Poller::Poller() end''" "''Poller''" 10]
    by (auto simp: in_i32_def)
  have empty: "chs (poller_new Map.empty) tp = None" "unused t (poller_new Map.empty)"
    by (simp_all add: poller_new_def unused_def)
  from TimerQueue_new_run [OF poller_new_sound assms(2,3) empty e1(2), of tcb] obtain pl e2 where
    "TimerQueue_new (Ok t) tp tcb (poller_new Map.empty, e1) = Inr (t, pl, e2)" "logs_ok e2" by blast
  with e1(1) show "EventLoop_construct (Ok t) (Err err) tp wp tcb wcb e = Inl Abort"
    by (simp add: EventLoop_construct_def createEventfd_fails [OF _ assms(8)])
  from e1 show "EventLoop_construct (Err err) w' tp wp tcb wcb e = Inl Abort"
    by (simp add: EventLoop_construct_def TimerQueue_new_def createTimerfd_fails [OF _ assms(8)])
qed (use EventLoop_construct_run [OF assms(1-7), of tcb wcb] assms(7) poller_soundD(1) in fastforce)

theorem constructed_loop_watches_witness:
  "\<exists>pl e'. EventLoop_construct (Ok 3) (Ok 4) 1 2 ReadCb WriteCb demo_env = Inr (3, 4, pl, e') \<and>
     watched pl = [3 \<mapsto> 3, 4 \<mapsto> 3]"
proof -
  have "ucast kReadEvent = (3 :: 16 word)" by (simp add: event_masks poll_bits)
  then show ?thesis
    using constructed_loop_watches [OF demo_logs_ok, of 3 4 2 1 0 ReadCb WriteCb "Ok 4"]
    by (auto simp: max_files_def in_i32_def)
qed

text \<open>
  C5.  The constructors of the loop and of the server, run on system calls that succeed, give a server
  in a safe initial state, the one that the theorem on the safety of the server starts from.  The loops of the pool are any loops whose pollers are consistent, such as those the
  same constructor makes.
\<close>

theorem constructors_give_safe_server:
  assumes "logs_ok e" and "0 \<le> t" "t < max_files" and "0 \<le> w" "w < max_files" "w \<noteq> t"
    and "0 \<le> sockfd" "sockfd < max_files" "sockfd \<noteq> t" "sockfd \<noteq> w"
    and "distinct [tp, wp, p]" and "\<forall>l. poller_sound (pls l)" and "0 \<le> r"
    and "\<forall>cmd arg. errno_valid (fcntl sockfd cmd arg)" and "errno_valid (setsockopt 1)"
  shows "\<exists>pl e1 s e2. EventLoop_construct (Ok t) (Ok w) tp wp tcb wcb e = Inr (t, w, pl, e1) \<and>
    TcpServer_new addr fcntl (Ok sockfd) setsockopt (Ok r) p cb (pls(BaseLoop := pl)) e1 = Inr (s, e2) \<and>
    safe_start n (setThreadNum n s, e2)"
proof -
  have tw: "wp \<noteq> tp" using assms(11) by auto
  from EventLoop_construct_run [OF assms(1-6) tw, of tcb wcb] obtain pl e1 c d where
    pl: "EventLoop_construct (Ok t) (Ok w) tp wp tcb wcb e = Inr (t, w, pl, e1)" "logs_ok e1"
      "poller_sound pl" "chs pl = [tp \<mapsto> c, wp \<mapsto> d]" "fd c = t" "fd d = w" by blast
  obtain s e2 where new: "TcpServer_new addr fcntl (Ok sockfd) setsockopt (Ok r) p cb (pls(BaseLoop := pl)) e1 = Inr (s, e2)"
    using assms(7,13) by (auto simp: TcpServer_new_def Acceptor_new_def createNonblockingOrDie_def
        Socket_bindAddress_def bindOrDie_def syscall_def Let_def split: prod.splits)
  have "safe_start n (setThreadNum n s, e2)"
  proof (rule constructed_safe [OF new assms(7,8)])
    show "fd x \<noteq> sockfd" if "chs ((pls(BaseLoop := pl)) BaseLoop) q = Some x" for q x
      using that pl(4-6) assms(9,10) by (auto split: if_splits)
    show "chs ((pls(BaseLoop := pl)) BaseLoop) p = None" using pl(4) assms(11) by auto
  qed (use pl(2,3) assms in auto)
  with pl(1) new show ?thesis by blast
qed

theorem constructors_give_safe_server_witness:
  "\<exists>pl e1 s e2. EventLoop_construct (Ok 3) (Ok 4) 1 2 ReadCb ReadCb demo_env = Inr (3, 4, pl, e1) \<and>
     TcpServer_new zero_sockaddr demo_fcntl (Ok 5) (\<lambda>_. Ok 0) (Ok 0) 6 ReadCb
       ((\<lambda>_. poller_new Map.empty)(BaseLoop := pl)) e1 = Inr (s, e2) \<and>
     safe_start 2 (setThreadNum 2 s, e2)"
  by (rule constructors_give_safe_server [OF demo_logs_ok])
    (simp_all add: max_files_def poller_new_sound errno_valid_def demo_fcntl_def)

end
