(* ===== verification/Teardown.thy ===== *)
theory Teardown
  imports ServerSafety
begin

text \<open>
  The destructors of channels, acceptors, connections and servers.  The destructor of a channel is
  empty: its memory is given back, but the poller keeps the pointer in its map unless
  \<open>removeChannel\<close> was called before.  So the order matters, and the lemmas say which order is
  safe and what happens in the others.

  A connection object is shared: the server's map and the queued functors each own it, and the
  last owner destroys it.
\<close>

section \<open>Operations\<close>

definition Channel_destroy :: "cptr \<Rightarrow> 'cb poller \<Rightarrow> 'cb poller" where
  "Channel_destroy p pl = pl\<lparr>chs := (chs pl)(p := None)\<rparr>"

text \<open>The members go in the reverse order of their declaration: first the channel, then the socket.\<close>

definition Acceptor_destroy ::
    "reply \<Rightarrow> acceptor \<Rightarrow> 'cb poller \<Rightarrow> log_env \<Rightarrow> ('cb poller \<times> log_env) outcome" where
  "Acceptor_destroy close_reply a pl e =
     (let pl1 = Channel_destroy (acceptChannel a) pl in
      bindO (Socket_destroy close_reply e) (\<lambda>e1. Inr (pl1, e1)))"

definition TcpConnection_destroy ::
    "reply \<Rightarrow> tcp_conn \<Rightarrow> log_env \<Rightarrow> (conn_callback poller \<times> log_env) outcome" where
  "TcpConnection_destroy close_reply conn e =
     bindO (log_or_die (LOG_DEBUG ''TcpConnection.cc'' 31 ''~TcpConnection''
              [Chars ''TcpConnection::~TcpConnection()''] e)) (\<lambda>e1.
       let pl = Channel_destroy (chan_ptr conn) (loop_poller conn) in
       bindO (Socket_destroy close_reply e1) (\<lambda>e2. Inr (pl, e2)))"

fun task_object :: "server_task \<Rightarrow> nat option" where
  "task_object (Established c) = Some c"
| "task_object (Destroyed c) = Some c"
| "task_object (RemoveInLoop c) = Some c"
| "task_object (Listen r) = None"

definition queued_for :: "server \<Rightarrow> nat \<Rightarrow> bool" where
  "queued_for s c \<longleftrightarrow> list_ex (\<lambda>l. list_ex (\<lambda>t. task_object t = Some c) (tasks s l))
     (baseLoop (threadPool s) # pool_loops (threadPool s))"

text \<open>The map gives up its share of the connection at address \<open>c\<close>.\<close>

definition release :: "reply \<Rightarrow> nat \<Rightarrow> world \<Rightarrow> world outcome" where
  "release close_reply c w =
     (case w of (s, e) \<Rightarrow>
        if queued_for s c then Inr (s, e)
        else bindO (deref (objects s) c) (\<lambda>(l, conn).
             bindO (TcpConnection_destroy close_reply (conn\<lparr>loop_poller := pollers s l\<rparr>) e) (\<lambda>(pl, e1).
               Inr (s\<lparr>objects := (objects s)(c := None), pollers := (pollers s)(l := pl)\<rparr>, e1))))"

fun release_all :: "(nat \<Rightarrow> reply) \<Rightarrow> nat list \<Rightarrow> world \<Rightarrow> world outcome" where
  "release_all close_replies [] w = Inr w"
| "release_all close_replies (c # cs) w =
     bindO (release (close_replies c) c w) (release_all close_replies cs)"

text \<open>
  \<open>~TcpServer\<close> has an empty body: the map goes first, with its share of every connection it holds (in an
  order that \<open>std::map\<close> does not specify: \<open>order\<close> lists a set), then the pool with its threads,
  then the acceptor.  What the queues of the ended loops still own is not followed further.
\<close>

definition TcpServer_destroy ::
    "(nat \<Rightarrow> reply) \<Rightarrow> reply \<Rightarrow> (nat set \<Rightarrow> nat list) \<Rightarrow> world \<Rightarrow> world outcome" where
  "TcpServer_destroy close_replies close_reply order w =
     (let cs = order (Map.ran (connections (fst w))) in
      bindO (release_all close_replies cs ((fst w)\<lparr>connections := Map.empty\<rparr>, snd w)) (\<lambda>(s, e).
      let s1 = s\<lparr>threadPool := pool_destroy (threadPool s)\<rparr> in
      bindO (Acceptor_destroy close_reply (srv_acceptor s1) (pollers s1 BaseLoop) e) (\<lambda>(pl, e1).
        Inr (s1\<lparr>pollers := (pollers s1)(BaseLoop := pl)\<rparr>, e1))))"

section \<open>When a channel may go\<close>

lemma destroy_unregistered:
  assumes inv: "poller_inv pl" and c: "chs pl p = Some c" and un: "\<not> registered p pl"
  shows "poller_inv (Channel_destroy p pl)"
proof -
  have other: "q \<noteq> p" if "channels pl f = Some q" for f q
  proof
    assume q: "q = p"
    from poller_invD(2) [OF inv that] obtain d where "chs pl q = Some d" "fd d = f" by (rule channel_okE)
    with q c that un show False by (simp add: registered_def)
  qed
  show ?thesis unfolding Channel_destroy_def
  proof (rule poller_invI)
    show "entry_ok (pl\<lparr>chs := (chs pl)(p := None)\<rparr>) i" if "i < length (pollfds (pl\<lparr>chs := (chs pl)(p := None)\<rparr>))" for i
    proof -
      from that have "i < length (pollfds pl)" by simp
      from poller_invD(1) [OF inv this] show ?thesis
        by (rule entry_okE) (use other in \<open>auto simp: entry_ok_def\<close>)
    qed
    show "channel_ok (pl\<lparr>chs := (chs pl)(p := None)\<rparr>) f q" if "channels (pl\<lparr>chs := (chs pl)(p := None)\<rparr>) f = Some q" for f q
      using poller_invD(2) [OF inv, of f q] that other [of f q] by (simp add: channel_ok_def split: option.splits)
  qed (use poller_invD(3,4) [OF inv] in \<open>auto split: if_splits\<close>)
qed

text \<open>A connection's channel may be destroyed exactly when it has been removed from the poller.\<close>

lemma destroy_safe_iff:
  assumes "poller_inv pl" "chs pl p = Some c"
  shows "poller_inv (Channel_destroy p pl) \<longleftrightarrow> \<not> registered p pl"
proof
  assume inv: "poller_inv (Channel_destroy p pl)"
  show "\<not> registered p pl"
  proof
    assume "registered p pl"
    then have "channels (Channel_destroy p pl) (fd c) = Some p"
      using assms(2) by (simp add: registered_def Channel_destroy_def)
    from poller_invD(2) [OF inv this] show False by (simp add: channel_ok_def Channel_destroy_def)
  qed
qed (use destroy_unregistered assms in blast)

lemma remove_registered:
  assumes inv: "poller_inv s" and c: "chs s p = Some c" "channels s (fd c) = Some p"
  shows "\<exists>s'. removeChannel p s = Inr s' \<and> poller_inv s' \<and> chs s' p = Some c \<and>
    channels s' = (channels s)(fd c := None)"
proof (cases "nat (index c) = length (pollfds s) - 1")
  case True
  from remove_last_inv [OF inv c True] c show ?thesis by auto
next
  case False
  from remove_middle_inv [OF inv c False] c show ?thesis by auto
qed

section \<open>A channel whose memory is gone\<close>

lemma fill_dangling:
  assumes "\<forall>pfd \<in> set pfds. has_event pfd \<longrightarrow> channels s (pfd_fd pfd) \<noteq> None"
    and "pfd0 \<in> set pfds" "has_event pfd0" "channels s (pfd_fd pfd0) = Some p" "chs s p = None"
    and "n = int (length (filter has_event pfds))"
  shows "fillActiveChannels n pfds s = Inl UB"
  using assms
proof (induction pfds arbitrary: n s)
  case (Cons pfd pfds)
  show ?case
  proof (cases "has_event pfd")
    case False
    then have "pfd0 \<in> set pfds" using Cons.prems(2,3) by auto
    then have "filter has_event pfds \<noteq> []" using Cons.prems(3) by (auto simp: filter_empty_conv)
    then have "n > 0" using Cons.prems(6) False by simp
    moreover have "fillActiveChannels n pfds s = Inl UB"
      by (rule Cons.IH) (use Cons.prems False \<open>pfd0 \<in> set pfds\<close> in auto)
    ultimately show ?thesis using False by simp
  next
    case True
    with Cons.prems(1) obtain q where q: "channels s (pfd_fd pfd) = Some q" by auto
    have pos: "n > 0" using Cons.prems(6) True by simp
    show ?thesis
    proof (cases "chs s q")
      case None
      with q True pos show ?thesis by (simp add: deref_def)
    next
      case (Some c)
      then have "q \<noteq> p" using Cons.prems(5) by auto
      then have "pfd0 \<in> set pfds" using Cons.prems(2,4) q by auto
      let ?s = "s\<lparr>chs := (chs s)(q \<mapsto> set_revents (scast (pfd_revents pfd)) c)\<rparr>"
      have "fillActiveChannels (n - 1) pfds ?s = Inl UB"
        by (rule Cons.IH) (use Cons.prems True \<open>pfd0 \<in> set pfds\<close> \<open>q \<noteq> p\<close> in auto)
      with q Some True pos show ?thesis by (simp add: deref_def)
    qed
  qed
qed simp

text \<open>The poller reports an event of a channel that was destroyed while registered.\<close>

lemma poll_dangling:
  assumes inv: "poller_inv pl" and k: "kernel_poll pl n revs" and i: "i < length revs" "sint (revs ! i) > 0"
    and pl': "pollfds pl' = pollfds pl" "channels pl' = channels pl"
    and gone: "chs pl' (chan pl (pollfds pl ! i)) = None"
  shows "poll n revs pl' = Inl UB"
proof -
  let ?pfds = "map2 set_rev (pollfds pl) revs" and ?pfd0 = "set_rev (pollfds pl ! i) (revs ! i)"
  have len: "length revs = length (pollfds pl)" by (rule kernel_pollD(1) [OF k])
  have n: "n = int (length (filter has_event ?pfds))"
    using kernel_pollD(3) [OF k] active_count [of "pollfds pl" revs] len by simp
  have in0: "?pfd0 \<in> set ?pfds" using i(1) len by (auto simp: set_zip)
  have own: "channels pl (pfd_fd pfd) \<noteq> None" if pfd: "pfd \<in> set ?pfds" "has_event pfd" for pfd
  proof -
    from pfd len obtain j where "j < length revs" "pfd = set_rev (pollfds pl ! j) (revs ! j)" "sint (revs ! j) > 0"
      by (auto simp: set_zip)
    with active_owner [OF inv k this(1,3)] show ?thesis by auto
  qed
  obtain c where c: "channels pl (pfd_fd (pollfds pl ! i)) = Some (chan pl (pollfds pl ! i))"
    using active_owner [OF inv k i] by blast
  have "has_event ?pfd0" using i(2) by simp
  with in0 have "?pfd0 \<in> set (filter has_event ?pfds)" unfolding set_filter mem_Collect_eq by blast
  then have "0 < length (filter has_event ?pfds)" by (rule length_pos_if_in_set)
  then have "0 < n" unfolding n by simp
  moreover have "fillActiveChannels n ?pfds (pl'\<lparr>pollfds := ?pfds\<rparr>) = Inl UB"
    by (rule fill_dangling [OF _ in0 _ _ _ n]) (use own i(2) c gone pl' in auto)
  moreover have "pollfds pl \<noteq> []" using i(1) len by auto
  ultimately show ?thesis by (simp add: poll_def Let_def pl')
qed

section \<open>Properties\<close>

lemma close_continues:
  assumes e: "logs_ok e" and r: "errno_valid r"
  shows "\<exists>e'. Socket_destroy r e = Inr e' \<and> logs_ok e'"
proof -
  obtain ret e1 where 1: "syscall r e = (ret, e1)" by fastforce
  have "logs_ok e1" using syscall_logs [OF e r] 1 by simp
  from LOG_SYSERR_continues [OF this, of "[Chars ''sockets::close'']" 110] 1 this show ?thesis
    by (auto simp: Socket_destroy_def sockets_close_def in_i32_def)
qed

lemma LOG_DEBUG_continues:
  assumes "logs_ok e" "\<forall>x \<in> set body. item_ok x" "in_i32 line" "length file < 2 ^ 31" "length func < 2 ^ 31"
  shows "\<exists>e'. log_or_die (LOG_DEBUG file line func body e) = Inr e' \<and> logs_ok e' \<and> errno e' = errno e"
  unfolding LOG_DEBUG_def using when_level_continues [OF assms(1) ctors_build(1)] assms(2-5) by simp

lemma TcpConnection_destroy_run:
  assumes e: "logs_ok e" and r: "errno_valid r"
  shows "\<exists>e'. TcpConnection_destroy r t e = Inr (Channel_destroy (chan_ptr t) (loop_poller t), e') \<and> logs_ok e'"
proof -
  have "\<exists>e'. log_or_die (LOG_DEBUG ''TcpConnection.cc'' 31 ''~TcpConnection''
      [Chars ''TcpConnection::~TcpConnection()''] e) = Inr e' \<and> logs_ok e'"
    using LOG_DEBUG_continues [OF e, of "[Chars ''TcpConnection::~TcpConnection()'']" 31 "''TcpConnection.cc''"
        "''~TcpConnection''"] by (auto simp: in_i32_def)
  then obtain e1 where e1: "log_or_die (LOG_DEBUG ''TcpConnection.cc'' 31 ''~TcpConnection''
      [Chars ''TcpConnection::~TcpConnection()''] e) = Inr e1" "logs_ok e1" by blast
  with close_continues [OF e1(2) r] show ?thesis by (auto simp: TcpConnection_destroy_def)
qed

lemma connectDestroyed_run:
  assumes ok: "conn_ok t" and cb: "user_safe cb"
  shows "\<exists>t'. connectDestroyed cb t = Inr t' \<and> chan_ptr t' = chan_ptr t \<and> poller_inv (loop_poller t') \<and>
    (\<exists>c. chs (loop_poller t') (chan_ptr t) = Some c) \<and> \<not> registered (chan_ptr t) (loop_poller t')"
proof -
  let ?t = "setState kDisconnected t"
  have "conn_ok ?t" using ok by (simp add: setState_def conn_ok_frame)
  moreover obtain c where "get_chan ?t = Some c" using conn_ok_chan [OF calculation] by blast
  ultimately obtain pl where 1: "on_poller disableAll ?t = Inr (?t\<lparr>loop_poller := pl\<rparr>)" "conn_ok (?t\<lparr>loop_poller := pl\<rparr>)"
    using setter_on_poller [OF _ _ setters(4)] by (auto simp: disableAll_def)
  let ?t1 = "?t\<lparr>loop_poller := pl\<rparr>"
  obtain f t2 where f: "cb = Some f" and 2: "f ?t1 = Inr t2" "conn_ok t2" "chan_ptr t2 = chan_ptr t"
    using cb 1(2) unfolding user_safe_def safe_run_def ident_def by (auto simp: setState_def)
  have reg: "poller_inv (loop_poller t2)" "registered (chan_ptr t) (loop_poller t2)"
    using 2(2,3) by (simp_all add: conn_ok_slot)
  then obtain d where d: "chs (loop_poller t2) (chan_ptr t) = Some d" "channels (loop_poller t2) (fd d) = Some (chan_ptr t)"
    by (auto simp: registered_def split: option.splits)
  from remove_registered [OF reg(1) d] obtain pl3 where 3: "removeChannel (chan_ptr t) (loop_poller t2) = Inr pl3"
    "poller_inv pl3" "chs pl3 (chan_ptr t) = Some d" "channels pl3 = (channels (loop_poller t2))(fd d := None)" by blast
  let ?t3 = "t2\<lparr>loop_poller := pl3\<rparr>"
  have "on_poller removeChannel t2 = Inr ?t3" using 3(1) 2(3) by (simp add: on_poller_def)
  with 1(1) f 2(1) have "connectDestroyed cb t = Inr ?t3"
    by (simp add: connectDestroyed_def call_user_def)
  moreover have "\<not> registered (chan_ptr t) pl3" using 3(3,4) by (simp add: registered_def)
  ultimately show ?thesis using 2(3) 3(2,3) by (intro exI [of _ ?t3]) simp
qed

text \<open>
  C9.  The end of a connection is safe in the order that the server intends: after \<open>connectDestroyed\<close>
  the object can be destroyed, the poller of its loop keeps consistent tables and no pointer to the
  channel, whatever \<open>close(2)\<close> returns.  Without \<open>connectDestroyed\<close>, the poller is left with a pointer to freed
  memory.
\<close>

theorem connection_teardown_safe:
  assumes ok: "conn_ok t" and cb: "user_safe cb" and e: "logs_ok e" and r: "errno_valid r"
  shows "(\<exists>t' pl e'. connectDestroyed cb t = Inr t' \<and> TcpConnection_destroy r t' e = Inr (pl, e') \<and>
      poller_inv pl \<and> (\<forall>f. channels pl f \<noteq> Some (chan_ptr t))) \<and>
    (\<exists>pl e' f. TcpConnection_destroy r t e = Inr (pl, e') \<and> \<not> poller_inv pl \<and>
      channels pl f = Some (chan_ptr t) \<and> chs pl (chan_ptr t) = None)"
proof
  from connectDestroyed_run [OF ok cb] obtain t' c where t': "connectDestroyed cb t = Inr t'" "chan_ptr t' = chan_ptr t"
    "poller_inv (loop_poller t')" "chs (loop_poller t') (chan_ptr t) = Some c"
    "\<not> registered (chan_ptr t) (loop_poller t')" by blast
  let ?pl = "Channel_destroy (chan_ptr t) (loop_poller t')"
  obtain e' where e': "TcpConnection_destroy r t' e = Inr (?pl, e')"
    using TcpConnection_destroy_run [OF e r, of t'] t'(2) by auto
  have inv: "poller_inv ?pl" by (rule destroy_unregistered [OF t'(3,4,5)])
  have "channels ?pl f \<noteq> Some (chan_ptr t)" for f
    using poller_invD(2) [OF inv, of f "chan_ptr t"] by (auto simp: channel_ok_def Channel_destroy_def)
  with t'(1) e' inv show "\<exists>t' pl e'. connectDestroyed cb t = Inr t' \<and> TcpConnection_destroy r t' e = Inr (pl, e') \<and>
      poller_inv pl \<and> (\<forall>f. channels pl f \<noteq> Some (chan_ptr t))" by blast
next
  let ?pl = "Channel_destroy (chan_ptr t) (loop_poller t)"
  have reg: "poller_inv (loop_poller t)" "registered (chan_ptr t) (loop_poller t)" using ok by (simp_all add: conn_ok_slot)
  then obtain c where c: "chs (loop_poller t) (chan_ptr t) = Some c" "channels (loop_poller t) (fd c) = Some (chan_ptr t)"
    by (auto simp: registered_def split: option.splits)
  obtain e' where "TcpConnection_destroy r t e = Inr (?pl, e')" using TcpConnection_destroy_run [OF e r] by blast
  moreover have "\<not> poller_inv ?pl" using destroy_safe_iff [OF reg(1) c(1)] reg(2) by blast
  moreover have "channels ?pl (fd c) = Some (chan_ptr t)" "chs ?pl (chan_ptr t) = None"
    using c(2) by (simp_all add: Channel_destroy_def)
  ultimately show "\<exists>pl e' f. TcpConnection_destroy r t e = Inr (pl, e') \<and> \<not> poller_inv pl \<and>
      channels pl f = Some (chan_ptr t) \<and> chs pl (chan_ptr t) = None" by blast
qed

theorem connection_teardown_safe_witness:
  "\<exists>t' pl e'. connectDestroyed (Some (send True [1])) demo_conn = Inr t' \<and>
     TcpConnection_destroy (Ok 0) t' demo_env = Inr (pl, e') \<and> poller_inv pl"
  using connection_teardown_safe [OF demo_conn_ok user_safe_send demo_logs_ok, of "Ok 0" True "[1]"]
  by (auto simp: errno_valid_def)

text \<open>
  C37.  A channel that was removed must never be touched again, because \<open>removeChannel\<close> does not reset its
  index.  A later flag setter of the channel takes the old index: it accesses the array past its end, or,
  if another channel has moved into the gap, writes its own mask into the other's entry.
\<close>

theorem removed_channel_hits_other:
  assumes inv: "poller_inv s" and reg: "registered p s" and c: "chs s p = Some c" and f: "setter f"
  shows "\<exists>s'. removeChannel p s = Inr s' \<and>
    (if nat (index c) = length (pollfds s) - 1 then set_and_update f p s' = Inl UB
     else \<exists>q d s''. channels s' (fd d) = Some q \<and> q \<noteq> p \<and> chs s' q = Some d \<and> index d = index c \<and>
       set_and_update f p s' = Inr s'' \<and>
       pfd_events (pollfds s'' ! nat (index d)) = ucast (events (f c)) \<and> channels s'' (fd c) = None)"
proof -
  let ?i = "nat (index c)" and ?n = "length (pollfds s)"
  have ch: "channels s (fd c) = Some p" using reg c by (simp add: registered_def)
  have "channel_ok s (fd c) p" by (rule poller_invD(2) [OF inv ch])
  then have i: "0 \<le> index c" "?i < ?n" using c by (auto elim: channel_okE)
  have fc: "index (f c) = index c" "fd (f c) = fd c" using f by (simp_all add: setter_def)
  show ?thesis
  proof (cases "?i = ?n - 1")
    case True
    from remove_last_inv [OF inv c ch True] obtain s' where s': "removeChannel p s = Inr s'" "chs s' = chs s"
      "pollfds s' = butlast (pollfds s)" by blast
    have "set_and_update f p s' = Inl UB"
      using s' c True fc i by (simp add: set_and_update_def updateChannel_def deref_def nthO_def)
    with s'(1) True show ?thesis by auto
  next
    case False
    from remove_middle_inv [OF inv c ch False] obtain s' q d where s': "removeChannel p s = Inr s'" "poller_inv s'"
      "q \<noteq> p" "chs s q = Some d" "chs s' = (chs s)(q \<mapsto> set_index (index c) d)"
      "channels s' = (channels s)(fd c := None)" "pollfds s' = (butlast (pollfds s))[?i := last (pollfds s)]" by blast
    have lt: "?i < length (pollfds s')" using i(2) False by (simp add: s'(7))
    have cp: "chs s' p = Some c" using s'(3,5) c by simp
    obtain q' d' where o: "channels s' (fd d') = Some q'" "chs s' q' = Some d'" "index d' = int ?i"
      using poller_invD(1) [OF s'(2) lt] by (rule entry_okE) metis
    have "q' \<noteq> p"
    proof
      assume "q' = p"
      with o cp s'(6) show False by simp
    qed
    moreover obtain s'' where "set_and_update f p s' = Inr s''"
      "pfd_events (pollfds s'' ! ?i) = ucast (events (f c))" "channels s'' = channels s'"
      using cp fc i(1) lt by (simp add: set_and_update_def updateChannel_def deref_def nthO_def Let_def)
    ultimately show ?thesis
      using s'(1,6) o False i(1) by (intro exI [of _ s']) (auto intro!: exI [of _ q'] exI [of _ d'])
  qed
qed

theorem removed_channel_hits_other_witness:
  "\<exists>s' s'' d. removeChannel 0 demo_poller = Inr s' \<and> enableWriting 0 s' = Inr s'' \<and> chs s' 1 = Some d \<and>
     pfd_events (pollfds s'' ! nat (index d)) = 7"
proof -
  have h: "registered 0 demo_poller" "chs demo_poller 0 = Some ((channel_new 5)\<lparr>index := 0, events := 3\<rparr>)"
    by (simp_all add: registered_def demo_poller_def channel_new_def)
  from removed_channel_hits_other [OF demo_poller_inv h setters(2)] show ?thesis
    by (auto simp: enableWriting_def channel_new_def demo_poller_def removeChannel_def Let_def deref_def nthO_def
        set_index_def want_writing_def event_masks poll_bits split: if_splits)
qed

text \<open>Releasing connections frees channels, but changes nothing else in a poller.\<close>

lemma release_poller:
  assumes "release r c w = Inr w'"
  shows "pollfds (pollers (fst w') l) = pollfds (pollers (fst w) l) \<and>
    channels (pollers (fst w') l) = channels (pollers (fst w) l) \<and> srv_acceptor (fst w') = srv_acceptor (fst w)"
proof (cases w)
  case (Pair s e)
  show ?thesis
  proof (cases "queued_for s c")
    case True
    with assms Pair show ?thesis by (simp add: release_def)
  next
    case False
    with assms Pair obtain m conn pl e1 where c: "TcpConnection_destroy r (conn\<lparr>loop_poller := pollers s m\<rparr>) e = Inr (pl, e1)"
      "w' = (s\<lparr>objects := (objects s)(c := None), pollers := (pollers s)(m := pl)\<rparr>, e1)"
      by (auto simp: release_def outcome_simps split: prod.splits)
    from c(1) have "pl = Channel_destroy (chan_ptr conn) (pollers s m)"
      by (auto simp: TcpConnection_destroy_def outcome_simps Let_def)
    with c(2) Pair show ?thesis by (simp add: Channel_destroy_def)
  qed
qed

lemma release_all_poller:
  "release_all rs cs w = Inr w' \<Longrightarrow> pollfds (pollers (fst w') l) = pollfds (pollers (fst w) l) \<and>
    channels (pollers (fst w') l) = channels (pollers (fst w) l) \<and> srv_acceptor (fst w') = srv_acceptor (fst w)"
proof (induction cs arbitrary: w)
  case (Cons c cs)
  then obtain w1 where "release (rs c) c w = Inr w1" "release_all rs cs w1 = Inr w'"
    by (auto simp: outcome_simps)
  with Cons.IH [of w1] release_poller [of "rs c" c w w1] show ?case by simp
qed simp

text \<open>
  C38.  A server that listens must not be destroyed while its base loop goes on: the destructor closes the
  listening socket and frees the acceptor's channel, but never removes the channel.
  The next \<open>poll\<close> reports \<open>POLLNVAL\<close> for the closed descriptor and the loop writes into the
  freed channel.
\<close>

theorem destroyed_server_dangles:
  assumes inv: "poller_inv (pollers s BaseLoop)"
    and c: "chs (pollers s BaseLoop) (acceptChannel (srv_acceptor s)) = Some c"
    and reg: "registered (acceptChannel (srv_acceptor s)) (pollers s BaseLoop)"
    and lis: "watched (pollers s BaseLoop) (fd c) = Some ev"
    and run: "TcpServer_destroy rs r order (s, e) = Inr (s', e')"
    and k: "kernel_poll (pollers s BaseLoop) n revs"
    and closed: "\<forall>i < length revs. pfd_fd (pollfds (pollers s BaseLoop) ! i) = fd c \<longrightarrow> revs ! i = ucast POLLNVAL"
  shows "poll n revs (pollers s' BaseLoop) = Inl UB"
proof -
  let ?pl = "pollers s BaseLoop" and ?p = "acceptChannel (srv_acceptor s)"
  obtain i where i: "i < length (pollfds ?pl)" "pfd_fd (pollfds ?pl ! i) = fd c"
    using lis watched_iff [OF inv] by blast
  have len: "length revs = length (pollfds ?pl)" by (rule kernel_pollD(1) [OF k])
  have "revs ! i = 0x20" using closed i len by (simp add: POLLNVAL_def)
  then have ev: "sint (revs ! i) > 0" by simp
  have chan: "chan ?pl (pollfds ?pl ! i) = ?p" using i(2) reg c by (simp add: chan_def registered_def)
  from run obtain s1 e1 pl where s1: "release_all rs (order (Map.ran (connections s))) (s\<lparr>connections := Map.empty\<rparr>, e) = Inr (s1, e1)"
    "Acceptor_destroy r (srv_acceptor s1) (pollers s1 BaseLoop) e1 = Inr (pl, e')"
    "pollers s' = (pollers s1)(BaseLoop := pl)"
    by (auto simp: TcpServer_destroy_def outcome_simps Let_def split: prod.splits)
  have same: "pollfds (pollers s1 BaseLoop) = pollfds ?pl" "channels (pollers s1 BaseLoop) = channels ?pl"
    "srv_acceptor s1 = srv_acceptor s"
    using release_all_poller [OF s1(1), of BaseLoop] by simp_all
  have "pl = Channel_destroy ?p (pollers s1 BaseLoop)"
    using s1(2) same(3) by (auto simp: Acceptor_destroy_def outcome_simps Let_def)
  with s1(3) have s': "pollers s' BaseLoop = Channel_destroy ?p (pollers s1 BaseLoop)" by simp
  show ?thesis
    by (rule poll_dangling [OF inv k _ ev]) (use i len same chan in \<open>simp_all add: s' Channel_destroy_def\<close>)
qed

theorem destroyed_server_dangles_witness:
  "\<exists>s s' e'. listenning (srv_acceptor s) \<and> TcpServer_destroy (\<lambda>_. Ok 0) (Ok 0) sorted_list_of_set (s, demo_env) = Inr (s', e') \<and>
     poll 1 [0x20] (pollers s' BaseLoop) = Inl UB"
proof -
  let ?c = "(channel_new 5)\<lparr>index := 0, events := 3\<rparr> :: conn_callback channel"
  let ?pl = "\<lparr>pollfds = [\<lparr>pfd_fd = 5, pfd_events = 3, pfd_revents = 0\<rparr>], channels = [5 \<mapsto> 1], chs = [1 \<mapsto> ?c]\<rparr>"
  let ?s = "(fst demo_world)\<lparr>srv_acceptor := \<lparr>acceptSocket = 5, acceptChannel = 1, listenning = True\<rparr>,
      pollers := (\<lambda>_. ?pl)\<rparr>"
  have h: "poller_inv (pollers ?s BaseLoop)" "chs (pollers ?s BaseLoop) (acceptChannel (srv_acceptor ?s)) = Some ?c"
    "registered (acceptChannel (srv_acceptor ?s)) (pollers ?s BaseLoop)"
    "watched (pollers ?s BaseLoop) (fd ?c) = Some 3"
    by (auto simp: poller_inv_def entry_ok_def channel_ok_def real_fd_def channel_new_def registered_def watched_def)
  obtain s' e' where run: "TcpServer_destroy (\<lambda>_. Ok 0) (Ok 0) sorted_list_of_set (?s, demo_env) = Inr (s', e')"
    by (simp add: TcpServer_destroy_def demo_world_def Acceptor_destroy_def Socket_destroy_def sockets_close_def
        syscall_def Let_def)
  have k: "kernel_poll (pollers ?s BaseLoop) 1 [0x20]" by (simp add: kernel_poll_def)
  have "poll 1 [0x20] (pollers s' BaseLoop) = Inl UB"
    by (rule destroyed_server_dangles [OF h run k]) (simp add: POLLNVAL_def)
  with run show ?thesis by (intro exI [of _ ?s] exI [of _ s'] exI [of _ e']) simp
qed

end
