(* ===== verification/LoopTeardown.thy ===== *)
theory LoopTeardown
  imports LoopSetup Teardown
begin

text \<open>
  The destructors of \<open>EventLoop\<close> and \<open>TimerQueue\<close>.  The members of a loop go in the reverse order of their
  declaration: the vector of functors, the wakeup channel, the timer queue, the poller.  The
  descriptors that the process has open are a set here; the body of \<open>~EventLoop\<close>, which should close the wakeup
  descriptor, is empty.
\<close>

section \<open>Operations\<close>

text \<open>\<open>~TimerQueue\<close> closes the timer descriptor and deletes the queued timers; then its member, the channel, goes.\<close>

definition TimerQueue_destroy ::
    "int \<Rightarrow> cptr \<Rightarrow> 't tq \<Rightarrow> 'cb poller \<Rightarrow> int set \<Rightarrow> ('t tq \<times> 'cb poller \<times> int set) outcome" where
  "TimerQueue_destroy tfd tp q pl fds =
     (let fds1 = fds - {tfd} in
      bindO (tq_destroy q) (\<lambda>q1. Inr (q1, Channel_destroy tp pl, fds1)))"

text \<open>The functors that wait in the loop are dropped, and with them the pointers to timers that they hold.\<close>

definition EventLoop_destroy ::
    "int \<Rightarrow> cptr \<Rightarrow> cptr \<Rightarrow> 't tq \<Rightarrow> 'cb poller \<Rightarrow> int set \<Rightarrow> ('t tq \<times> 'cb poller \<times> int set) outcome" where
  "EventLoop_destroy tfd tp wp q pl fds =
     TimerQueue_destroy tfd tp (q\<lparr>functors := []\<rparr>) (Channel_destroy wp pl) fds"

text \<open>A loop that is constructed and, with what its timer queue has become, destroyed.\<close>

definition loop_lifetime ::
    "reply \<Rightarrow> reply \<Rightarrow> cptr \<Rightarrow> cptr \<Rightarrow> 'cb \<Rightarrow> 'cb \<Rightarrow> 't tq \<Rightarrow> log_env \<Rightarrow> int set \<Rightarrow>
     ('t tq \<times> 'cb poller \<times> int set) outcome" where
  "loop_lifetime timerfd_reply eventfd_reply tp wp tcb wcb q e fds =
     bindO (EventLoop_construct timerfd_reply eventfd_reply tp wp tcb wcb e) (\<lambda>(t, w, pl, e1).
       EventLoop_destroy t tp wp q pl (fds \<union> {t, w}))"

section \<open>Deleting the timers\<close>

lemma delete_all_run:
  "distinct (map snd es) \<Longrightarrow> \<forall>a \<in> snd ` set es. heap s a \<noteq> None \<Longrightarrow>
   \<exists>s'. delete_all es s = Inr s' \<and> dom (heap s') = dom (heap s) - snd ` set es"
proof (induction es arbitrary: s)
  case (Cons e es)
  obtain t where t: "heap s (snd e) = Some t" using Cons.prems(2) by auto
  let ?s = "s\<lparr>heap := (heap s)(snd e := None)\<rparr>"
  have "heap ?s a \<noteq> None" if "a \<in> snd ` set es" for a
  proof -
    have "snd e \<notin> snd ` set es" using Cons.prems(1) by simp
    with that have "a \<noteq> snd e" by metis
    moreover from that obtain x where "x \<in> set es" "a = snd x" by blast
    then have "heap s a \<noteq> None" using Cons.prems(2) by simp
    ultimately show ?thesis by simp
  qed
  then have h: "\<forall>a \<in> snd ` set es. heap ?s a \<noteq> None" by blast
  have "distinct (map snd es)" using Cons.prems(1) by simp
  from Cons.IH [OF this h] obtain s' where
    "delete_all es ?s = Inr s'" "dom (heap s') = dom (heap ?s) - snd ` set es" by blast
  with t show ?case by (auto simp: deref_def)
qed simp

lemma tq_destroy_run:
  assumes inv: "tq_inv {} q"
  shows "\<exists>q'. tq_destroy (q\<lparr>functors := []\<rparr>) = Inr q' \<and> dom (heap q') = set (pending_adds (functors q))"
proof -
  have "inj_on snd (set (timers q))"
  proof (rule inj_onI)
    fix x y assume "x \<in> set (timers q)" "y \<in> set (timers q)" "snd x = snd y"
    then show "x = y" using timers_key_unique [OF inv, of "fst x" "snd x" "fst y"] by (metis prod.collapse)
  qed
  moreover have "distinct (timers q)"
    using tq_invD(1) [OF inv] by (simp add: strict_sorted_iff)
  ultimately have d: "distinct (map snd (timers q))" by (simp add: distinct_map)
  have dm: "dom (heap q) = scheduled q \<union> set (pending_adds (functors q))"
    "scheduled q \<inter> set (pending_adds (functors q)) = {}" using tq_invD(7,8) [OF inv] by simp_all
  then have "\<forall>a \<in> snd ` set (timers q). heap (q\<lparr>functors := []\<rparr>) a \<noteq> None"
    unfolding scheduled_def by (auto simp: dom_def)
  from delete_all_run [OF d this] obtain q' where
    "delete_all (timers q) (q\<lparr>functors := []\<rparr>) = Inr q'" "dom (heap q') = dom (heap q) - scheduled q"
    by (auto simp: scheduled_def)
  with dm show ?thesis by (auto simp: tq_destroy_def)
qed

section \<open>Properties\<close>

text \<open>
  C36.  What the destruction of an event loop leaves behind.  The two channels are gone, the timer descriptor is
  closed, and every timer in the queue is deleted once; but the wakeup descriptor stays open, and the timers
  whose insertion still waits among the functors are never deleted.
\<close>

theorem loop_destruction_leaks:
  assumes "logs_ok e" and "0 \<le> t" "t < max_files" and "0 \<le> w" "w < max_files" "w \<noteq> t" and "wp \<noteq> tp"
    and "tq_inv {} q" and "t \<notin> fds" "w \<notin> fds"
  shows "\<exists>q' pl. loop_lifetime (Ok t) (Ok w) tp wp tcb wcb q e fds = Inr (q', pl, insert w fds) \<and>
    dom (heap q') = set (pending_adds (functors q)) \<and> chs pl = Map.empty"
proof -
  obtain pl e' c d where pl: "EventLoop_construct (Ok t) (Ok w) tp wp tcb wcb e = Inr (t, w, pl, e')"
    "chs pl = [tp \<mapsto> c, wp \<mapsto> d]"
    using EventLoop_construct_run [OF assms(1-7), of tcb wcb] by blast
  obtain q' where q': "tq_destroy (q\<lparr>functors := []\<rparr>) = Inr q'" "dom (heap q') = set (pending_adds (functors q))"
    using tq_destroy_run [OF assms(8)] by blast
  let ?pl = "Channel_destroy tp (Channel_destroy wp pl)"
  have "(fds \<union> {t, w}) - {t} = insert w fds" using assms(6,9) by auto
  then have "loop_lifetime (Ok t) (Ok w) tp wp tcb wcb q e fds = Inr (q', ?pl, insert w fds)"
    by (simp add: loop_lifetime_def pl(1) EventLoop_destroy_def TimerQueue_destroy_def q'(1) Let_def del: Un_insert_right)
  moreover have "chs ?pl = Map.empty" by (simp add: Channel_destroy_def pl(2) fun_eq_iff)
  ultimately show ?thesis using q'(2) by blast
qed

theorem loop_destruction_leaks_witness:
  "\<exists>q' pl. loop_lifetime (Ok 3) (Ok 4) 1 2 () () demo_queue demo_env {0, 1, 2} = Inr (q', pl, {0, 1, 2, 4}) \<and>
     dom (heap q') = set (pending_adds (functors demo_queue))"
proof -
  have "tq_inv {} demo_queue" by (rule demo_queue_inv)
  from loop_destruction_leaks [OF demo_logs_ok _ _ _ _ _ _ this, of 3 4 2 1 "{0, 1, 2}" "()" "()"]
  show ?thesis by (auto simp: max_files_def insert_commute)
qed

end
