(* ===== verification/Callbacks.thy ===== *)
theory Callbacks
  imports ServerSafety
begin

text \<open>
  \<open>Callbacks.h\<close> and the callback members of \<open>TcpServer.h\<close> and \<open>TcpConnection.h\<close>.  The theory of the server
  takes the user's connection callback as an argument; here it is what the code reads: a
  member of the server, which \<open>newConnection\<close> copies into each connection, and a member of the connection, which
  its establishment calls.  Both have public setters.  A setter is one step here, between the operations
  of the library: a program that sets the callback of a connection while the loop of the connection calls it
  has a data race, and is outside the model.

  A null \<open>std::function\<close> is \<open>None\<close>; calling it throws.  The message callback, the callback for completed
  writes and the close callback are stored, but no code of the library calls them.
\<close>

section \<open>Types and members\<close>

type_synonym ConnectionCallback = conn_user

type_synonym MessageCallback = "(timestamp \<Rightarrow> tcp_conn \<Rightarrow> tcp_conn outcome) option"

type_synonym WriteCompleteCallback = "(tcp_conn \<Rightarrow> tcp_conn outcome) option"

text \<open>The thread that calls it, the connection, the server and its log.\<close>

type_synonym CloseCallback = "(loop_id \<Rightarrow> nat \<Rightarrow> world \<Rightarrow> world outcome) option"

record server_callbacks =
  srv_connectionCallback :: ConnectionCallback
  srv_messageCallback :: MessageCallback
  srv_writeCompleteCallback :: WriteCompleteCallback

record conn_callbacks =
  own_connectionCallback :: ConnectionCallback
  own_messageCallback :: MessageCallback
  own_writeCompleteCallback :: WriteCompleteCallback
  own_closeCallback :: CloseCallback

section \<open>Setters\<close>

definition server_callbacks_new :: server_callbacks where
  "server_callbacks_new =
     \<lparr>srv_connectionCallback = None, srv_messageCallback = None, srv_writeCompleteCallback = None\<rparr>"

definition TcpServer_setConnectionCallback ::
    "ConnectionCallback \<Rightarrow> server_callbacks \<Rightarrow> server_callbacks" where
  "TcpServer_setConnectionCallback cb k = k\<lparr>srv_connectionCallback := cb\<rparr>"

definition TcpServer_setMessageCallback :: "MessageCallback \<Rightarrow> server_callbacks \<Rightarrow> server_callbacks" where
  "TcpServer_setMessageCallback cb k = k\<lparr>srv_messageCallback := cb\<rparr>"

definition TcpServer_setWriteCompleteCallback ::
    "WriteCompleteCallback \<Rightarrow> server_callbacks \<Rightarrow> server_callbacks" where
  "TcpServer_setWriteCompleteCallback cb k = k\<lparr>srv_writeCompleteCallback := cb\<rparr>"

definition conn_callbacks_new :: conn_callbacks where
  "conn_callbacks_new =
     \<lparr>own_connectionCallback = None, own_messageCallback = None, own_writeCompleteCallback = None,
      own_closeCallback = None\<rparr>"

definition TcpConnection_setConnectionCallback ::
    "ConnectionCallback \<Rightarrow> conn_callbacks \<Rightarrow> conn_callbacks" where
  "TcpConnection_setConnectionCallback cb k = k\<lparr>own_connectionCallback := cb\<rparr>"

definition TcpConnection_setMessageCallback :: "MessageCallback \<Rightarrow> conn_callbacks \<Rightarrow> conn_callbacks" where
  "TcpConnection_setMessageCallback cb k = k\<lparr>own_messageCallback := cb\<rparr>"

definition TcpConnection_setWriteCompleteCallback ::
    "WriteCompleteCallback \<Rightarrow> conn_callbacks \<Rightarrow> conn_callbacks" where
  "TcpConnection_setWriteCompleteCallback cb k = k\<lparr>own_writeCompleteCallback := cb\<rparr>"

definition TcpConnection_setCloseCallback :: "CloseCallback \<Rightarrow> conn_callbacks \<Rightarrow> conn_callbacks" where
  "TcpConnection_setCloseCallback cb k = k\<lparr>own_closeCallback := cb\<rparr>"

text \<open>What \<open>newConnection\<close> stores into a connection, in its order.\<close>

definition newConnection_callbacks :: "server_callbacks \<Rightarrow> conn_callbacks" where
  "newConnection_callbacks k =
     TcpConnection_setCloseCallback (Some (removeConnection (srv_connectionCallback k)))
       (TcpConnection_setWriteCompleteCallback (srv_writeCompleteCallback k)
         (TcpConnection_setMessageCallback (srv_messageCallback k)
           (TcpConnection_setConnectionCallback (srv_connectionCallback k) conn_callbacks_new)))"

lemmas callback_setters = TcpServer_setConnectionCallback_def TcpServer_setMessageCallback_def
  TcpServer_setWriteCompleteCallback_def TcpConnection_setConnectionCallback_def
  TcpConnection_setMessageCallback_def TcpConnection_setWriteCompleteCallback_def
  TcpConnection_setCloseCallback_def newConnection_callbacks_def

section \<open>Questions to a connection\<close>

definition connected :: "tcp_conn \<Rightarrow> bool outcome" where
  "connected s = state_is kConnected s"

definition TcpConnection_name :: "tcp_conn \<Rightarrow> string" where
  "TcpConnection_name s = name s"

definition localAddress :: "tcp_conn \<Rightarrow> sockaddr_in" where
  "localAddress s = localAddr s"

definition peerAddress :: "tcp_conn \<Rightarrow> sockaddr_in" where
  "peerAddress s = peerAddr s"

definition getLoop :: "nat \<Rightarrow> server \<Rightarrow> loop_id outcome" where
  "getLoop c s = bindO (deref (objects s) c) (\<lambda>(l, conn). Inr l)"

section \<open>The server with its callbacks\<close>

record wired =
  world_of :: world
  srv_cbs :: server_callbacks
  conn_cbs :: "nat \<rightharpoonup> conn_callbacks"

text \<open>
  The callback that a queued functor calls.  The functors are \<open>connectEstablished\<close> and \<open>connectDestroyed\<close>
  bound to a connection \<open>c\<close>; what they call is the member \<open>connectionCallback_\<close> of \<open>c\<close>, read when the
  functor runs.  The other functors read no callback.
\<close>

fun task_callback :: "(nat \<rightharpoonup> conn_callbacks) \<Rightarrow> server_task \<Rightarrow> ConnectionCallback" where
  "task_callback k (Established c) = Option.bind (k c) own_connectionCallback"
| "task_callback k (Destroyed c) = Option.bind (k c) own_connectionCallback"
| "task_callback k t = None"

definition wired_accept ::
    "resources \<Rightarrow> fcntl \<Rightarrow> int \<Rightarrow> sockaddr_in \<Rightarrow> reply \<Rightarrow> wired \<Rightarrow> wired outcome" where
  "wired_accept su fcntl connfd peer close_reply w =
     bindO (server_handleRead (srv_connectionCallback (srv_cbs w)) su fcntl (Ok connfd) peer close_reply
              (world_of w)) (\<lambda>w'.
       Inr (w\<lparr>world_of := w', conn_cbs := (conn_cbs w)(new_object su \<mapsto> newConnection_callbacks (srv_cbs w))\<rparr>))"

text \<open>The first functor of loop \<open>l\<close>.\<close>

definition wired_task :: "loop_id \<Rightarrow> wired \<Rightarrow> wired outcome" where
  "wired_task l w =
     (case world_of w of (s, e) \<Rightarrow>
        (case tasks s l of
           [] \<Rightarrow> Inr w
         | t # ts \<Rightarrow> bindO (run_task (task_callback (conn_cbs w) t) t (s\<lparr>tasks := (tasks s)(l := ts)\<rparr>, e))
             (\<lambda>w'. Inr (w\<lparr>world_of := w'\<rparr>))))"

text \<open>The user sets callbacks; a connection callback must keep to the public interface.\<close>

inductive server_set :: "server_callbacks \<Rightarrow> server_callbacks \<Rightarrow> bool" for k where
  "user_safe cb \<Longrightarrow> server_set k (TcpServer_setConnectionCallback cb k)"
| "server_set k (TcpServer_setMessageCallback m k)"
| "server_set k (TcpServer_setWriteCompleteCallback wc k)"

inductive conn_set :: "conn_callbacks \<Rightarrow> conn_callbacks \<Rightarrow> bool" for k where
  "user_safe cb \<Longrightarrow> conn_set k (TcpConnection_setConnectionCallback cb k)"
| "conn_set k (TcpConnection_setMessageCallback m k)"
| "conn_set k (TcpConnection_setWriteCompleteCallback wc k)"
| "conn_set k (TcpConnection_setCloseCallback cc k)"

inductive wired_step :: "wired \<Rightarrow> wired \<Rightarrow> bool" where
  sets_server: "server_set (srv_cbs w) k \<Longrightarrow> wired_step w (w\<lparr>srv_cbs := k\<rparr>)"
| sets_conn: "conn_cbs w c = Some k \<Longrightarrow> conn_set k k' \<Longrightarrow> wired_step w (w\<lparr>conn_cbs := (conn_cbs w)(c \<mapsto> k')\<rparr>)"
| accepts: "offered su connfd fcntl (fst (world_of w)) \<Longrightarrow> lucky_memory (new_memory su) \<Longrightarrow>
    listenning (srv_acceptor (fst (world_of w))) \<Longrightarrow>
    wired_accept su fcntl connfd peer close_reply w = Inr w' \<Longrightarrow> wired_step w w'"
| restarts: "0 \<le> r \<Longrightarrow> server_start (srv_connectionCallback (srv_cbs w)) created (Ok r) here (world_of w) = Inr w' \<Longrightarrow>
    wired_step w (w\<lparr>world_of := w'\<rparr>)"
| runs: "tasks (fst (world_of w)) l \<noteq> [] \<Longrightarrow> wired_task l w = Inr w' \<Longrightarrow> wired_step w w'"
| works: "world_of w = (s, e) \<Longrightarrow> objects s c = Some (l, conn) \<Longrightarrow> state conn \<noteq> None \<Longrightarrow>
    on_object c (conn_do x) s = Inr s' \<Longrightarrow> wired_step w (w\<lparr>world_of := (s', e)\<rparr>)"

text \<open>A constructed server whose user has set a connection callback before the first \<open>start\<close>.\<close>

definition wired_start :: "int \<Rightarrow> wired \<Rightarrow> bool" where
  "wired_start n w \<longleftrightarrow> safe_start n (world_of w) \<and> conn_cbs w = Map.empty \<and>
     (\<exists>cb. user_safe cb \<and> srv_cbs w = TcpServer_setConnectionCallback cb server_callbacks_new)"

section \<open>The invariant\<close>

definition wired_inv :: "int \<Rightarrow> wired \<Rightarrow> bool" where
  "wired_inv n w \<longleftrightarrow>
     (safe (world_of w) \<and> server_inv (fst (world_of w)) \<and> spread_inv n (fst (world_of w))) \<and>
     user_safe (srv_connectionCallback (srv_cbs w)) \<and>
     (\<forall>c. conn_cbs w c \<noteq> None \<longleftrightarrow> objects (fst (world_of w)) c \<noteq> None) \<and>
     (\<forall>c k. conn_cbs w c = Some k \<longrightarrow> user_safe (own_connectionCallback k))"

lemma user_safe_ok: "user_safe cb \<Longrightarrow> user_ok cb"
  by (simp add: user_safe_def)

lemma safe_step_keeps:
  assumes "safe_step cb w w'" "user_safe cb" "in_i32 n" "safe w" "server_inv (fst w)" "spread_inv n (fst w)"
  shows "safe w'" "server_inv (fst w')" "spread_inv n (fst w')"
  using safe_step_safe [OF assms(1,2,4-6)] server_step_inv [OF safe_step_step [OF assms(1)] _ assms(5)]
    server_step_spread [OF safe_step_step [OF assms(1)] _ assms(3,6)] user_safe_ok [OF assms(2)] by simp_all

text \<open>Connection objects are created in accepting only.\<close>

lemma same_core_objects:
  assumes "same_core s s'"
  shows "objects s' c = None \<longleftrightarrow> objects s c = None"
proof -
  have "placed s' c = placed s c" using assms by (simp add: same_core_def)
  then show ?thesis unfolding placed_def by (cases "objects s c"; cases "objects s' c") simp_all
qed

lemma start_objects:
  assumes cb: "user_ok cb" and run: "server_start cb created reply here (s, e) = Inr w'"
  shows "objects (fst w') c = None \<longleftrightarrow> objects s c = None"
proof -
  from run obtain s1 where s0: "(if \<not> srv_started s
      then bindO (pool_start created (threadPool s)) (\<lambda>p. Inr (s\<lparr>srv_started := True, threadPool := p\<rparr>))
      else Inr s) = Inr s1"
    and go: "(if \<not> listenning (srv_acceptor s1) then task_runInLoop cb here BaseLoop (Listen reply) (s1, e)
      else Inr (s1, e)) = Inr w'"
    unfolding server_start_def prod.case bindO_Inr_conv by blast
  have s1: "objects s1 = objects s" using s0 by (auto simp: outcome_simps split: if_splits)
  show ?thesis
  proof (cases "listenning (srv_acceptor s1)")
    case False
    with go have "task_runInLoop cb here BaseLoop (Listen reply) (s1, e) = Inr w'" by simp
    from runInLoop_core [OF cb this] same_core_objects [of s1 "fst w'" c] s1 show ?thesis by simp
  qed (use go s1 in auto)
qed

text \<open>Only two kinds of functors call the callback at all.\<close>

lemma run_task_callback:
  "\<forall>c. t \<noteq> Established c \<and> t \<noteq> Destroyed c \<Longrightarrow> run_task cb t (s, e) = run_task cb' t (s, e)"
  by (cases t) simp_all

text \<open>The world moves on and no connection appears or goes.\<close>

lemma world_moved:
  assumes inv: "wired_inv n w" and n: "in_i32 n" and cb: "user_safe cb" and step: "safe_step cb (world_of w) w1"
    and same: "\<And>c. objects (fst w1) c = None \<longleftrightarrow> objects (fst (world_of w)) c = None"
  shows "wired_inv n (w\<lparr>world_of := w1\<rparr>)"
  using inv same safe_step_keeps [OF step cb n] by (simp add: wired_inv_def)

text \<open>A queued functor calls a callback that keeps to the public interface, or none.\<close>

lemma task_user:
  assumes inv: "wired_inv n w" and w: "world_of w = (s, e)" and q: "tasks s l = t # ts"
  shows "\<exists>cb. user_safe cb \<and> (\<forall>x. run_task (task_callback (conn_cbs w) t) t x = run_task cb t x)"
proof (cases "\<exists>c. t = Established c \<or> t = Destroyed c")
  case True
  then obtain c where c: "t = Established c \<or> t = Destroyed c" by blast
  have "server_inv s" using inv w by (simp add: wired_inv_def)
  then have "task_known s t" using server_invD(6) [of s t l] q by simp
  with c have "objects s c \<noteq> None" by auto
  moreover have "conn_cbs w c \<noteq> None \<longleftrightarrow> objects s c \<noteq> None" using inv w by (simp add: wired_inv_def)
  ultimately obtain k where k: "conn_cbs w c = Some k" by blast
  then have "user_safe (own_connectionCallback k)" using inv by (simp add: wired_inv_def)
  with c k show ?thesis by auto
next
  case False
  then have "\<forall>x. run_task (task_callback (conn_cbs w) t) t x = run_task (srv_connectionCallback (srv_cbs w)) t x"
    using run_task_callback [of t] by (metis surj_pair)
  with inv show ?thesis by (auto simp: wired_inv_def)
qed

lemma accept_inv:
  assumes inv: "wired_inv n w" and n: "in_i32 n" and off: "offered su connfd fcntl (fst (world_of w))"
    and lucky: "lucky_memory (new_memory su)" and lis: "listenning (srv_acceptor (fst (world_of w)))"
    and run: "wired_accept su fcntl connfd peer close_reply w = Inr w'"
  shows "wired_inv n w'"
proof -
  let ?cb = "srv_connectionCallback (srv_cbs w)"
  obtain s e where w: "world_of w = (s, e)" by fastforce
  have cb: "user_safe ?cb" using inv by (simp add: wired_inv_def)
  from run obtain w1 where go: "server_handleRead ?cb su fcntl (Ok connfd) peer close_reply (world_of w) = Inr w1"
    and w': "w' = w\<lparr>world_of := w1, conn_cbs := (conn_cbs w)(new_object su \<mapsto> newConnection_callbacks (srv_cbs w))\<rparr>"
    by (auto simp: wired_accept_def outcome_simps)
  have step: "safe_step ?cb (world_of w) w1" by (rule safe_step.accepts [OF off lucky lis go])
  have "newConnection ?cb su connfd peer (s, setNonBlockAndCloseOnExec fcntl connfd e) = Inr w1"
    using go accept_runs_new [of su connfd fcntl s] off w by simp
  from newConnection_result [OF user_safe_ok [OF cb] this] obtain l conn where
    "objects (fst w1) = (objects s)(new_object su \<mapsto> (l, conn))" by blast
  with inv cb safe_step_keeps [OF step cb n] w show ?thesis
    by (auto simp: wired_inv_def w' callback_setters)
qed

lemma wired_step_inv:
  assumes step: "wired_step w w'" and n: "in_i32 n" and inv: "wired_inv n w"
  shows "wired_inv n w'"
  using step inv
proof (induction rule: wired_step.induct)
  case (sets_server w k)
  then show ?case by (auto simp: wired_inv_def callback_setters elim!: server_set.cases)
next
  case (sets_conn w c k k')
  then show ?case by (auto simp: wired_inv_def callback_setters elim!: conn_set.cases)
next
  case (accepts su connfd fcntl w peer close_reply w')
  then show ?case using accept_inv [OF _ n] by blast
next
  case (restarts r w created here w')
  have cb: "user_safe (srv_connectionCallback (srv_cbs w))" using restarts(3) by (simp add: wired_inv_def)
  show ?case
    by (rule world_moved [OF restarts(3) n cb safe_step.restarts [OF restarts(1,2)]])
      (use start_objects [OF user_safe_ok [OF cb]] restarts(2) in \<open>metis prod.collapse\<close>)
next
  case (runs w l w')
  obtain s e where w: "world_of w = (s, e)" by fastforce
  then obtain t ts where q: "tasks s l = t # ts" using runs(1) by (auto simp: neq_Nil_conv)
  from task_user [OF runs(3) w q] obtain cb where cb: "user_safe cb"
    "\<forall>x. run_task (task_callback (conn_cbs w) t) t x = run_task cb t x" by blast
  with runs(2) w q obtain w1 where w1: "run_task cb t (s\<lparr>tasks := (tasks s)(l := ts)\<rparr>, e) = Inr w1"
    and w': "w' = w\<lparr>world_of := w1\<rparr>"
    by (auto simp: wired_task_def outcome_simps)
  have step: "safe_step cb (world_of w) w1" unfolding w by (rule safe_step.runs [OF q w1])
  have "same_core (s\<lparr>tasks := (tasks s)(l := ts)\<rparr>) (fst w1)"
    using run_task_core [OF user_safe_ok [OF cb(1)] w1] by simp
  from same_core_objects [OF this] show ?case
    unfolding w' by (intro world_moved [OF runs(3) n cb(1) step]) (simp add: w)
next
  case (works w s e c l conn x s')
  have cb: "user_safe (srv_connectionCallback (srv_cbs w))" using works(5) by (simp add: wired_inv_def)
  have step: "safe_step (srv_connectionCallback (srv_cbs w)) (world_of w) (s', e)"
    unfolding works(1) by (rule safe_step.works [OF works(2-4)])
  have "same_core s s'"
    using on_object_core [OF works(4)] conn_do_ident by (auto simp: ident_def)
  from same_core_objects [OF this] show ?case
    by (intro world_moved [OF works(5) n cb step]) (simp add: works(1))
qed

lemma wired_start_inv:
  assumes "wired_start n w" "in_i32 n"
  shows "wired_inv n w"
proof -
  obtain cb where cb: "user_safe cb" "srv_cbs w = TcpServer_setConnectionCallback cb server_callbacks_new"
    using assms(1) by (auto simp: wired_start_def)
  have st: "safe_start n (world_of w)" using assms(1) by (simp add: wired_start_def)
  then have "objects (fst (world_of w)) = Map.empty" by (simp add: safe_start_def fresh_server_def)
  with secure.inv_init [OF st, of cb] cb assms show ?thesis
    by (simp add: wired_inv_def wired_start_def callback_setters)
qed

interpretation wiredm: machine "wired_start n" wired_step "\<lambda>w. in_i32 n \<longrightarrow> wired_inv n w" for n
  by unfold_locales (blast intro: wired_start_inv wired_step_inv)+

section \<open>Properties\<close>

lemma accept_runs:
  assumes inv: "wired_inv n w" and off: "offered su connfd fcntl (fst (world_of w))"
    and lucky: "lucky_memory (new_memory su)" and lis: "listenning (srv_acceptor (fst (world_of w)))"
  shows "\<exists>w'. wired_accept su fcntl connfd peer close_reply w = Inr w' \<and>
    conn_cbs w' (new_object su) = Some (newConnection_callbacks (srv_cbs w))"
proof -
  obtain s e where w: "world_of w = (s, e)" by fastforce
  have "all_safe (server_handleRead (srv_connectionCallback (srv_cbs w)) su fcntl (Ok connfd) peer close_reply (s, e))"
    by (rule accept_all_safe [where n = n]) (use inv off lucky lis w in \<open>simp_all add: wired_inv_def\<close>)
  with w show ?thesis by (auto simp: wired_accept_def all_safe_def)
qed

lemma wired_task_runs:
  assumes inv: "wired_inv n w"
  shows "\<exists>w'. wired_task l w = Inr w'"
proof -
  obtain s e where w: "world_of w = (s, e)" by fastforce
  show ?thesis
  proof (cases "tasks s l")
    case Nil
    with w show ?thesis by (simp add: wired_task_def)
  next
    case (Cons t ts)
    from task_user [OF inv w this] obtain cb where cb: "user_safe cb"
      "\<forall>x. run_task (task_callback (conn_cbs w) t) t x = run_task cb t x" by blast
    have "all_safe (run_task cb t (s\<lparr>tasks := (tasks s)(l := ts)\<rparr>, e))"
      by (rule task_all_safe [OF _ Cons _ cb(1)]) (use inv w in \<open>simp_all add: wired_inv_def\<close>)
    with w Cons cb(2) show ?thesis by (auto simp: wired_task_def all_safe_def)
  qed
qed

lemma step_keeps_callbacks:
  assumes step: "wired_step w w'" and inv: "wired_inv n w" and k: "conn_cbs w c = Some k"
  shows "\<exists>k'. conn_cbs w' c = Some k' \<and> (k' = k \<or> conn_set k k')"
  using step inv k
proof (induction rule: wired_step.induct)
  case (accepts su connfd fcntl w peer close_reply w')
  have "objects (fst (world_of w)) (new_object su) = None" using accepts(1) by (simp add: offered_def)
  moreover have "objects (fst (world_of w)) c \<noteq> None" using accepts(5,6) unfolding wired_inv_def by blast
  ultimately have "c \<noteq> new_object su" by auto
  with accepts(4,6) show ?case by (auto simp: wired_accept_def outcome_simps)
next
  case (runs w l w')
  then show ?case by (auto simp: wired_task_def outcome_simps split: list.splits prod.splits)
qed auto

text \<open>
  The functor that establishes a connection: the user's callback gets the connection, registered and
  connected, and what it returns is what the connection becomes.
\<close>

lemma established_calls_own:
  assumes inv: "wired_inv n w" and w: "world_of w = (s, e)" and q: "tasks s l = Established c # ts"
    and k: "conn_cbs w c = Some k"
  shows "\<exists>f m conn t1 t' w'. own_connectionCallback k = Some f \<and> objects s c = Some (m, conn) \<and>
    on_poller enableReading (setState kConnected (conn\<lparr>loop_poller := pollers s m\<rparr>)) = Inr t1 \<and> f t1 = Inr t' \<and>
    wired_task l w = Inr w' \<and> objects (fst (world_of w')) c = Some (m, t')"
proof -
  have "user_safe (own_connectionCallback k)" using inv k unfolding wired_inv_def by blast
  then obtain f where f: "own_connectionCallback k = Some f" by (auto simp: user_safe_def)
  have "objects s c \<noteq> None" using inv k w unfolding wired_inv_def by fastforce
  then obtain m conn where conn: "objects s c = Some (m, conn)" by auto
  obtain w' where w': "wired_task l w = Inr w'" using wired_task_runs [OF inv] by blast
  let ?s = "s\<lparr>tasks := (tasks s)(l := ts)\<rparr>"
  have "run_task (Some f) (Established c) (?s, e) = Inr (world_of w')"
    using w' w q k f by (auto simp: wired_task_def outcome_simps simp del: run_task.simps)
  then obtain s1 where s1: "on_object c (connectEstablished (Some f)) ?s = Inr s1" "world_of w' = (s1, e)"
    by (auto simp: outcome_simps)
  from s1(1) conn obtain t' where t': "connectEstablished (Some f) (conn\<lparr>loop_poller := pollers s m\<rparr>) = Inr t'"
    "objects s1 c = Some (m, t')"
    by (auto simp: on_object_def deref_def outcome_simps)
  then obtain t1 where "on_poller enableReading (setState kConnected (conn\<lparr>loop_poller := pollers s m\<rparr>)) = Inr t1"
    "f t1 = Inr t'" by (auto simp: connectEstablished_def outcome_simps call_user_def)
  moreover have "objects (fst (world_of w')) c = Some (m, t')" using t'(2) s1(2) by simp
  ultimately show ?thesis using f conn w' by blast
qed



text \<open>
  A server whose user has set no connection callback does not survive its first connection: to
  establish it calls an empty function, whose exception nobody catches.
\<close>

theorem unset_callback_aborts:
  assumes safe: "safe (s, e)" and c: "objects s c = Some (l, conn)"
  shows "run_task (own_connectionCallback (newConnection_callbacks server_callbacks_new)) (Established c) (s, e) = Inl Abort"
proof -
  let ?t = "conn\<lparr>loop_poller := pollers s l\<rparr>"
  obtain s' where "on_object c (connectEstablished (Some Inr)) s = Inr s'"
    using established_safe [OF safe c, of "Some Inr"] user_safe_skip by auto
  then obtain t' where "on_poller enableReading (setState kConnected ?t) = Inr t'"
    using c by (auto simp: on_object_def connectEstablished_def outcome_simps deref_def)
  with c show ?thesis
    by (simp add: on_object_def connectEstablished_def deref_def call_user_def callback_setters
        server_callbacks_new_def conn_callbacks_new_def)
qed

text \<open>After \<open>shutdown\<close> a connection says that it is not connected, and \<open>send\<close> does nothing.\<close>

theorem shutdown_disconnects:
  assumes ok: "conn_ok s" and run: "shutdown in_loop s = Inr s'"
  shows "connected s' = Inr False \<and> send in_loop' m s' = Inr s'"
proof -
  have "state s \<noteq> None" using ok by (simp add: conn_ok_def)
  then have "connected s' = Inr False"
    using run by (auto simp: connected_def shutdown_def state_is_def conn_runInLoop_def shutdownInLoop_def
        setState_def outcome_simps split: option.splits if_splits)
  then show ?thesis by (simp add: connected_def send_def)
qed

end
