(* ===== verification/Signals.thy ===== *)
theory Signals
  imports Connections
begin

text \<open>
  \<open>IgnoreSigPipe\<close> of \<open>EventLoop.cc\<close>: a static object whose constructor ignores \<open>SIGPIPE\<close> before
  \<open>main\<close> starts.  The kernel raises that signal, besides the reply \<open>EPIPE\<close>, when a process writes to a
  connection that its peer has closed; the default action ends the process.

  The theory of connections has the replies of \<open>write\<close> only.  Here \<open>broken\<close> says, for a history of
  system calls, whether the last of them is a write on which the kernel raises the signal.
\<close>

section \<open>Signals\<close>

datatype disposition = SIG_DFL | SIG_IGN

type_synonym signals = "int \<Rightarrow> disposition"

definition SIGPIPE :: int where
  "SIGPIPE = 13"

definition IgnoreSigPipe :: "signals \<Rightarrow> signals" where
  "IgnoreSigPipe sigs = sigs(SIGPIPE := SIG_IGN)"

text \<open>An operation of a connection, in a process with these dispositions.\<close>

definition under_signals ::
    "signals \<Rightarrow> (io_call list \<Rightarrow> bool) \<Rightarrow> (tcp_conn \<Rightarrow> tcp_conn outcome) \<Rightarrow> tcp_conn \<Rightarrow> tcp_conn outcome" where
  "under_signals sigs broken f s =
     bindO (f s) (\<lambda>s'.
       if sigs SIGPIPE = SIG_DFL \<and> list_ex (\<lambda>n. broken (take (Suc n) (io s'))) [length (io s)..<length (io s')]
       then Inl Abort else Inr s')"

section \<open>Properties\<close>

text \<open>The first write of a message to a closed connection ends a process that does not ignore the signal.\<close>

lemma send_to_closed:
  assumes ok: "conn_ok s" and st: "state s = Some kConnected" and c: "get_chan s = Some c" and w: "\<not> isWriting c"
    and closed: "broken (io s @ [WriteCall (fd c) m])" and dfl: "sigs SIGPIPE = SIG_DFL"
  shows "under_signals sigs broken (send True m) s = Inl Abort"
proof -
  let ?s1 = "s\<lparr>io := io s @ [WriteCall (fd c) m]\<rparr>"
  have s1: "conn_ok ?s1" "get_chan ?s1 = Some c" using ok c by (simp_all add: conn_ok_frame)
  obtain pl where pl: "on_poller enableWriting ?s1 = Inr (?s1\<lparr>loop_poller := pl\<rparr>)"
    using setter_on_poller [OF s1 setters(2)] by (auto simp: enableWriting_def)
  have "send True m s = sendInLoop m s" using st by (simp add: send_def state_is_def)
  with sendInLoop_run [OF ok c refl, of m] w pl
  have "send True m s = Inr ?s1 \<or> send True m s = Inr (?s1\<lparr>loop_poller := pl\<rparr>)" by simp
  then obtain s' where s': "send True m s = Inr s'" "io s' = io s @ [WriteCall (fd c) m]" by auto
  with closed dfl show ?thesis by (simp add: under_signals_def)
qed

text \<open>
  C11.  A peer that goes away cannot end the process.  With \<open>SIGPIPE\<close> ignored, as the static object of the
  event loop arranges, any sequence of events and calls on an established connection runs to its
  end, whichever writes meet a closed connection; without that, the first message sent to a closed
  connection kills the process.
\<close>

theorem sigpipe_ignored:
  assumes ok: "conn_ok s"
  shows "(\<exists>s'. under_signals (IgnoreSigPipe sigs) broken (conn_run ops) s = Inr s' \<and> conn_ok s') \<and>
    (sigs SIGPIPE = SIG_DFL \<and> state s = Some kConnected \<and> get_chan s = Some c \<and> \<not> isWriting c \<and>
       broken (io s @ [WriteCall (fd c) m]) \<longrightarrow> under_signals sigs broken (send True m) s = Inl Abort)"
proof -
  obtain s' where "conn_run ops s = Inr s'" "conn_ok s'" using conn_run_ok [OF ok, of ops] by (auto simp: runs_ok_def)
  then have "under_signals (IgnoreSigPipe sigs) broken (conn_run ops) s = Inr s' \<and> conn_ok s'"
    by (simp add: under_signals_def IgnoreSigPipe_def)
  then show ?thesis using send_to_closed [OF ok] by blast
qed

theorem sigpipe_ignored_witness:
  "(\<exists>s'. under_signals (IgnoreSigPipe (\<lambda>_. SIG_DFL)) (\<lambda>_. True) (conn_run [Send True [1], Shutdown True]) demo_conn = Inr s') \<and>
   under_signals (\<lambda>_. SIG_DFL) (\<lambda>_. True) (send True [1]) demo_conn = Inl Abort"
proof -
  have "state demo_conn = Some kConnected" by (simp add: demo_conn_def)
  with sigpipe_ignored [OF demo_conn_ok, of "\<lambda>_. SIG_DFL" "\<lambda>_. True"] demo_chan demo_conn_writing
  show ?thesis by blast
qed

end
