(* ===== verification/LogOutput.thy ===== *)
theory LogOutput
  imports Logging
begin

text \<open>
  Where log lines go: the two function pointers \<open>g_output\<close> and \<open>g_flush\<close> of \<open>Logging.cc\<close>, their
  setters and their defaults, which write to \<open>stdout\<close>.

  The theory of the logger records what each statement hands to \<open>g_output\<close>.  Here the functions act
  on a destination of any type \<open>'d\<close>.  A C stream has bytes that were written
  (\<open>on_file\<close>) and bytes that wait in its buffer (\<open>pending\<close>); what the library does with them is a
  parameter.  Of the bytes handed to \<open>fwrite\<close> it takes some (all, unless there is a write error); of
  those that wait it writes out some (all of them at a terminal, none until the buffer is full
  otherwise); and \<open>fflush\<close> writes out all that wait, or fewer and fails.  The code looks at neither
  result.  \<open>abort()\<close> drops what waits.
\<close>

section \<open>Streams and output functions\<close>

record stream =
  on_file :: string
  pending :: string

record 'd outputs =
  g_output :: "string \<Rightarrow> int \<Rightarrow> 'd \<Rightarrow> 'd"
  g_flush :: "'d \<Rightarrow> 'd"
  dest :: 'd

record stdio =
  takes :: "stream \<Rightarrow> string \<Rightarrow> nat"
  spills :: "string \<Rightarrow> nat"
  flushes :: "stream \<Rightarrow> nat"

text \<open>\<open>fwrite\<close> returns the number of bytes that it has taken, \<open>fflush\<close> zero or \<open>EOF\<close>.\<close>

definition c_fwrite :: "stdio \<Rightarrow> string \<Rightarrow> nat \<Rightarrow> stream \<Rightarrow> nat \<times> stream" where
  "c_fwrite io msg len f =
     (let taken = take (takes io f (take len msg)) (take len msg);
          waiting = pending f @ taken; k = spills io waiting
      in (length taken, f\<lparr>on_file := on_file f @ take k waiting, pending := drop k waiting\<rparr>))"

definition c_fflush :: "stdio \<Rightarrow> stream \<Rightarrow> int \<times> stream" where
  "c_fflush io f =
     (let k = flushes io f in
      (if length (pending f) \<le> k then 0 else - 1,
       f\<lparr>on_file := on_file f @ take k (pending f), pending := drop k (pending f)\<rparr>))"

definition defaultOutput :: "stdio \<Rightarrow> string \<Rightarrow> int \<Rightarrow> stream \<Rightarrow> stream" where
  "defaultOutput io msg len f = (let (n, f') = c_fwrite io msg (nat len) f in f')"

definition defaultFlush :: "stdio \<Rightarrow> stream \<Rightarrow> stream" where
  "defaultFlush io f = snd (c_fflush io f)"

definition default_outputs :: "stdio \<Rightarrow> stream \<Rightarrow> stream outputs" where
  "default_outputs io f = \<lparr>g_output = defaultOutput io, g_flush = defaultFlush io, dest = f\<rparr>"

text \<open>Streams without write errors, and flushes that succeed.\<close>

definition takes_all :: "stdio \<Rightarrow> bool" where
  "takes_all io \<longleftrightarrow> (\<forall>f msg. fst (c_fwrite io msg (length msg) f) = length msg)"

definition flushes_all :: "stdio \<Rightarrow> bool" where
  "flushes_all io \<longleftrightarrow> (\<forall>f. fst (c_fflush io f) = 0)"

definition setOutput :: "(string \<Rightarrow> int \<Rightarrow> 'd \<Rightarrow> 'd) \<Rightarrow> 'd outputs \<Rightarrow> 'd outputs" where
  "setOutput out s = s\<lparr>g_output := out\<rparr>"

definition setFlush :: "('d \<Rightarrow> 'd) \<Rightarrow> 'd outputs \<Rightarrow> 'd outputs" where
  "setFlush flush s = s\<lparr>g_flush := flush\<rparr>"

text \<open>What is left of a stream when the process aborts.\<close>

definition after_abort :: "stream \<Rightarrow> string" where
  "after_abort f = on_file f"

section \<open>Statements that reach a destination\<close>

text \<open>The destructor calls \<open>g_output\<close>, and after a \<open>FATAL\<close> line \<open>g_flush\<close>, then aborts.\<close>

definition Logger_deliver :: "impl \<Rightarrow> 'd outputs \<Rightarrow> (bool \<times> 'd outputs) outcome" where
  "Logger_deliver i s =
     bindO (finish i) (\<lambda>i'.
       let buf = text_of (msg_stream i');
           s1 = s\<lparr>dest := g_output s buf (int (length buf)) (dest s)\<rparr>
       in if msg_level i' = FATAL then Inr (True, s1\<lparr>dest := g_flush s1 (dest s1)\<rparr>)
          else Inr (False, s1))"

datatype logger_call =
    FuncLogger string int LogLevel string
  | InfoLogger string int
  | LevelLogger string int LogLevel
  | ErrLogger string int bool

fun construct :: "logger_call \<Rightarrow> log_env \<Rightarrow> (impl \<times> log_env) outcome" where
  "construct (FuncLogger file line level func) = Logger_func file line level func"
| "construct (InfoLogger file line) = Logger_info file line"
| "construct (LevelLogger file line level) = Logger_level file line level"
| "construct (ErrLogger file line toAbort) = Logger_err file line toAbort"

definition statement_out ::
    "logger_call \<Rightarrow> log_item list \<Rightarrow> log_env \<times> 'd outputs \<Rightarrow> (bool \<times> log_env \<times> 'd outputs) outcome" where
  "statement_out call body w =
     (case w of (e, s) \<Rightarrow>
        bindO (construct call e) (\<lambda>(i, e1).
        bindO (put_items body (msg_stream i)) (\<lambda>b.
        bindO (Logger_destroy (i\<lparr>msg_stream := b\<rparr>) e1) (\<lambda>(aborted, e2).
        bindO (Logger_deliver (i\<lparr>msg_stream := b\<rparr>) s) (\<lambda>(aborted', s1).
          Inr (aborted', e2, s1))))))"

text \<open>A sequence of statements, up to the one that aborts.\<close>

fun log_run ::
    "(logger_call \<times> log_item list) list \<Rightarrow> log_env \<times> 'd outputs \<Rightarrow> (bool \<times> log_env \<times> 'd outputs) outcome" where
  "log_run [] w = Inr (False, w)"
| "log_run ((call, body) # xs) w =
     bindO (statement_out call body w) (\<lambda>(aborted, w1). if aborted then Inr (True, w1) else log_run xs w1)"

section \<open>The destination sees the printed lines\<close>

lemma construct_printed: "construct call e = Inr (i, e1) \<Longrightarrow> printed e1 = printed e"
  by (cases call) (auto simp: Logger_func_def Logger_info_def Logger_level_def Logger_err_def Impl_new_def
      outcome_simps split: prod.splits)

text \<open>One statement: a line, in the record of the logger and at the destination.\<close>

lemma statement_out_line:
  assumes "statement_out call body (e, s) = Inr (aborted, e', s')"
  shows "\<exists>line. printed e' = printed e @ [line] \<and>
    s' = s\<lparr>dest := (if aborted then g_flush s else id) (g_output s line (int (length line)) (dest s))\<rparr>"
  using assms
  by (auto simp: statement_out_def Logger_destroy_def Logger_deliver_def Let_def outcome_simps construct_printed
      split: prod.splits if_splits)

lemma statement_out_agrees:
  "bindO (statement_out call body (e, s)) (\<lambda>(aborted, e', s'). Inr (aborted, e')) = log_statement (construct call) body e"
proof (cases "construct call e")
  case (Inr c)
  obtain i e1 where c: "c = (i, e1)" by fastforce
  show ?thesis
  proof (cases "put_items body (msg_stream i)")
    case b: (Inr b)
    with Inr c show ?thesis
      by (cases "finish (i\<lparr>msg_stream := b\<rparr>)")
        (auto simp: statement_out_def log_statement_def Logger_destroy_def Logger_deliver_def Let_def)
  qed (use Inr c in \<open>simp add: statement_out_def log_statement_def\<close>)
qed (simp add: statement_out_def log_statement_def)

lemma log_run_lines:
  "log_run xs (e, s) = Inr (aborted, e', s') \<Longrightarrow> \<exists>ls. printed e' = printed e @ ls \<and>
    s' = s\<lparr>dest := (if aborted then g_flush s else id)
      (fold (\<lambda>l d. g_output s l (int (length l)) d) ls (dest s))\<rparr>"
proof (induction xs arbitrary: e s)
  case Nil
  then show ?case by simp
next
  case (Cons x xs)
  obtain call body where x: "x = (call, body)" by fastforce
  from Cons.prems obtain ab e1 s1 where 1: "statement_out call body (e, s) = Inr (ab, e1, s1)"
    "(if ab then Inr (True, e1, s1) else log_run xs (e1, s1)) = Inr (aborted, e', s')"
    by (auto simp: x outcome_simps split: prod.splits)
  from statement_out_line [OF 1(1)] obtain line where l: "printed e1 = printed e @ [line]"
    "s1 = s\<lparr>dest := (if ab then g_flush s else id) (g_output s line (int (length line)) (dest s))\<rparr>" by blast
  show ?case
  proof (cases ab)
    case True
    with 1(2) l show ?thesis by (intro exI [of _ "[line]"]) simp
  next
    case False
    with 1(2) have "log_run xs (e1, s1) = Inr (aborted, e', s')" by simp
    from Cons.IH [OF this] obtain ls where "printed e' = printed e1 @ ls"
      "s' = s1\<lparr>dest := (if aborted then g_flush s1 else id)
        (fold (\<lambda>l d. g_output s1 l (int (length l)) d) ls (dest s1))\<rparr>" by blast
    with l False show ?thesis by (intro exI [of _ "line # ls"]) simp
  qed
qed

section \<open>What a stream takes\<close>

text \<open>The bytes of each line that the stream takes, when the lines are written one after the other.\<close>

fun taken_of :: "stdio \<Rightarrow> string list \<Rightarrow> stream \<Rightarrow> string list" where
  "taken_of io [] f = []"
| "taken_of io (l # ls) f =
     take (fst (c_fwrite io l (length l) f)) l # taken_of io ls (defaultOutput io l (int (length l)) f)"

lemma c_fwrite_keeps:
  "c_fwrite io l (length l) f = (n, f') \<Longrightarrow> on_file f' @ pending f' = on_file f @ pending f @ take n l"
  by (auto simp: c_fwrite_def Let_def min_def simp del: take_append drop_append)

lemma default_fold:
  "on_file (fold (\<lambda>l d. defaultOutput io l (int (length l)) d) ls f) @
   pending (fold (\<lambda>l d. defaultOutput io l (int (length l)) d) ls f) =
   on_file f @ pending f @ concat (taken_of io ls f)"
proof (induction ls arbitrary: f)
  case (Cons l ls)
  obtain n f' where w: "c_fwrite io l (length l) f = (n, f')" by fastforce
  then have f': "defaultOutput io l (int (length l)) f = f'" by (simp add: defaultOutput_def)
  have "on_file f' @ pending f' @ rest = on_file f @ pending f @ take n l @ rest" for rest
    using c_fwrite_keeps [OF w] by (metis append.assoc)
  with Cons.IH [of f'] w f' show ?case by simp
qed simp

lemma taken_prefix: "list_all2 (\<lambda>part l. \<exists>rest. l = part @ rest) (taken_of io ls f) ls"
proof (induction ls arbitrary: f)
  case (Cons l ls)
  have "\<exists>rest. l = take n l @ rest" for n by (metis append_take_drop_id)
  with Cons show ?case by simp
qed simp

lemma taken_all: "takes_all io \<Longrightarrow> taken_of io ls f = ls"
  by (induction ls arbitrary: f) (simp_all add: takes_all_def)

lemma flushed_all: "flushes_all io \<Longrightarrow> on_file (defaultFlush io f) = on_file f @ pending f"
  unfolding flushes_all_def by (drule spec [of _ f]) (simp add: defaultFlush_def c_fflush_def Let_def split: if_splits)

lemma flush_keeps: "on_file (defaultFlush io f) @ pending (defaultFlush io f) = on_file f @ pending f"
  by (simp add: defaultFlush_def c_fflush_def Let_def)

text \<open>The program does not notice what becomes of its output.\<close>

lemma statement_out_unseen:
  assumes "statement_out call body (e, s) = Inr (aborted, e', s')"
  shows "\<exists>t'. statement_out call body (e, t) = Inr (aborted, e', t')"
proof -
  from assms statement_out_agrees [of call body e s]
  have "log_statement (construct call) body e = Inr (aborted, e')" by simp
  with statement_out_agrees [of call body e t] show ?thesis
    by (cases "statement_out call body (e, t)") auto
qed

lemma log_run_unseen:
  "log_run xs (e, s) = Inr (aborted, e', s') \<Longrightarrow> \<exists>t'. log_run xs (e, t) = Inr (aborted, e', t')"
proof (induction xs arbitrary: e s t)
  case (Cons x xs)
  obtain call body where x: "x = (call, body)" by fastforce
  from Cons.prems obtain ab e1 s1 where 1: "statement_out call body (e, s) = Inr (ab, e1, s1)"
    "(if ab then Inr (True, e1, s1) else log_run xs (e1, s1)) = Inr (aborted, e', s')"
    by (auto simp: x outcome_simps split: prod.splits)
  from statement_out_unseen [OF 1(1)] obtain t1 where t1: "statement_out call body (e, t) = Inr (ab, e1, t1)" by blast
  show ?case
  proof (cases ab)
    case True
    with 1(2) t1 x show ?thesis by auto
  next
    case False
    with 1(2) Cons.IH [of e1 s1 t1] t1 x show ?thesis by auto
  qed
qed simp

section \<open>Properties\<close>

text \<open>
  C29.  With the default output functions \<open>stdout\<close> gets of every line, in order and once, exactly what the
  C library takes in that call of \<open>fwrite\<close>, a prefix of the line, written or still in its buffer.  If
  the library takes all it is given, every line arrives whole; and if \<open>fflush\<close> succeeds, all that was
  taken is in the file when a \<open>FATAL\<close> statement aborts.  A write error or a failing flush loses the
  rest without notice: the statements run to the same end whatever the library does.
\<close>

theorem log_lines_delivered:
  assumes "log_run xs (e, default_outputs io f) = Inr (aborted, e', s')"
  shows "\<exists>ls. printed e' = printed e @ ls \<and>
    list_all2 (\<lambda>part l. \<exists>rest. l = part @ rest) (taken_of io ls f) ls \<and>
    on_file (dest s') @ pending (dest s') = on_file f @ pending f @ concat (taken_of io ls f) \<and>
    (takes_all io \<longrightarrow> taken_of io ls f = ls) \<and>
    (flushes_all io \<and> aborted \<longrightarrow> after_abort (dest s') = on_file f @ pending f @ concat (taken_of io ls f)) \<and>
    (\<forall>io' f'. \<exists>t'. log_run xs (e, default_outputs io' f') = Inr (aborted, e', t'))"
proof -
  from log_run_lines [OF assms] obtain ls where ls: "printed e' = printed e @ ls"
    "dest s' = (if aborted then defaultFlush io else id) (fold (\<lambda>l d. defaultOutput io l (int (length l)) d) ls f)"
    by (auto simp: default_outputs_def)
  have "on_file (dest s') @ pending (dest s') = on_file f @ pending f @ concat (taken_of io ls f)"
    using ls(2) default_fold [of io ls f] by (simp add: flush_keeps)
  moreover have "flushes_all io \<and> aborted \<longrightarrow>
      after_abort (dest s') = on_file f @ pending f @ concat (taken_of io ls f)"
    using ls(2) default_fold [of io ls f] by (simp add: flushed_all after_abort_def)
  moreover have "\<forall>io' f'. \<exists>t'. log_run xs (e, default_outputs io' f') = Inr (aborted, e', t')"
    using log_run_unseen [OF assms] by blast
  ultimately show ?thesis using ls(1) taken_prefix taken_all by blast
qed

definition demo_stdio :: stdio where
  "demo_stdio = \<lparr>takes = \<lambda>f msg. length msg, spills = \<lambda>_. 0, flushes = \<lambda>f. length (pending f)\<rparr>"

theorem log_lines_delivered_witness:
  "\<exists>e' s' line. log_run [(ErrLogger ''a.cc'' 1 True, [Chars ''x''])]
      (demo_env, default_outputs demo_stdio \<lparr>on_file = [], pending = ''before''\<rparr>) = Inr (True, e', s') \<and>
     printed e' = printed demo_env @ [line] \<and> after_abort (dest s') = ''before'' @ line"
proof -
  let ?s = "default_outputs demo_stdio \<lparr>on_file = [], pending = ''before''\<rparr>"
  have io: "takes_all demo_stdio" "flushes_all demo_stdio"
    by (simp_all add: takes_all_def flushes_all_def demo_stdio_def c_fwrite_def c_fflush_def Let_def)
  obtain ab e1 where 1: "log_statement (construct (ErrLogger ''a.cc'' 1 True)) [Chars ''x''] demo_env = Inr (ab, e1)" "ab"
    using statement_prints [of demo_env "[]" "[Chars ''x'']" "errno demo_env" 1 "''a.cc''" _ FATAL,
        OF _ _ _ _ _ ctors_build(4) [of _ _ True, simplified]] demo_env_ok
    by (auto simp: in_i32_def printed_line_def)
  then obtain e' s' where run: "statement_out (ErrLogger ''a.cc'' 1 True) [Chars ''x''] (demo_env, ?s) = Inr (True, e', s')"
    using statement_out_agrees [of "ErrLogger ''a.cc'' 1 True" "[Chars ''x'']" demo_env ?s]
    by (auto simp: outcome_simps)
  then have all: "log_run [(ErrLogger ''a.cc'' 1 True, [Chars ''x''])] (demo_env, ?s) = Inr (True, e', s')" by simp
  from statement_out_line [OF run] obtain line where line: "printed e' = printed demo_env @ [line]" by blast
  from log_lines_delivered [OF all] obtain ls where ls: "printed e' = printed demo_env @ ls"
    "taken_of demo_stdio ls \<lparr>on_file = [], pending = ''before''\<rparr> = ls"
    "after_abort (dest s') = ''before'' @ concat (taken_of demo_stdio ls \<lparr>on_file = [], pending = ''before''\<rparr>)"
    using io by auto
  with line all show ?thesis by auto
qed

text \<open>The functions that \<open>setOutput\<close> and \<open>setFlush\<close> install get every later line, once and in order.\<close>

lemma setOutput_redirects:
  assumes "log_run xs (e, setFlush flush (setOutput out s)) = Inr (aborted, e', s')"
  shows "\<exists>ls. printed e' = printed e @ ls \<and>
    dest s' = (if aborted then flush else id) (fold (\<lambda>l d. out l (int (length l)) d) ls (dest s))"
  using log_run_lines [OF assms] by (auto simp: setOutput_def setFlush_def)

text \<open>
  A line that is not \<open>FATAL\<close> stays in a full-buffered stream; an \<open>abort()\<close> right after it, as in
  \<open>createEventfd\<close>, loses the message.
\<close>

lemma unflushed_line_lost:
  assumes "spills io = (\<lambda>_. 0)" and "statement_out call body (e, default_outputs io f) = Inr (False, e', s')"
  shows "after_abort (dest s') = after_abort f"
  using statement_out_line [OF assms(2)] assms(1)
  by (auto simp: default_outputs_def defaultOutput_def c_fwrite_def after_abort_def Let_def)

text \<open>A stream that takes nothing loses every line, and the program goes on as if it were printed.\<close>

lemma failing_stream_loses_lines:
  assumes "takes io = (\<lambda>_ _. 0)" and "log_run xs (e, default_outputs io f) = Inr (aborted, e', s')"
  shows "on_file (dest s') @ pending (dest s') = on_file f @ pending f"
proof -
  from log_run_lines [OF assms(2)] obtain ls where "printed e' = printed e @ ls"
    "dest s' = (if aborted then defaultFlush io else id) (fold (\<lambda>l d. defaultOutput io l (int (length l)) d) ls f)"
    by (auto simp: default_outputs_def)
  moreover have "concat (taken_of io ls f) = []" using assms(1)
    by (induction ls arbitrary: f) (simp_all add: c_fwrite_def Let_def)
  ultimately show ?thesis using default_fold [of io ls f] by (simp add: flush_keeps)
qed

end
