(* ===== verification/BufferQueue.thy ===== *)
theory BufferQueue
  imports Buffers
begin

text \<open>
  Any sequence of operations on a \<open>Buffer\<close>, against a plain queue of bytes.  An operation is used within its
  contract when the caller keeps to what the class asks for without checking: not to retrieve more
  than is readable, not to write more than there is room for, not to prepend more than fits in front.
  The operations act on the first of two buffers; the second is the partner of \<open>swap\<close>.
\<close>

section \<open>Operations as data\<close>

text \<open>
  \<open>RetrieveTo n\<close> is \<open>retrieveUntil(peek() + n)\<close>; \<open>WriteInto dat\<close> is a caller that copies its bytes
  to \<open>beginWrite()\<close> and then calls \<open>hasWritten\<close>.
\<close>

datatype buffer_op =
    Retrieve size_t | RetrieveTo size_t | RetrieveAll | RetrieveString
  | Append "byte list" | Ensure size_t | WriteInto "byte list" | Prepend "byte list"
  | ReadFd readv_reply | Shrink size_t | Swap

definition write_into :: "byte list \<Rightarrow> buffer \<Rightarrow> buffer outcome" where
  "write_into dat b =
     bindO (store (buffer_data b) (unat (beginWrite b)) dat) (\<lambda>xs.
       Inr (hasWritten (of_nat (length dat)) (b\<lparr>buffer_data := xs\<rparr>)))"

fun buffer_do :: "buffer_op \<Rightarrow> buffer \<Rightarrow> buffer outcome" where
  "buffer_do (Retrieve n) b = Inr (retrieve n b)"
| "buffer_do (RetrieveTo n) b = Inr (retrieveUntil (peek b + n) b)"
| "buffer_do RetrieveAll b = Inr (retrieveAll b)"
| "buffer_do RetrieveString b = bindO (retrieveAsString b) (\<lambda>(str, b'). Inr b')"
| "buffer_do (Append str) b = Inr (append_string str b)"
| "buffer_do (Ensure n) b = ensureWritableBytes n b"
| "buffer_do (WriteInto dat) b = write_into dat b"
| "buffer_do (Prepend dat) b = prepend dat b"
| "buffer_do (ReadFd reply) b = bindO (readFd reply b) (\<lambda>r. Inr (rd_buffer r))"
| "buffer_do (Shrink n) b = shrink n b"
| "buffer_do Swap b = Inr b"

fun pair_do :: "buffer_op \<Rightarrow> buffer \<times> buffer \<Rightarrow> (buffer \<times> buffer) outcome" where
  "pair_do Swap (b, c) = Inr (buffer_swap b c)"
| "pair_do x (b, c) = bindO (buffer_do x b) (\<lambda>b'. Inr (b', c))"

text \<open>
  The contracts.  A request for room beyond \<open>2 ^ 62\<close> bytes would wrap the size arithmetic.  \<open>shrink\<close>
  leaves the indices as they are, so it may be used only while the data starts at the front.
\<close>

fun within_contract :: "buffer_op \<Rightarrow> buffer \<Rightarrow> bool" where
  "within_contract (Retrieve n) b = (n \<le> readableBytes b)"
| "within_contract (RetrieveTo n) b = (n \<le> readableBytes b)"
| "within_contract (Ensure n) b = (unat n < 2 ^ 62)"
| "within_contract (WriteInto dat) b = (length dat \<le> unat (writableBytes b))"
| "within_contract (Prepend dat) b = (length dat \<le> unat (prependableBytes b))"
| "within_contract (ReadFd (ReadvBytes bs)) b = (length bs \<le> unat (writableBytes b) + 65536)"
| "within_contract (Shrink n) b = (unat n < 2 ^ 62 \<and> readerIndex b = kCheapPrepend)"
| "within_contract _ b = True"

text \<open>What the operations mean for a plain queue.\<close>

fun queue_do :: "buffer_op \<Rightarrow> byte list \<times> byte list \<Rightarrow> byte list \<times> byte list" where
  "queue_do (Retrieve n) (q, r) = (drop (unat n) q, r)"
| "queue_do (RetrieveTo n) (q, r) = (drop (unat n) q, r)"
| "queue_do RetrieveAll (q, r) = ([], r)"
| "queue_do RetrieveString (q, r) = ([], r)"
| "queue_do (Append str) (q, r) = (q @ str, r)"
| "queue_do (WriteInto dat) (q, r) = (q @ dat, r)"
| "queue_do (Prepend dat) (q, r) = (dat @ q, r)"
| "queue_do (ReadFd (ReadvBytes bs)) (q, r) = (q @ bs, r)"
| "queue_do Swap (q, r) = (r, q)"
| "queue_do _ (q, r) = (q, r)"

text \<open>The operations that lose bytes: \<open>append\<close>, and a \<open>readFd\<close> of more than fits, which appends.\<close>

fun lossy :: "buffer_op \<Rightarrow> buffer \<Rightarrow> bool" where
  "lossy (Append str) b = (str \<noteq> [])"
| "lossy (ReadFd (ReadvBytes bs)) b = (unat (writableBytes b) < length bs)"
| "lossy _ b = False"

fun offered_bytes :: "buffer_op \<Rightarrow> byte list" where
  "offered_bytes (Append str) = str"
| "offered_bytes (ReadFd (ReadvBytes bs)) = bs"
| "offered_bytes _ = []"

text \<open>A run, as long as every operation is within its contract; it ends early where the vector cannot grow.\<close>

fun buffer_run :: "buffer_op list \<Rightarrow> buffer \<times> buffer \<Rightarrow> (buffer \<times> buffer) outcome" where
  "buffer_run [] s = Inr s"
| "buffer_run (x # xs) s = bindO (pair_do x s) (buffer_run xs)"

fun all_along :: "(buffer_op \<Rightarrow> buffer \<Rightarrow> bool) \<Rightarrow> buffer_op list \<Rightarrow> buffer \<times> buffer \<Rightarrow> bool" where
  "all_along P [] s = True"
| "all_along P (x # xs) s = (P x (fst s) \<and>
     (case pair_do x s of Inl f \<Rightarrow> True | Inr s' \<Rightarrow> all_along P xs s'))"

definition queues_of :: "buffer \<times> buffer \<Rightarrow> byte list \<times> byte list" where
  "queues_of s = (contents (fst s), contents (snd s))"

section \<open>One operation\<close>

lemma write_into_wf:
  assumes wf: "wf_buffer b" and n: "length dat \<le> unat (writableBytes b)"
  shows "\<exists>b'. write_into dat b = Inr b' \<and> wf_buffer b' \<and> contents b' = contents b @ dat"
proof -
  note D = wf_bufferD [OF wf]
  let ?r = "unat (readerIndex b)" and ?w = "unat (writerIndex b)" and ?n = "length (buffer_data b)"
  let ?xs = "take ?w (buffer_data b) @ dat @ drop (?w + length dat) (buffer_data b)"
  let ?b = "hasWritten (of_nat (length dat)) (b\<lparr>buffer_data := ?xs\<rparr>)"
  have l: "length dat \<le> ?n - ?w" using n by (simp add: unat_writable wf)
  have u: "unat (of_nat (length dat) :: size_t) = length dat" using l D by (intro unat_small) simp
  then have w: "unat (writerIndex b + of_nat (length dat)) = ?w + length dat"
    using D l by (subst unat_add_small) auto
  have "write_into dat b = Inr ?b" using l D by (simp add: write_into_def beginWrite_def store_def)
  moreover have "wf_buffer ?b" using D l w by (intro wf_bufferI) (auto simp: hasWritten_def)
  moreover have "contents ?b = contents b @ dat"
    using D l w by (simp add: contents_def hasWritten_def drop_take)
  ultimately show ?thesis by blast
qed

lemma retrieveUntil_eq: "retrieveUntil (peek b + n) b = retrieve n b"
  by (simp add: retrieveUntil_def)

lemma shrink_wf:
  assumes wf: "wf_buffer b" and n: "unat n < 2 ^ 62" and r: "readerIndex b = kCheapPrepend"
  shows "upheld (shrink n b) (\<lambda>b'. wf_buffer b' \<and> contents b' = contents b)"
proof (cases "8 + unat (readableBytes b) + unat n < 2 ^ 63")
  case True
  note D = wf_bufferD [OF wf]
  let ?b = "b\<lparr>buffer_data := replicate 8 0 @ contents b @ replicate (unat n) 0\<rparr>"
  have c: "length (contents b) = unat (writerIndex b) - 8" using r by (simp add: length_contents unat_readable wf)
  have w: "8 \<le> unat (writerIndex b)" using D r by simp
  have "wf_buffer ?b" using c w D r True by (intro wf_bufferI) (auto simp: unat_readable wf)
  moreover have "contents ?b = contents b" using c w r by (simp add: contents_def [of ?b])
  ultimately show ?thesis using shrink_result [OF wf True] by simp
next
  case False
  have "unat (kCheapPrepend + readableBytes b) = 8 + unat (readableBytes b)"
    using readable_lt [OF wf] by (subst unat_add_small) auto
  then have "unat (kCheapPrepend + readableBytes b + n) = 8 + unat (readableBytes b) + unat n"
    using readable_lt [OF wf] n by (subst unat_add_small) auto
  with False show ?thesis by (simp add: shrink_def vector_new_def)
qed

lemma ensure_wf:
  assumes "wf_buffer b" "unat n < 2 ^ 62"
  shows "upheld (ensureWritableBytes n b) (\<lambda>b'. wf_buffer b' \<and> contents b' = contents b)"
  using assms makeSpace_wf [OF assms] by (auto simp: ensureWritableBytes_def not_less elim: upheld_mono)

text \<open>What an operation does to the contents: the meaning on a plain queue, or, where it is lossy, less.\<close>

lemma readFd_reply_wf:
  assumes wf: "wf_buffer b" and c: "within_contract (ReadFd reply) b"
  shows "upheld (buffer_do (ReadFd reply) b) (\<lambda>b'. wf_buffer b' \<and>
    contents b' = contents b @ take (unat (writableBytes b)) (offered_bytes (ReadFd reply)))"
proof (cases reply)
  case (ReadvError err)
  have "writerIndex b \<le> vector_size b" using wf by (simp add: word_le_nat_alt unat_vector_size wf_bufferD)
  with ReadvError wf show ?thesis by (simp add: readFd_def)
next
  case (ReadvBytes bs)
  with c readFd_wf [OF wf, of bs] show ?thesis by auto
qed

lemma buffer_do_wf:
  assumes wf: "wf_buffer b" and c: "within_contract x b" and x: "x \<noteq> Swap"
  shows "upheld (buffer_do x b) (\<lambda>b'. wf_buffer b' \<and>
    (if lossy x b then \<exists>k < length (offered_bytes x). contents b' = contents b @ take k (offered_bytes x)
     else (contents b', r) = queue_do x (contents b, r)))"
proof (cases x)
  case (ReadFd reply)
  then show ?thesis using readFd_reply_wf [OF wf, of reply] c
    by (cases reply) (auto elim!: upheld_mono)
next
  case RetrieveAll
  then show ?thesis using retrieveAll_wf [of b] wf_bufferD [OF wf] by simp
next
  case RetrieveString
  then show ?thesis
    using retrieveAll_wf [of b] wf_bufferD [OF wf] peek_bytes_contents [OF wf] by (simp add: retrieveAsString_def)
next
  case (Prepend dat)
  with prepend_wf [OF wf] c show ?thesis by fastforce
next
  case (WriteInto dat)
  with write_into_wf [OF wf] c show ?thesis by fastforce
next
  case (Shrink n)
  with shrink_wf [OF wf] c show ?thesis by simp
next
  case (Append str)
  with wf show ?thesis by (auto simp: append_string_def append_chars_def intro: exI [of _ 0])
qed (use wf c x retrieve_wf [OF wf] ensure_wf [OF wf] in \<open>auto simp: retrieveUntil_eq\<close>)

lemma pair_do_wf:
  assumes wf: "wf_buffer (fst s)" "wf_buffer (snd s)" and c: "within_contract x (fst s)"
  shows "upheld (pair_do x s) (\<lambda>s'. wf_buffer (fst s') \<and> wf_buffer (snd s') \<and>
    (if lossy x (fst s)
     then (\<exists>k < length (offered_bytes x).
       queues_of s' = (contents (fst s) @ take k (offered_bytes x), contents (snd s)))
     else queues_of s' = queue_do x (queues_of s)))"
proof -
  obtain b d where s: "s = (b, d)" by fastforce
  show ?thesis
  proof (cases "x = Swap")
    case True
    with s wf show ?thesis by (simp add: buffer_swap_def queues_of_def)
  next
    case False
    then have "pair_do x s = bindO (buffer_do x b) (\<lambda>b'. Inr (b', d))" unfolding s by (cases x) auto
    with buffer_do_wf [OF wf(1) c False, of "contents d"] wf(2) s show ?thesis
      by (auto simp: queues_of_def elim!: upheld_bind)
  qed
qed

section \<open>Properties\<close>

text \<open>
  C10.  A buffer keeps its layout and is a queue of bytes but for what \<open>append\<close> loses.  Any sequence of
  operations within their contracts (\<open>shrink\<close> only while the data starts at the front) keeps the
  indices of both buffers in order and inside the vectors and never leaves a vector; only a vector that
  cannot grow ends the process.  If no operation is a non-empty \<open>append\<close> or a \<open>readFd\<close> of more
  than fits, the buffers end with exactly the bytes that the same operations give on plain queues.
  The operations excluded are exactly those that lose bytes: each stores only a proper prefix of
  what it was given.
\<close>

theorem buffer_runs_as_queue:
  assumes "wf_buffer (fst s)" and "wf_buffer (snd s)" and "all_along within_contract xs s"
  shows "upheld (buffer_run xs s) (\<lambda>s'. wf_buffer (fst s') \<and> wf_buffer (snd s') \<and>
      (all_along (\<lambda>x b. \<not> lossy x b) xs s \<longrightarrow> queues_of s' = fold queue_do xs (queues_of s))) \<and>
    (\<forall>x. within_contract x (fst s) \<and> lossy x (fst s) \<longrightarrow>
      upheld (pair_do x s) (\<lambda>s'. \<exists>k < length (offered_bytes x).
        queues_of s' = (contents (fst s) @ take k (offered_bytes x), contents (snd s))))"
proof
  show "upheld (buffer_run xs s) (\<lambda>s'. wf_buffer (fst s') \<and> wf_buffer (snd s') \<and>
      (all_along (\<lambda>x b. \<not> lossy x b) xs s \<longrightarrow> queues_of s' = fold queue_do xs (queues_of s)))"
    using assms
  proof (induction xs arbitrary: s)
    case (Cons x xs)
    have c: "within_contract x (fst s)" using Cons.prems(3) by simp
    note step = pair_do_wf [OF Cons.prems(1,2) c]
    show ?case
    proof (cases "pair_do x s")
      case (Inl f)
      with step show ?thesis by simp
    next
      case (Inr s')
      with step have s': "wf_buffer (fst s')" "wf_buffer (snd s')"
        "\<not> lossy x (fst s) \<longrightarrow> queues_of s' = queue_do x (queues_of s)" by (simp_all split: if_splits)
      have "all_along within_contract xs s'" using Cons.prems(3) Inr by simp
      from Cons.IH [OF s'(1,2) this] s'(3) show ?thesis by (auto simp: Inr elim!: upheld_mono)
    qed
  qed simp
  show "\<forall>x. within_contract x (fst s) \<and> lossy x (fst s) \<longrightarrow>
      upheld (pair_do x s) (\<lambda>s'. \<exists>k < length (offered_bytes x).
        queues_of s' = (contents (fst s) @ take k (offered_bytes x), contents (snd s)))"
  proof (intro allI impI, elim conjE)
    fix x
    assume "within_contract x (fst s)" and l: "lossy x (fst s)"
    from pair_do_wf [OF assms(1,2) this(1)] l
    show "upheld (pair_do x s) (\<lambda>s'. \<exists>k < length (offered_bytes x).
        queues_of s' = (contents (fst s) @ take k (offered_bytes x), contents (snd s)))"
      by (auto elim!: upheld_mono)
  qed
qed

definition small_buffer :: buffer where
  "small_buffer = \<lparr>buffer_data = [0, 0, 0, 0, 0, 0, 0, 0, 1, 2, 3, 0, 0], readerIndex = 9, writerIndex = 11\<rparr>"

definition demo_ops :: "buffer_op list" where
  "demo_ops = [Prepend [7], Shrink 4, Retrieve 2, WriteInto [9], Ensure 5, ReadFd (ReadvBytes [4, 5]), Swap]"

lemmas buffer_ops = write_into_def store_def load_def beginWrite_def hasWritten_def writableBytes_def vector_size_def
  readableBytes_def prependableBytes_def peek_def retrieve_def retrieveUntil_def prepend_def shrink_def vector_new_def
  peek_bytes_def ensureWritableBytes_def makeSpace_def vector_resize_def readFd_def append_chars_def kCheapPrepend_def
  buffer_swap_def

theorem buffer_runs_as_queue_witness:
  "\<exists>s'. buffer_run demo_ops (small_buffer, small_buffer) = Inr s' \<and> queues_of s' = ([2, 3], [3, 9, 4, 5]) \<and>
     (\<exists>s''. pair_do (Append [9]) (small_buffer, small_buffer) = Inr s'' \<and> queues_of s'' = ([2, 3], [2, 3]))"
proof -
  let ?s = "(small_buffer, small_buffer)"
  have wf: "wf_buffer (fst ?s)" "wf_buffer (snd ?s)" by (simp_all add: wf_buffer_def small_buffer_def)
  have k: "all_along within_contract demo_ops ?s" by (simp add: demo_ops_def small_buffer_def buffer_ops)
  have n: "all_along (\<lambda>x b. \<not> lossy x b) demo_ops ?s" by (simp add: demo_ops_def small_buffer_def buffer_ops)
  have q: "fold queue_do demo_ops (queues_of ?s) = ([2, 3], [3, 9, 4, 5])"
    by (simp add: demo_ops_def small_buffer_def queues_of_def contents_def)
  have r: "\<exists>s'. buffer_run demo_ops ?s = Inr s'" by (simp add: demo_ops_def small_buffer_def buffer_ops)
  have c: "contents small_buffer = [2, 3]" by (simp add: contents_def small_buffer_def)
  note main = buffer_runs_as_queue [OF wf k]
  from main n q r have 1: "\<exists>s'. buffer_run demo_ops ?s = Inr s' \<and> queues_of s' = ([2, 3], [3, 9, 4, 5])" by auto
  have "within_contract (Append [9]) (fst ?s) \<and> lossy (Append [9]) (fst ?s)" by simp
  with main have "upheld (pair_do (Append [9]) ?s) (\<lambda>s'. \<exists>k < length (offered_bytes (Append [9])).
      queues_of s' = (contents (fst ?s) @ take k (offered_bytes (Append [9])), contents (snd ?s)))" by blast
  with 1 c show ?thesis by auto
qed

end
