(* ===== verification/ThreadObjects.thy ===== *)
theory ThreadObjects
  imports EventLoopThread
begin

text \<open>
  The rest of \<open>Thread.h/.cc\<close>, \<open>Mutex.h\<close> and \<open>Condition.h\<close>: what a started thread stores into the
  \<open>Thread\<close> object that created it, the names and numbers of threads, the guard, and the operations of the
  condition variable that the handshake does not use.

  \<open>Thread\<close> objects live on a heap.  \<open>ThreadData\<close>, which belongs to the new thread, holds the address of the
  object's member \<open>tid_\<close>; that is the address of the object here.
\<close>

section \<open>Thread objects and the started thread\<close>

type_synonym thread_heap = "nat \<rightharpoonup> thread"

record thread_data =
  data_name :: string
  wkTid :: nat

text \<open>What the operating system and the thread-local variable say of the running thread.\<close>

record os_thread =
  os_tid :: int
  t_threadName :: string

definition os_thread_new :: "int \<Rightarrow> os_thread" where
  "os_thread_new n = \<lparr>os_tid = n, t_threadName = ''main''\<rparr>"

definition CurrentThread_tid :: "os_thread \<Rightarrow> int" where
  "CurrentThread_tid o1 = os_tid o1"

definition CurrentThread_name :: "os_thread \<Rightarrow> string" where
  "CurrentThread_name o1 = t_threadName o1"

definition isMainThread :: "int \<Rightarrow> os_thread \<Rightarrow> bool" where
  "isMainThread process_id o1 \<longleftrightarrow> CurrentThread_tid o1 = process_id"

text \<open>The constructor counts the objects in an atomic 32-bit counter, which wraps.\<close>

definition Thread_construct ::
    "string \<Rightarrow> nat \<Rightarrow> thread_heap \<times> 32 word \<Rightarrow> thread_heap \<times> 32 word" where
  "Thread_construct n a w = (case w of (h, count) \<Rightarrow> (h(a \<mapsto> Thread_new n), count + 1))"

definition Thread_numCreated :: "32 word \<Rightarrow> int" where
  "Thread_numCreated count = sint count"

definition Thread_started :: "thread \<Rightarrow> bool" where
  "Thread_started t = started_flag t"

definition Thread_tid :: "thread \<Rightarrow> int" where
  "Thread_tid t = tid t"

definition Thread_name :: "thread \<Rightarrow> string" where
  "Thread_name t = thread_name t"

text \<open>\<open>start\<close> hands the thread its data; \<open>created\<close> is the result of \<open>pthread_create\<close>.\<close>

definition Thread_start_at :: "bool \<Rightarrow> nat \<Rightarrow> thread_heap \<Rightarrow> (thread_data \<times> thread_heap) outcome" where
  "Thread_start_at created a h =
     bindO (deref h a) (\<lambda>t.
     bindO (Thread_start created t) (\<lambda>t1.
       Inr (\<lparr>data_name = thread_name t, wkTid = a\<rparr>, h(a \<mapsto> t1))))"

text \<open>The destructor detaches a started thread that was not joined (the first result); then the object is gone.\<close>

definition Thread_destroy_at :: "nat \<Rightarrow> thread_heap \<Rightarrow> (bool \<times> thread_heap) outcome" where
  "Thread_destroy_at a h = bindO (deref h a) (\<lambda>t. Inr (detached (Thread_destroy t), h(a := None)))"

text \<open>
  \<open>startThread\<close> and \<open>ThreadData::runInThread\<close>: the function of the thread is \<open>func\<close>; it sees the
  thread's own name.
\<close>

definition runInThread ::
    "(os_thread \<Rightarrow> 's \<Rightarrow> 's) \<Rightarrow> thread_data \<Rightarrow> os_thread \<Rightarrow> thread_heap \<times> 's \<Rightarrow>
     (os_thread \<times> thread_heap \<times> 's) outcome" where
  "runInThread func d o1 w =
     (case w of (h, s) \<Rightarrow>
        bindO (deref h (wkTid d)) (\<lambda>t.
          let h1 = h(wkTid d \<mapsto> t\<lparr>tid := CurrentThread_tid o1\<rparr>);
              o2 = o1\<lparr>t_threadName := (if data_name d = [] then ''wwjThread'' else data_name d)\<rparr>;
              s1 = func o2 s
          in Inr (o2\<lparr>t_threadName := ''finished''\<rparr>, h1, s1)))"

section \<open>The guard and the condition variable\<close>

definition MutexLockGuard_new :: "who \<Rightarrow> mutex \<Rightarrow> mutex" where
  "MutexLockGuard_new w m = mutex_lock w m"

definition MutexLockGuard_destroy :: "mutex \<Rightarrow> mutex" where
  "MutexLockGuard_destroy m = mutex_unlock m"

definition ETIMEDOUT :: int where
  "ETIMEDOUT = 110"

text \<open>
  \<open>now\<close> is what \<open>clock_gettime\<close> stored, seconds and nanoseconds; \<open>timedwait\<close> gives the result of
  \<open>pthread_cond_timedwait\<close> for a deadline.
\<close>

definition waitForSeconds :: "int \<times> int \<Rightarrow> (int \<times> int \<Rightarrow> int) \<Rightarrow> int \<Rightarrow> bool outcome" where
  "waitForSeconds now timedwait seconds =
     bindO (chk64 (fst now + seconds)) (\<lambda>tv_sec. Inr (ETIMEDOUT = timedwait (tv_sec, snd now)))"

text \<open>
  The constructor and the destructors.  POSIX leaves it undefined to destroy a mutex that is
  locked, or a condition variable on which threads sleep.
\<close>

definition MutexLock_destroy :: "mutex \<Rightarrow> unit outcome" where
  "MutexLock_destroy m = guardO (locked_by m = None)"

definition Condition_new :: "'w list" where
  "Condition_new = []"

definition Condition_destroy :: "'w list \<Rightarrow> unit outcome" where
  "Condition_destroy sleeping = guardO (sleeping = [])"

text \<open>The threads that sleep in \<open>wait\<close>: \<open>notify\<close> wakes one that the system picks, \<open>notifyAll\<close> all.\<close>

definition notify :: "'w \<Rightarrow> 'w list \<Rightarrow> 'w list" where
  "notify w sleeping = remove1 w sleeping"

definition notifyAll :: "'w list \<Rightarrow> 'w list" where
  "notifyAll sleeping = []"

section \<open>The end of an EventLoopThread\<close>

text \<open>
  After the body of \<open>~EventLoopThread\<close> its members go: the condition variable, the mutex, the thread object.
  Only the owner ever sleeps on the condition.
\<close>

definition elt_sleeping :: "'f elt \<Rightarrow> who list" where
  "elt_sleeping s = (if opc s = Waiting then [Owner] else Condition_new)"

definition elt_members_destroy :: "'f elt \<Rightarrow> thread outcome" where
  "elt_members_destroy s =
     bindO (Condition_destroy (elt_sleeping s)) (\<lambda>_.
     bindO (MutexLock_destroy (mtx s)) (\<lambda>_.
       Inr (Thread_destroy (thread_obj s))))"

definition join_inv :: "'f elt \<Rightarrow> bool" where
  "join_inv s \<longleftrightarrow> elt_inv s \<and> \<not> detached (thread_obj s) \<and>
     (opc s \<in> {Joining, Joined} \<longrightarrow> joined_flag (thread_obj s)) \<and> (opc s = Joined \<longrightarrow> tpc s = Finished)"

lemma join_inv_step:
  assumes step: "elt_step body s t" and inv: "join_inv s"
  shows "join_inv t"
proof -
  have s: "elt_inv s" using inv by (simp add: join_inv_def)
  have t: "elt_inv t" by (rule elt_step_inv [OF step s])
  from step show ?thesis
    by (cases rule: elt_step.cases)
      (use inv t in \<open>auto simp: join_inv_def elt_ops outcome_simps split: option.splits if_splits\<close>)
qed

interpretation joinm: machine elt_start "elt_step body" join_inv for body :: "'f \<Rightarrow> 'f call list"
proof
  show "elt_start s \<Longrightarrow> join_inv s" for s
    using elt_inv_init [of s] by (simp add: join_inv_def elt_start_def elt_ops)
qed (blast intro: join_inv_step)

section \<open>Properties\<close>

text \<open>
  What a started thread publishes, and when that is safe.  While its \<open>Thread\<close> object lives, the thread stores its
  number there, runs its function under the object's name (\<open>wwjThread\<close> if that is empty) and is
  called \<open>finished\<close> afterwards.  But the destructor of a \<open>Thread\<close> that was started and not joined
  only detaches it: if the object goes before the thread has run, the thread writes through a
  dangling pointer.
\<close>

theorem started_thread_publishes:
  assumes "h a = Some t" and "Thread_start_at True a h = Inr (d, h1)"
  shows "runInThread func d (os_thread_new n) (h1, s) =
      Inr (\<lparr>os_tid = n, t_threadName = ''finished''\<rparr>, h1(a \<mapsto> t\<lparr>started_flag := True, tid := n\<rparr>),
        func \<lparr>os_tid = n, t_threadName = runInThread_name t\<rparr> s) \<and>
    (\<exists>h2. Thread_destroy_at a h1 = Inr (detached t \<or> \<not> joined_flag t, h2) \<and> runInThread func d (os_thread_new n) (h2, s) = Inl UB)"
proof -
  have d: "d = \<lparr>data_name = thread_name t, wkTid = a\<rparr>" "h1 = h(a \<mapsto> t\<lparr>started_flag := True\<rparr>)"
    using assms by (simp_all add: Thread_start_at_def Thread_start_def deref_def)
  show ?thesis
    by (simp add: d Thread_destroy_at_def Thread_destroy_def runInThread_def runInThread_name_def
        os_thread_new_def CurrentThread_tid_def deref_def Let_def)
qed

theorem started_thread_publishes_witness:
  "\<exists>d h1 h2. Thread_start_at True 4 [4 \<mapsto> Thread_new ''io''] = Inr (d, h1) \<and> Thread_destroy_at 4 h1 = Inr (True, h2) \<and>
     runInThread (\<lambda>o1 s. t_threadName o1) d (os_thread_new 77) (h1, []) =
       Inr (\<lparr>os_tid = 77, t_threadName = ''finished''\<rparr>, h1(4 \<mapsto> (Thread_new ''io'')\<lparr>started_flag := True, tid := 77\<rparr>), ''io'') \<and>
     runInThread (\<lambda>o1 s. t_threadName o1) d (os_thread_new 77) (h2, []) = Inl UB"
proof -
  obtain d h1 where s: "Thread_start_at True 4 [4 \<mapsto> Thread_new ''io''] = Inr (d, h1)"
    by (simp add: Thread_start_at_def Thread_start_def deref_def)
  from started_thread_publishes [OF _ s, of "Thread_new ''io''" "\<lambda>o1 s. t_threadName o1" 77 "[]"] s
  show ?thesis by (auto simp: runInThread_name_def Thread_new_def)
qed

text \<open>
  C39.  Once its destructor has joined the thread, an \<open>EventLoopThread\<close> goes cleanly: in every
  reachable state the mutex is then free, nobody sleeps on the condition, and the thread, which has
  left its loop, is neither detached nor running; so the destructors of the members are defined.
\<close>

theorem joined_thread_goes_cleanly:
  assumes "reach elt_start (elt_step body) s" and "opc s = Joined"
  shows "elt_members_destroy s = Inr (thread_obj s) \<and> \<not> detached (thread_obj s) \<and>
    tpc s = Finished \<and> stack_loop s = None"
proof -
  have inv: "join_inv s" by (rule joinm.inv_reach [OF assms(1)])
  then have "locked_by (mtx s) \<noteq> Some Owner" "locked_by (mtx s) \<noteq> Some Started"
    using assms(2) by (auto simp: join_inv_def elt_inv_def)
  then have "locked_by (mtx s) = None" by (metis not_None_eq who.exhaust)
  with inv assms(2) show ?thesis
    by (auto simp: join_inv_def elt_inv_def elt_members_destroy_def elt_sleeping_def Condition_destroy_def
        Condition_new_def MutexLock_destroy_def Thread_destroy_def)
qed

theorem joined_thread_goes_cleanly_witness:
  "\<exists>s. reach elt_start (elt_step (\<lambda>_. [])) (s :: nat elt) \<and> opc s = Joined \<and>
     elt_members_destroy s = Inr (thread_obj s)"
proof -
  let ?R = "reach elt_start (elt_step (\<lambda>_. []))"
  note st = elt_step.intros
  obtain s :: "nat elt" where r: "?R s" "opc s = Returned" "tpc s = Looping"
    and sl: "stack_loop s = Some EventLoop_new" "loop_ptr s" using reach_returned by blast
  let ?l1 = "enter_loop EventLoop_new :: nat loop"
  let ?s1 = "s\<lparr>stack_loop := Some ?l1\<rparr>"
  have "loop_step (\<lambda>_. []) LoopThread EventLoop_new ?l1" by (rule enter) (simp add: EventLoop_new_def)
  from r(1) st(14) [OF r(3) sl(1) this] have r1: "?R ?s1" by (rule reach_step)
  let ?l2 = "quit_remote ?l1"
  let ?s2 = "?s1\<lparr>exiting := True, stack_loop := Some ?l2, thread_obj := Thread_join (thread_obj s), opc := Joining\<rparr>"
  have "elt_destroy ?s1 = Inr ?s2" using sl(2) by (simp add: elt_destroy_def)
  from r1 st(7) [OF _ this] r(2) have r2: "?R ?s2" by (simp add: reach_step)
  let ?l3 = "check_while ?l2"
  let ?s3 = "?s2\<lparr>stack_loop := Some ?l3\<rparr>"
  have "loop_step (\<lambda>_. []) LoopThread ?l2 ?l3" by (rule check) (simp add: loop_ops)
  from r2 st(14) [OF _ _ this, of ?s2] r(3) have r3: "?R ?s3" by (simp add: reach_step)
  let ?s4 = "?s3\<lparr>tpc := Finished, stack_loop := None\<rparr>"
  have "pc ?l3 = AfterLoop" by (simp add: loop_ops)
  from r3 st(16) [OF _ _ this, of ?s3] r(3) have r4: "?R ?s4" by (simp add: reach_step)
  let ?s5 = "?s4\<lparr>opc := Joined\<rparr>"
  from r4 st(8) [of ?s4] have r5: "?R ?s5" by (simp add: reach_step)
  have "opc ?s5 = Joined" by simp
  with r5 joined_thread_goes_cleanly [OF r5] show ?thesis by blast
qed

text \<open>A wait with a deadline that time has no number for is undefined; the program never calls it.\<close>

lemma waitForSeconds_overflow:
  "\<not> in_i64 (fst now + seconds) \<Longrightarrow> waitForSeconds now timedwait seconds = Inl UB"
  by (simp add: waitForSeconds_def chk64_def)

text \<open>A guard that comes and goes leaves the mutex free.\<close>

lemma guard_balanced: "MutexLockGuard_destroy (MutexLockGuard_new w m) = MutexLock_new"
  by (simp add: MutexLockGuard_destroy_def MutexLockGuard_new_def mutex_lock_def mutex_unlock_def MutexLock_new_def)

end
