(* ===== verification/Spec2Isabelle.thy ===== *)
theory Spec2Isabelle
  imports LoopTimers LoopTeardown Callbacks Signals LogOutput BufferQueue ThreadObjects
begin

text \<open>
  A verification library for the event-driven TCP server library under \<open>src/log\<close>.

  \<^bold>\<open>The program.\<close>  A server accepts connections in one event loop and serves them in a pool of
  loops, one thread each.  A loop waits in \<open>poll\<close>, dispatches the events of its channels, and then
  calls the functors that other threads have queued.  Timers reach a loop through a \<open>timerfd\<close>.
  Everything reports through a logger.

  \<^bold>\<open>Theories, bottom up.\<close>
  \<^item> \<open>Prelude\<close>: outcomes (a result, undefined behaviour, or the end of the process), checked signed
    integers, decimal text, \<open>std::set\<close> as an interface and as a list, transition systems and
    refinement as interfaces (locales \<open>std_set\<close>, \<open>machine\<close>, \<open>refinement\<close>).
  \<^item> \<open>Timestamps\<close> (\<open>Timestamp.h/.cc\<close>): microseconds since the epoch, \<open>addTime\<close> on IEEE doubles,
    \<open>toString\<close>.
  \<^item> \<open>TimerQueue\<close> (\<open>Timer.h/.cc\<close>, \<open>TimerId.h\<close>, \<open>TimerQueue.h/.cc\<close>): the record \<open>tq\<close> has the fields of
    the class and the timer objects on a heap; every function of the source is a definition of its
    name.  The invariant \<open>tq_inv\<close> ties the two sets to the heap.
  \<^item> \<open>LoopTimers\<close> (\<open>EventLoop.cc\<close>): \<open>runAt\<close>, \<open>runAfter\<close>, \<open>runEvery\<close>, \<open>cancel\<close>.
  \<^item> \<open>Buffers\<close> (\<open>Buffer.h/.cc\<close>): a byte vector with two 64-bit indices; \<open>size_t\<close> arithmetic wraps.
  \<^item> \<open>BufferQueue\<close> (\<open>Buffer.h/.cc\<close>): sequences of operations on a pair of buffers, each used within its
    contract, against plain queues of bytes; \<open>lossy\<close> marks the operations that lose what they are given.
  \<^item> \<open>Channels\<close> (\<open>Channel.h/.cc\<close>): event masks and \<open>handleEvent\<close>, over an interface \<open>channel_owner\<close> to
    the object that owns the channel, instantiated by the connection.
  \<^item> \<open>Pollers\<close> (\<open>Poller.h/.cc\<close>): the array for \<open>poll\<close>, the map from descriptors and the indices that
    channels remember; \<open>poller_inv\<close> says that they agree.
  \<^item> \<open>LogStream\<close>, \<open>Logging\<close> (\<open>LogStream.h/.cc\<close>, \<open>Logging.h/.cc\<close>): the fixed buffer and its insertion
    operators (interface \<open>text_sink\<close>), loggers, levels, calendar time.
  \<^item> \<open>LogOutput\<close> (\<open>Logging.cc\<close>): the output and flush functions, their setters, and what of the
    lines reaches the file when the C library (record \<open>stdio\<close>) takes or flushes less than all.
  \<^item> \<open>Sockets\<close> (\<open>SocketsOps.h/.cc\<close>, \<open>InetAddress.h/.cc\<close>, \<open>Socket::accept\<close>): system-call wrappers and
    socket addresses.
  \<^item> \<open>TcpConnection\<close>, \<open>Connections\<close> (\<open>TcpConnection.h/.cc\<close>): the operations of a connection on its
    channel, its loop's poller and its buffers; then its invariant \<open>conn_ok\<close> and its behaviour over
    arbitrary sequences of events and calls.
  \<^item> \<open>EventLoop\<close> (\<open>EventLoop.h/.cc\<close>): the loop's thread as a program with a position, other threads
    as steps between its steps; a refinement of a first-in first-out queue.
  \<^item> \<open>EventLoopThread\<close> (\<open>Thread.h/.cc\<close>, \<open>Mutex.h\<close>, \<open>Condition.h\<close>, \<open>EventLoopThread.h/.cc\<close>): the
    handshake of \<open>startLoop\<close> and the destructor, as interleaved steps of two threads; \<open>elt_run\<close> counts
    the steps of the handshake and the spurious wakeups, and \<open>rank\<close> bounds the former.
  \<^item> \<open>ThreadObjects\<close> (\<open>Thread.h/.cc\<close>, \<open>Mutex.h\<close>, \<open>Condition.h\<close>): what a started thread stores into
    its \<open>Thread\<close> object, names and numbers, the guard, the timed wait, \<open>notifyAll\<close>, and
    the end of an \<open>EventLoopThread\<close>.
  \<^item> \<open>ThreadPools\<close> (\<open>EventLoopThreadPool.h/.cc\<close>): the pool, its rotation and its destruction.
  \<^item> \<open>Acceptors\<close> (\<open>Socket.h/.cc\<close>, \<open>Acceptor.h/.cc\<close>): the listening socket.
  \<^item> \<open>Servers\<close> (\<open>TcpServer.h/.cc\<close>): the server, which composes all of these: accepted connections,
    the map of connections, the functors it hands to the loops.
  \<^item> \<open>ServerSafety\<close>: the invariant \<open>safe\<close> of the whole server, which joins those of the parts.
  \<^item> \<open>LoopSetup\<close> (\<open>EventLoop.cc\<close>, \<open>TimerQueue.cc\<close>): the constructors of a loop and of its timer queue
    on the poller, up to a server that is safe to start; \<open>Poller_poll\<close>, the whole of \<open>Poller::poll\<close>
    with the time it returns and its log statements (\<open>poll\<close> in \<open>Pollers\<close> is the part on the tables).
  \<^item> \<open>Callbacks\<close> (\<open>Callbacks.h\<close>, \<open>TcpServer.h\<close>, \<open>TcpConnection.h\<close>): the callback members of the server and
    of each connection, which the user may set between any two operations; the server over these members.
  \<^item> \<open>Signals\<close> (\<open>EventLoop.cc\<close>): the static object that ignores \<open>SIGPIPE\<close>.
  \<^item> \<open>Teardown\<close> (\<open>Channel.cc\<close>, \<open>Acceptor.h\<close>, \<open>TcpConnection.cc\<close>, \<open>TcpServer.cc\<close>): the destructors,
    and the last owner of a connection that lets it go; \<open>LoopTeardown\<close> (\<open>EventLoop.cc\<close>,
    \<open>TimerQueue.cc\<close>): the same for a loop and its timer queue.

  \<^bold>\<open>What the lemmas show.\<close>  For each component an invariant that every operation keeps, the
  functional behaviour of its operations on every branch, and then properties over all reachable
  states: that the whole server, started by its constructors, meets no undefined behaviour and no
  abort while its environment keeps the promises below and the uninitialised members of its connections
  happen to hold harmless values (and that it does if they do not), also when the user replaces callbacks; memory safety of the timer queue and of an established connection; that timers fire when
  they are due, in order, and the descriptor is armed again from the last reading of the clock; that the poller's tables agree and
  \<open>poll\<close> reports the right channels; that functors are called once, in order, that a round of them
  ends if they do, and that no wakeup is lost but for functors queued before \<open>loop()\<close>;
  that \<open>startLoop\<close> neither deadlocks nor returns without a loop, and returns within 14 steps of the
  handshake and two for each spurious wakeup; that the server spreads connections
  evenly, never confuses two of them, and runs their functors in their own loop and in order.

  Where the code does something else than it seems to intend, the theorem states what the code does:
  a channel once disabled is never watched again; \<open>append(const char*, size_t)\<close> is empty, so the
  bytes a kernel buffer does not take are lost and the connection is stuck; a connection copies its
  peer's address from itself and leaves the indices of its buffers uninitialised; \<open>addTimer\<close> reads a
  timer that the loop may have deleted; a short \<open>fwrite\<close> loses log text unnoticed; the server never lets go
  of a connection; a destroyed loop leaves its wakeup descriptor open; a destroyed server leaves its listening channel in the poller of the base loop, and
  a removed channel that is updated again writes into the entry of another; every failing \<open>accept\<close>
  ends the process; a \<open>quit\<close> before \<open>loop()\<close> is lost, and an
  \<open>EventLoopThread\<close> destroyed at that moment hangs.

  \<^bold>\<open>Modelling choices.\<close>
  \<^item> Signed overflow and accesses to dead or foreign memory are the fault \<open>UB\<close>; \<open>abort()\<close>, a failed
    \<open>assert\<close> and an exception nobody catches are \<open>Abort\<close>.  Words wrap.
  \<^item> No definition needs fuel: loops over finite data are structural, the digit and calendar loops have
    measures, and what may run for ever (the event loop, the threads) is a step relation.
  \<^item> The kernel is an argument: replies of system calls, readings of the clock, what \<open>poll\<close> reports,
    addresses of new objects, the contents of uninitialised memory.
  \<^item> User callbacks are arguments.  What is assumed of them is a named predicate: \<open>user_code\<close> (a timer
    callback uses the queue through \<open>addTimer\<close> and \<open>cancel\<close>), \<open>user_ok\<close> (a connection callback keeps
    the connection's name and state set), \<open>user_safe\<close> (the same, and it leaves an established
    connection in order; \<open>send\<close> and \<open>shutdown\<close> are proved to qualify).  What the kernel and \<open>new\<close>
    promise for one accepted connection (a fresh address, a descriptor not in use and below the limit, no
    more bytes read or written than asked for) is the predicate \<open>offered\<close>.  What nobody promises, that
    the members which the constructor leaves uninitialised hold harmless values, is the separate predicate
    \<open>lucky_memory\<close>; reading an indeterminate \<open>peerAddr_\<close> is \<open>UB\<close>.
  \<^item> Memory is sequentially consistent: \<open>quit_\<close> and \<open>state_\<close>, which the code shares without a lock,
    are read and written atomically.  A callback member that is set while another thread calls it is a
    data race and outside the model: setters come between operations.
  \<^item> Log output is modelled where it is the subject or can end the process (\<open>Logging\<close>, \<open>Sockets\<close>,
    \<open>Acceptors\<close>, \<open>Servers\<close>); the log statements of the other components, which change nothing these
    components use, are not repeated.

  \<^bold>\<open>Not modelled.\<close>  The failure of \<open>timerfd_settime\<close>, which is only logged and cannot happen on a live
  descriptor (\<open>howMuchTimeFromNow_accepted\<close> in \<open>TimerQueue\<close>); the calls of the callbacks for messages, for
  completed writes and for closed connections, because no code of the library makes them; the older copies
  (\<open>*.bak_\<close>), the directories \<open>error\<close> and \<open>test\<close>, which are not part of the library, and the build files.
  What is left of the sources are declarations, include directives and code that is commented out.
\<close>

end
